(* ===== verification/Prelude.thy ===== *)
theory Prelude
  imports Main "HOL-Library.Word"
begin

text \<open>
  Shared vocabulary of the development: the machine types of the 64-bit ARM target
  (LP64, 4 KiB pages), the Linux error numbers the drivers return, undefined behaviour
  as an explicit \<open>fault\<close> value, bounded memory reads and writes, and the C string
  functions (\<open>strlen\<close>, \<open>strcmp\<close>, \<open>strncpy\<close>) over arrays of characters.
  The generic lemmas below are what the component theories rest on.
\<close>

section \<open>Collections of facts\<close>

named_theorems mem_simps \<open>in-range memory accesses\<close>
named_theorems cstr_simps \<open>C string functions on terminated strings\<close>

section \<open>Machine types and error numbers\<close>

type_synonym byte = "8 word"
type_synonym u32 = "32 word"
type_synonym s32 = "32 word"      \<comment> \<open>C \<open>int\<close>, read with \<open>sint\<close>\<close>
type_synonym u64 = "64 word"      \<comment> \<open>\<open>size_t\<close>, \<open>unsigned long\<close>\<close>
type_synonym s64 = "64 word"      \<comment> \<open>\<open>loff_t\<close>, \<open>ssize_t\<close>, \<open>long\<close>, read with \<open>sint\<close>\<close>

abbreviation EAGAIN :: "'a::len word" where "EAGAIN \<equiv> 11"
abbreviation ENOMEM :: "'a::len word" where "ENOMEM \<equiv> 12"
abbreviation EFAULT :: "'a::len word" where "EFAULT \<equiv> 14"
abbreviation EBUSY :: "'a::len word" where "EBUSY \<equiv> 16"
abbreviation ENODEV :: "'a::len word" where "ENODEV \<equiv> 19"
abbreviation EINVAL :: "'a::len word" where "EINVAL \<equiv> 22"
abbreviation ERESTARTSYS :: "'a::len word" where "ERESTARTSYS \<equiv> 512"
abbreviation ENOIOCTLCMD :: "'a::len word" where "ENOIOCTLCMD \<equiv> 515"

definition negative :: "'a::len word \<Rightarrow> bool" where
  "negative w \<longleftrightarrow> sint w < 0"

section \<open>Faults\<close>

text \<open>
  What the C program may do beyond returning a value: an access outside an object, an
  access to freed memory, the use of a pointer that is null or encodes an error, the use
  of a variable that was never written, or an explicit \<open>BUG()\<close>. A step that can do so
  has a result in \<open>fault + 'a\<close>.
\<close>

datatype fault = OutOfBounds | UseAfterFree | BadPointer | Uninitialised | KernelBug | SignedOverflow

fun bindo :: "fault + 'a \<Rightarrow> ('a \<Rightarrow> fault + 'b) \<Rightarrow> fault + 'b" where
  "bindo (Inl f) g = Inl f"
| "bindo (Inr a) g = g a"

lemma bindo_Inr_iff: "bindo m g = Inr b \<longleftrightarrow> (\<exists>a. m = Inr a \<and> g a = Inr b)"
  by (cases m) auto

lemma bindo_cong [fundef_cong]:
  "m = m' \<Longrightarrow> (\<And>a. m' = Inr a \<Longrightarrow> g a = g' a) \<Longrightarrow> bindo m g = bindo m' g'"
  by (cases m') auto

lemma bindo_Inl_iff: "bindo m g = Inl f \<longleftrightarrow> m = Inl f \<or> (\<exists>a. m = Inr a \<and> g a = Inl f)"
  by (cases m) auto

lemma bindo_assoc: "bindo (bindo m g) h = bindo m (\<lambda>a. bindo (g a) h)"
  by (cases m) auto

section \<open>Memory\<close>

definition mem_read :: "'a list \<Rightarrow> nat \<Rightarrow> nat \<Rightarrow> fault + 'a list" where
  "mem_read m off n =
     (if n = 0 then Inr []
      else if off + n \<le> length m then Inr (take n (drop off m))
      else Inl OutOfBounds)"

definition mem_write :: "'a list \<Rightarrow> nat \<Rightarrow> 'a list \<Rightarrow> fault + 'a list" where
  "mem_write m off ds =
     (if ds = [] then Inr m
      else if off + length ds \<le> length m
      then Inr (take off m @ ds @ drop (off + length ds) m)
      else Inl OutOfBounds)"

lemma mem_read_in [mem_simps]:
  "off + n \<le> length m \<Longrightarrow> mem_read m off n = Inr (take n (drop off m))"
  by (simp add: mem_read_def)

lemma mem_read_out: "0 < n \<Longrightarrow> length m < off + n \<Longrightarrow> mem_read m off n = Inl OutOfBounds"
  by (simp add: mem_read_def)

lemma mem_write_in [mem_simps]:
  "off + length ds \<le> length m \<Longrightarrow>
   mem_write m off ds = Inr (take off m @ ds @ drop (off + length ds) m)"
  by (simp add: mem_write_def)

lemma mem_write_out:
  "ds \<noteq> [] \<Longrightarrow> length m < off + length ds \<Longrightarrow> mem_write m off ds = Inl OutOfBounds"
  by (simp add: mem_write_def)

lemma mem_write_length: "mem_write m off ds = Inr m' \<Longrightarrow> length m' = length m"
  by (auto simp: mem_write_def split: if_splits)

lemma mem_write_Inr_bound:
  "mem_write m off ds = Inr m' \<Longrightarrow> ds \<noteq> [] \<Longrightarrow> off + length ds \<le> length m"
  by (auto simp: mem_write_def split: if_splits)

lemma mem_read_Inr_length: "mem_read m off n = Inr ds \<Longrightarrow> length ds = n"
  by (auto simp: mem_read_def split: if_splits)

text \<open>What was written is what is read back, and nothing else changes.\<close>

lemma mem_read_write_same:
  assumes "mem_write m off ds = Inr m'"
  shows "mem_read m' off (length ds) = Inr ds"
  using assms by (auto simp: mem_write_def mem_read_def split: if_splits)

lemma mem_write_nth_other:
  assumes "mem_write m off ds = Inr m'" and "i < off \<or> off + length ds \<le> i" and "i < length m"
  shows "m' ! i = m ! i"
  using assms by (auto simp: mem_write_def nth_append split: if_splits)

section \<open>The end-of-buffer check\<close>

lemma unat_lt64: "unat (w :: u64) < 18446744073709551616"
  using unsigned_less [of w] by simp


text \<open>
  Every read and write method of the buffer drivers begins with
  \<^verbatim>\<open>if (*ppos + count >= BUF_LEN) count = BUF_LEN - *ppos;\<close>
  The sum mixes \<open>loff_t\<close> and \<open>size_t\<close>, so C computes and compares it as an unsigned
  64-bit number; the difference is taken modulo \<open>2 ^ 64\<close> and stored in a \<open>size_t\<close>.
\<close>

definition clamp_count :: "u64 \<Rightarrow> s64 \<Rightarrow> u64 \<Rightarrow> u64" where
  "clamp_count buf_len ppos count =
     (if buf_len \<le> ppos + count then buf_len - ppos else count)"

lemma unat_clamp_count:
  assumes "unat ppos \<le> unat buf_len" and "unat ppos + unat count < 2 ^ 64"
  shows "unat (clamp_count buf_len ppos count) = min (unat count) (unat buf_len - unat ppos)"
proof -
  have sum: "unat (ppos + count) = unat ppos + unat count"
    using assms(2) by (simp add: unat_word_ariths)
  have diff: "unat (buf_len - ppos) = unat buf_len - unat ppos"
    using assms(1) by (simp add: unat_sub word_le_nat_alt)
  show ?thesis
    using assms(1) by (auto simp: clamp_count_def word_le_nat_alt sum diff)
qed

lemma clamp_count_fits:
  assumes "unat ppos \<le> unat buf_len" and "unat ppos + unat count < 2 ^ 64"
  shows "unat ppos + unat (clamp_count buf_len ppos count) \<le> unat buf_len"
  using assms by (simp add: unat_clamp_count)

lemma unat_add_clamp_count:
  assumes "unat ppos \<le> unat buf_len" and "unat ppos + unat count < 2 ^ 64"
  shows "unat (ppos + clamp_count buf_len ppos count) =
         unat ppos + min (unat count) (unat buf_len - unat ppos)"
proof -
  have "unat ppos + unat (clamp_count buf_len ppos count) < 2 ^ 64"
    using clamp_count_fits [OF assms] unat_lt64 [of buf_len] by simp
  then show ?thesis
    using assms by (simp add: unat_word_ariths unat_clamp_count)
qed

text \<open>
  A position past the end makes the difference wrap: the count becomes a number close to
  \<open>2 ^ 64\<close>, not zero.
\<close>

lemma clamp_count_past_end:
  assumes "unat buf_len < unat ppos" and "unat ppos + unat count < 2 ^ 64"
  shows "unat (clamp_count buf_len ppos count) = 2 ^ 64 - (unat ppos - unat buf_len)"
proof -
  have sum: "unat (ppos + count) = unat ppos + unat count"
    using assms(2) by (simp add: unat_word_ariths)
  have "clamp_count buf_len ppos count = buf_len - ppos"
    using assms(1) by (simp add: clamp_count_def word_le_nat_alt sum)
  moreover have "unat (buf_len - ppos) = 2 ^ 64 + unat buf_len - unat ppos"
    using assms(1) unat_lt64 [of ppos]
    by (simp add: unat_sub_if' word_le_nat_alt)
  ultimately show ?thesis using assms(1) by simp
qed

section \<open>C strings\<close>

text \<open>
  A \<open>char\<close> array or a string literal is the list of its characters, the terminating
  zero included. Running off the end of the list is a fault.
\<close>

definition NUL :: char where
  "NUL = CHR 0x00"

definition is_cstr :: "char list \<Rightarrow> bool" where
  "is_cstr s \<longleftrightarrow> NUL \<in> set s"

definition cstr :: "string \<Rightarrow> char list" where
  "cstr s = s @ [NUL]"

definition str_of :: "char list \<Rightarrow> string" where
  "str_of m = takeWhile (\<lambda>c. c \<noteq> NUL) m"

fun strlen :: "char list \<Rightarrow> fault + nat" where
  "strlen [] = Inl OutOfBounds"
| "strlen (c # cs) = (if c = NUL then Inr 0 else map_sum id Suc (strlen cs))"

fun strcmp :: "char list \<Rightarrow> char list \<Rightarrow> fault + int" where
  "strcmp (a # as) (b # bs) =
     (if a \<noteq> b then Inr (of_char a - of_char b)
      else if a = NUL then Inr 0
      else strcmp as bs)"
| "strcmp _ _ = Inl OutOfBounds"

fun strncpy :: "char list \<Rightarrow> nat \<Rightarrow> fault + char list" where
  "strncpy src 0 = Inr []"
| "strncpy [] (Suc n) = Inl OutOfBounds"
| "strncpy (c # cs) (Suc n) =
     (if c = NUL then Inr (replicate (Suc n) NUL)
      else map_sum id (Cons c) (strncpy cs n))"

text \<open>\<open>printf\<close>'s \<open>%d\<close>: the decimal digits, with a minus sign for a negative \<open>int\<close>.\<close>

fun fmt_nat :: "nat \<Rightarrow> string" where
  "fmt_nat n =
     (if n < 10 then [char_of (48 + n)] else fmt_nat (n div 10) @ [char_of (48 + n mod 10)])"

declare fmt_nat.simps [simp del]

definition fmt_d :: "s32 \<Rightarrow> string" where
  "fmt_d w = (if negative w then CHR ''-'' # fmt_nat (nat (- sint w)) else fmt_nat (nat (sint w)))"

text \<open>\<open>"%s@%d"\<close>, the name the drivers give their device nodes.\<close>

definition node_name :: "char list \<Rightarrow> u32 \<Rightarrow> fault + string" where
  "node_name label ident =
     (if is_cstr label then Inr (str_of label @ ''@'' @ fmt_d ident) else Inl OutOfBounds)"

lemma strlen_cstr [cstr_simps]: "is_cstr m \<Longrightarrow> strlen m = Inr (length (str_of m))"
  by (induction m) (auto simp: is_cstr_def str_of_def)

lemma is_cstr_cstr [simp]: "is_cstr (cstr s)"
  by (simp add: is_cstr_def cstr_def)

lemma str_of_cstr: "NUL \<notin> set s \<Longrightarrow> str_of (cstr s) = s"
  by (induction s) (auto simp: str_of_def cstr_def)

lemma str_of_append_NUL: "NUL \<notin> set s \<Longrightarrow> str_of (s @ NUL # r) = s"
  by (induction s) (auto simp: str_of_def)

lemma NUL_notin_str_of [simp]: "NUL \<notin> set (str_of m)"
  by (auto simp: str_of_def dest: set_takeWhileD)

lemma strncpy_cstr [cstr_simps]:
  "is_cstr m \<Longrightarrow>
   strncpy m n = Inr (take n (str_of m) @ replicate (n - length (str_of m)) NUL)"
proof (induction m n rule: strncpy.induct)
  case (3 c cs n)
  then show ?case
    by (cases "c = NUL") (auto simp: is_cstr_def str_of_def)
qed (auto simp: is_cstr_def)

lemma strncpy_length: "strncpy m n = Inr d \<Longrightarrow> length d = n"
  by (induction m n arbitrary: d rule: strncpy.induct)
    (auto split: if_splits simp: map_sum_def split: sum.splits)

lemma strcmp_cstr [cstr_simps]:
  "is_cstr a \<Longrightarrow> is_cstr b \<Longrightarrow>
   \<exists>r. strcmp a b = Inr r \<and> (r = 0 \<longleftrightarrow> str_of a = str_of b)"
  by (induction a b rule: strcmp.induct) (auto simp: is_cstr_def str_of_def)

text \<open>An unterminated array compared with a string that extends it is read past its end.\<close>

lemma strcmp_overrun:
  "NUL \<notin> set a \<Longrightarrow> strcmp a (a @ b) = Inl OutOfBounds"
  by (induction a) auto

lemma strcmp_prefix_fault:
  "NUL \<notin> set a \<Longrightarrow> take (length a) b = a \<Longrightarrow> strcmp a b = Inl OutOfBounds"
  using strcmp_overrun [of a "drop (length a) b"] by (metis append_take_drop_id)

end
