(* ===== verification/Kernel_Iface.thy ===== *)
theory Kernel_Iface
  imports Prelude
begin

text \<open>
  What the character drivers share with the Linux kernel. The kernel is not part of the
  repository: what a call answers is an input of the model (a field of an environment
  record), and that a call was made, with which arguments and which answer, is recorded
  in the state's trace \<open>ktrace\<close>, in order. The functions \<open>live_cdevs\<close> and
  \<open>live_devices\<close> read off a trace what the driver still holds, according to the
  documented meaning of the calls; they are specification, not model.
\<close>

section \<open>Kernel objects\<close>

datatype dev_t = MKDEV (MAJOR: u32) (MINOR: u32)

text \<open>Device numbers are ordered by major, then minor number, so that a region of them is an interval.\<close>

instantiation dev_t :: linorder
begin

definition less_eq_dev_t :: "dev_t \<Rightarrow> dev_t \<Rightarrow> bool" where
  "less_eq_dev_t a b \<longleftrightarrow> MAJOR a < MAJOR b \<or> MAJOR a = MAJOR b \<and> MINOR a \<le> MINOR b"

definition less_dev_t :: "dev_t \<Rightarrow> dev_t \<Rightarrow> bool" where
  "less_dev_t a b \<longleftrightarrow> MAJOR a < MAJOR b \<or> MAJOR a = MAJOR b \<and> MINOR a < MINOR b"

instance
  by standard (auto simp: less_eq_dev_t_def less_dev_t_def dev_t.expand)

end

lemma MKDEV_le [simp]: "MKDEV m a \<le> MKDEV m b \<longleftrightarrow> a \<le> b"
  by (simp add: less_eq_dev_t_def)

lemma MKDEV_less [simp]: "MKDEV m a < MKDEV m b \<longleftrightarrow> a < b"
  by (simp add: less_dev_t_def)

text \<open>
  Pointers the kernel hands out: null, an encoded error (\<open>ERR_PTR\<close>), or an object,
  identified by a number; a \<^verbatim>\<open>struct device\<close> carries the number it was created for.
\<close>

datatype class_ptr = NullClass | ErrClass s32 | Class nat

datatype dev_ptr = NullDev | ErrDev s32 | Dev nat dev_t

section \<open>Kernel calls\<close>

datatype kcall =
    Class_Create class_ptr
  | Class_Destroy class_ptr
  | Alloc_Chrdev_Region dev_t nat s32
  | Unregister_Chrdev_Region dev_t nat
  | Cdev_Init nat nat                        \<comment> \<open>slot, owner\<close>
  | Cdev_Add nat dev_t s32                   \<comment> \<open>slot, number, answer\<close>
  | Cdev_Del nat
  | Device_Create nat dev_t string dev_ptr   \<comment> \<open>parent, number, name, answer\<close>
  | Device_Destroy dev_t
  | Kobject_Get nat                          \<comment> \<open>the device object\<close>
  | Kobject_Put nat
  | Kzalloc nat "nat option"                 \<comment> \<open>size, address\<close>
  | Kfree nat
  | Timer_Start nat
  | Timer_Cancel nat
  | Timer_Forward nat int                    \<comment> \<open>slot, nanoseconds\<close>
  | Wake_Up nat
  | Kill_Fasync nat
  | Remap_Pfn_Range nat u64 u64 u64 s32      \<comment> \<open>slot, address, page frame, size, answer\<close>

fun cdev_effect :: "kcall \<Rightarrow> nat set \<Rightarrow> nat set" where
  "cdev_effect (Cdev_Add i devt r) S = (if r = 0 then insert i S else S)"
| "cdev_effect (Cdev_Del i) S = S - {i}"
| "cdev_effect _ S = S"

fun device_effect :: "kcall \<Rightarrow> dev_t set \<Rightarrow> dev_t set" where
  "device_effect (Device_Create p devt n (Dev h d)) S = insert devt S"
| "device_effect (Device_Destroy devt) S = S - {devt}"
| "device_effect _ S = S"

fun memory_effect :: "kcall \<Rightarrow> nat set \<Rightarrow> nat set" where
  "memory_effect (Kzalloc n (Some a)) S = insert a S"
| "memory_effect (Kfree a) S = S - {a}"
| "memory_effect _ S = S"

fun timer_effect :: "kcall \<Rightarrow> nat set \<Rightarrow> nat set" where
  "timer_effect (Timer_Start i) S = insert i S"
| "timer_effect (Timer_Cancel i) S = S - {i}"
| "timer_effect _ S = S"

fun class_effect :: "kcall \<Rightarrow> nat set \<Rightarrow> nat set" where
  "class_effect (Class_Create (Class c)) S = insert c S"
| "class_effect (Class_Destroy (Class c)) S = S - {c}"
| "class_effect _ S = S"

fun region_effect :: "kcall \<Rightarrow> dev_t set \<Rightarrow> dev_t set" where
  "region_effect (Alloc_Chrdev_Region devt n r) S = (if negative r then S else insert devt S)"
| "region_effect (Unregister_Chrdev_Region devt n) S = S - {devt}"
| "region_effect _ S = S"

definition live_classes :: "kcall list \<Rightarrow> nat set" where
  "live_classes t = fold class_effect t {}"

definition live_regions :: "kcall list \<Rightarrow> dev_t set" where
  "live_regions t = fold region_effect t {}"

definition live_cdevs :: "kcall list \<Rightarrow> nat set" where
  "live_cdevs t = fold cdev_effect t {}"

definition live_devices :: "kcall list \<Rightarrow> dev_t set" where
  "live_devices t = fold device_effect t {}"

definition live_memory :: "kcall list \<Rightarrow> nat set" where
  "live_memory t = fold memory_effect t {}"

definition live_timers :: "kcall list \<Rightarrow> nat set" where
  "live_timers t = fold timer_effect t {}"

lemma live_append [simp]:
  "live_cdevs (t @ cs) = fold cdev_effect cs (live_cdevs t)"
  "live_devices (t @ cs) = fold device_effect cs (live_devices t)"
  "live_memory (t @ cs) = fold memory_effect cs (live_memory t)"
  "live_timers (t @ cs) = fold timer_effect cs (live_timers t)"
  "live_classes (t @ cs) = fold class_effect cs (live_classes t)"
  "live_regions (t @ cs) = fold region_effect cs (live_regions t)"
  by (simp_all add: live_classes_def live_regions_def live_cdevs_def live_devices_def
      live_memory_def live_timers_def)

lemma live_Nil [simp]:
  "live_cdevs [] = {}" "live_devices [] = {}" "live_memory [] = {}" "live_timers [] = {}"
  "live_classes [] = {}" "live_regions [] = {}"
  by (simp_all add: live_classes_def live_regions_def live_cdevs_def live_devices_def live_memory_def live_timers_def)

text \<open>
  The life of a device object: \<open>device_create()\<close> makes it with one reference,
  \<open>kobject_get()\<close> and \<open>kobject_put()\<close> change the count, \<open>device_destroy()\<close> drops
  the first reference of the object its number stands for. An object whose count has come
  down to zero is freed.
\<close>

fun ref_effect :: "kcall \<Rightarrow> (dev_t \<Rightarrow> nat option) \<times> (nat \<Rightarrow> int) \<Rightarrow> (dev_t \<Rightarrow> nat option) \<times> (nat \<Rightarrow> int)"
where
  "ref_effect (Device_Create p devt n (Dev h d)) (cur, refs) = (cur(devt \<mapsto> h), refs(h := 1))"
| "ref_effect (Device_Destroy devt) (cur, refs) =
     (case cur devt of
        None \<Rightarrow> (cur, refs)
      | Some h \<Rightarrow> (cur(devt := None), refs(h := refs h - 1)))"
| "ref_effect (Kobject_Get h) (cur, refs) = (cur, refs(h := refs h + 1))"
| "ref_effect (Kobject_Put h) (cur, refs) = (cur, refs(h := refs h - 1))"
| "ref_effect _ st = st"

lemma ref_effect_create [simp]:
  "ref_effect (Device_Create p devt n (Dev h d)) st = ((fst st)(devt \<mapsto> h), (snd st)(h := 1))"
  "ref_effect (Kobject_Get h) st = (fst st, (snd st)(h := snd st h + 1))"
  "ref_effect (Kobject_Put h) st = (fst st, (snd st)(h := snd st h - 1))"
  by (cases st; simp)+

definition ref_state :: "kcall list \<Rightarrow> (dev_t \<Rightarrow> nat option) \<times> (nat \<Rightarrow> int)" where
  "ref_state t = fold ref_effect t (\<lambda>_. None, \<lambda>_. 0)"

definition object_refs :: "kcall list \<Rightarrow> nat \<Rightarrow> int" where
  "object_refs t = snd (ref_state t)"

lemma ref_state_append [simp]: "ref_state (t @ cs) = fold ref_effect cs (ref_state t)"
  by (simp add: ref_state_def)

text \<open>Printing through a device pointer (\<open>dev_err\<close>): null is allowed, an error pointer or a
  freed object is not.\<close>

definition dev_print :: "kcall list \<Rightarrow> dev_ptr \<Rightarrow> fault + unit" where
  "dev_print t d =
     (case d of
        NullDev \<Rightarrow> Inr ()
      | ErrDev e \<Rightarrow> Inl BadPointer
      | Dev h devt \<Rightarrow> if 0 < object_refs t h then Inr () else Inl UseAfterFree)"

text \<open>What a high-resolution timer's function answers.\<close>

datatype hrtimer_restart = HRTIMER_NORESTART | HRTIMER_RESTART

section \<open>Environments\<close>

text \<open>What the kernel answers during one registration, and during a module's start.\<close>

record reg_env =
  cdev_add_ret :: s32
  device_create_ret :: "s32 + nat"      \<comment> \<open>an error number or a new device object\<close>

record reg_env_mem = reg_env +
  kzalloc_ret :: "nat option"           \<comment> \<open>an address, or null\<close>

record init_env =
  class_create_ret :: class_ptr
  alloc_region_ret :: s32
  alloc_region_devt :: dev_t            \<comment> \<open>written on success only\<close>

text \<open>\<open>device_create()\<close> answers a device, which carries its number, or \<open>ERR_PTR\<close>.\<close>

definition device_create :: "'a reg_env_scheme \<Rightarrow> dev_t \<Rightarrow> dev_ptr" where
  "device_create e devt =
     (case device_create_ret e of Inl err \<Rightarrow> ErrDev err | Inr h \<Rightarrow> Dev h devt)"

text \<open>The error number in an \<open>ERR_PTR\<close> is negative, hence not zero.\<close>

definition env_ok :: "'a reg_env_scheme \<Rightarrow> bool" where
  "env_ok e \<longleftrightarrow> (case device_create_ret e of Inl err \<Rightarrow> negative err | Inr h \<Rightarrow> True)"

definition env_succeeds :: "'a reg_env_scheme \<Rightarrow> bool" where
  "env_succeeds e \<longleftrightarrow> cdev_add_ret e = 0 \<and> (\<exists>h. device_create_ret e = Inr h)"

lemma negative_0 [simp]: "\<not> negative 0"
  by (simp add: negative_def)

section \<open>User memory\<close>

text \<open>
  \<open>copy_to_user()\<close> and \<open>copy_from_user()\<close> answer the number of bytes they could
  \<^emph>\<open>not\<close> copy, an \<open>unsigned long\<close> between 0 and the requested size; the model takes
  that answer, as a function of the size, from its environment. The first bytes are
  copied; \<open>copy_from_user()\<close> fills the rest of the destination with zeros.
\<close>

type_synonym copy_fun = "u64 \<Rightarrow> u64"

definition copy_ok :: "copy_fun \<Rightarrow> bool" where
  "copy_ok f \<longleftrightarrow> (\<forall>n. f n \<le> n)"

definition from_user :: "byte list \<Rightarrow> nat \<Rightarrow> nat \<Rightarrow> byte list" where
  "from_user usr n left = take (n - left) usr @ replicate (n - length (take (n - left) usr)) 0"

lemma length_from_user [simp]: "length (from_user usr n left) = n"
  by (simp add: from_user_def)

lemma from_user_all: "n \<le> length usr \<Longrightarrow> from_user usr n 0 = take n usr"
  by (simp add: from_user_def)

section \<open>Open files (\<open>struct file\<close>)\<close>

record ofile =
  private_data :: "nat option"     \<comment> \<open>the slot of the device, once opened\<close>
  f_pos :: s64

end
