(* ===== verification/Device_Table.thy ===== *)
theory Device_Table
  imports Kernel_Iface
begin

text \<open>
  The table of devices the three multi-device drivers keep
  (\<^verbatim>\<open>chrdev_array[MAX_DEVICES]\<close> in \<^verbatim>\<open>Chapter04/chrdev/chrdev.c\<close>,
  \<^verbatim>\<open>Chapter07/chrdev/chrdev.c\<close> and \<^verbatim>\<open>Chapter07/chrdev/chrdev_irq.c\<close>): the common
  fields of a slot, the file-level variables, the invariant \<open>registry_inv\<close> that ties
  the slots' \<open>busy\<close> flags to the kernel objects held, and the abstract view
  \<open>devices_of\<close> (which identifiers are registered, under which label).
\<close>

section \<open>Slots and driver state\<close>

definition MAX_DEVICES :: u32 where "MAX_DEVICES = 8"

definition NAME_LEN :: nat where "NAME_LEN = 32"

record chrdev_base =
  label :: "char list"       \<comment> \<open>\<open>char label[NAME_LEN]\<close>\<close>
  busy :: bool               \<comment> \<open>\<open>unsigned int busy : 1\<close>\<close>
  read_only :: s32
  devid :: u32               \<comment> \<open>the field \<open>id\<close>\<close>
  dev :: dev_ptr

record 'd drv =
  chrdev_devt :: dev_t
  chrdev_class :: class_ptr
  chrdev_array :: "'d list"
  ktrace :: "kcall list"

definition call :: "kcall \<Rightarrow> ('d, 'm) drv_scheme \<Rightarrow> ('d, 'm) drv_scheme" where
  "call c s = s\<lparr>ktrace := ktrace s @ [c]\<rparr>"

definition slot :: "('d, 'm) drv_scheme \<Rightarrow> nat \<Rightarrow> 'd" where
  "slot s i = chrdev_array s ! i"

definition upd_slot :: "nat \<Rightarrow> ('d \<Rightarrow> 'd) \<Rightarrow> ('d, 'm) drv_scheme \<Rightarrow> ('d, 'm) drv_scheme" where
  "upd_slot i f s = s\<lparr>chrdev_array := (chrdev_array s)[i := f (chrdev_array s ! i)]\<rparr>"

lemma call_simps [simp]:
  "chrdev_devt (call c s) = chrdev_devt s" "chrdev_class (call c s) = chrdev_class s"
  "chrdev_array (call c s) = chrdev_array s" "ktrace (call c s) = ktrace s @ [c]"
  "slot (call c s) i = slot s i"
  by (simp_all add: call_def slot_def)

lemma upd_slot_simps [simp]:
  "chrdev_devt (upd_slot i f s) = chrdev_devt s"
  "chrdev_class (upd_slot i f s) = chrdev_class s"
  "ktrace (upd_slot i f s) = ktrace s"
  "length (chrdev_array (upd_slot i f s)) = length (chrdev_array s)"
  by (simp_all add: upd_slot_def)

lemma slot_upd_slot [simp]:
  "i < length (chrdev_array s) \<Longrightarrow>
   slot (upd_slot i f s) j = (if j = i then f (slot s i) else slot s j)"
  by (auto simp: slot_def upd_slot_def)

section \<open>Invariant\<close>

definition slot_ok :: "u32 \<Rightarrow> nat \<Rightarrow> 'a chrdev_base_scheme \<Rightarrow> bool" where
  "slot_ok major i d \<longleftrightarrow>
     length (label d) = NAME_LEN \<and>
     (busy d \<longrightarrow> devid d = of_nat i \<and> (\<exists>h. dev d = Dev h (MKDEV major (of_nat i))))"

definition busy_ids :: "('a chrdev_base_scheme, 'm) drv_scheme \<Rightarrow> nat set" where
  "busy_ids s = {i. i < unat MAX_DEVICES \<and> busy (slot s i)}"

definition registry_inv :: "('a chrdev_base_scheme, 'm) drv_scheme \<Rightarrow> bool" where
  "registry_inv s \<longleftrightarrow>
     length (chrdev_array s) = unat MAX_DEVICES \<and>
     (\<forall>i < unat MAX_DEVICES. slot_ok (MAJOR (chrdev_devt s)) i (slot s i)) \<and>
     live_cdevs (ktrace s) = busy_ids s \<and>
     live_devices (ktrace s) = (\<lambda>i. MKDEV (MAJOR (chrdev_devt s)) (of_nat i)) ` busy_ids s"

text \<open>The abstract view: the identifiers in use, with the label array of each.\<close>

definition devices_of :: "('a chrdev_base_scheme, 'm) drv_scheme \<Rightarrow> nat \<Rightarrow> char list option" where
  "devices_of s i =
     (if i < unat MAX_DEVICES \<and> busy (slot s i) then Some (label (slot s i)) else None)"

lemma MAX_DEVICES_nat [simp]: "unat MAX_DEVICES = 8"
  by (simp add: MAX_DEVICES_def)

lemma MAX_DEVICES_not_0 [simp]: "MAX_DEVICES \<noteq> 0"
  by (simp add: MAX_DEVICES_def)

lemma NAME_LEN_nat [simp]: "NAME_LEN = 32"
  by (simp add: NAME_LEN_def)

lemma not_MAX_DEVICES_le: "\<not> MAX_DEVICES \<le> ident \<longleftrightarrow> unat ident < 8"
  by (simp add: word_le_nat_alt not_le)

lemma MAX_DEVICES_le: "MAX_DEVICES \<le> ident \<longleftrightarrow> 8 \<le> unat ident"
  by (simp add: word_le_nat_alt)

lemma unat_small_id: "i < 8 \<Longrightarrow> unat (of_nat i :: u32) = i"
  by (simp add: unsigned_of_nat take_bit_nat_eq_self)

lemma small_id_eq: "i < 8 \<Longrightarrow> j < 8 \<Longrightarrow> (of_nat i :: u32) = of_nat j \<longleftrightarrow> i = j"
  by (metis unat_small_id)

lemma MKDEV_image_insert:
  "(\<lambda>i. MKDEV m (of_nat i)) ` insert i S = insert (MKDEV m (of_nat i)) ((\<lambda>i. MKDEV m (of_nat i)) ` S)"
  by simp

lemma MKDEV_image_remove:
  assumes "S \<subseteq> {..<8}" and "i < 8"
  shows "(\<lambda>i. MKDEV m (of_nat i)) ` (S - {i}) =
         (\<lambda>i. MKDEV m (of_nat i)) ` S - {MKDEV m (of_nat i)}"
  using assms small_id_eq by (auto simp: image_iff)

lemma registry_invD:
  assumes "registry_inv s"
  shows "length (chrdev_array s) = 8"
    and "i < 8 \<Longrightarrow> slot_ok (MAJOR (chrdev_devt s)) i (slot s i)"
    and "live_cdevs (ktrace s) = busy_ids s"
    and "live_devices (ktrace s) = (\<lambda>i. MKDEV (MAJOR (chrdev_devt s)) (of_nat i)) ` busy_ids s"
  using assms by (auto simp: registry_inv_def)

text \<open>The device nodes held have numbers of the region asked for at module start.\<close>

lemma live_devices_in_region:
  assumes "registry_inv s"
  shows "live_devices (ktrace s) \<subseteq> {MKDEV (MAJOR (chrdev_devt s)) 0 ..< MKDEV (MAJOR (chrdev_devt s)) MAX_DEVICES}"
  using registry_invD(4) [OF assms]
  by (auto simp: busy_ids_def word_less_nat_alt unat_small_id)

section \<open>Updates that keep the invariant\<close>

text \<open>
  A change of slots that leaves their common fields alone, and of the trace that leaves the
  live objects alone, keeps everything.
\<close>

lemma registry_inv_frame:
  assumes "registry_inv s" and "length (chrdev_array s') = 8"
    and "chrdev_devt s' = chrdev_devt s"
    and same: "\<And>i. i < 8 \<Longrightarrow> busy (slot s' i) = busy (slot s i) \<and>
                 label (slot s' i) = label (slot s i) \<and> devid (slot s' i) = devid (slot s i) \<and>
                 (busy (slot s i) \<longrightarrow> dev (slot s' i) = dev (slot s i))"
    and "live_cdevs (ktrace s') = live_cdevs (ktrace s)"
    and "live_devices (ktrace s') = live_devices (ktrace s)"
  shows "registry_inv s'" and "devices_of s' = devices_of s"
proof -
  have ids: "busy_ids s' = busy_ids s"
    using same by (auto simp: busy_ids_def)
  show "registry_inv s'"
    using assms(1-3,5,6) same by (auto simp: registry_inv_def slot_ok_def ids)
  show "devices_of s' = devices_of s"
    using same by (auto simp: devices_of_def fun_eq_iff)
qed

text \<open>Occupying a free slot.\<close>

lemma registry_inv_occupy:
  assumes inv: "registry_inv s" and i: "i < 8" and free: "\<not> busy (slot s i)"
    and "length (chrdev_array s') = 8"
    and "chrdev_devt s' = chrdev_devt s"
    and others: "\<And>j. j < 8 \<Longrightarrow> j \<noteq> i \<Longrightarrow> chrdev_base.truncate (slot s' j) = chrdev_base.truncate (slot s j)"
    and new: "busy (slot s' i)" "devid (slot s' i) = of_nat i" "length (label (slot s' i)) = 32"
             "dev (slot s' i) = Dev h (MKDEV (MAJOR (chrdev_devt s)) (of_nat i))"
    and cdevs: "live_cdevs (ktrace s') = insert i (live_cdevs (ktrace s))"
    and devs: "live_devices (ktrace s') =
               insert (MKDEV (MAJOR (chrdev_devt s)) (of_nat i)) (live_devices (ktrace s))"
  shows "registry_inv s'" and "devices_of s' = (devices_of s)(i \<mapsto> label (slot s' i))"
proof -
  have eq: "busy (slot s' j) = busy (slot s j)" "label (slot s' j) = label (slot s j)"
    "devid (slot s' j) = devid (slot s j)" "dev (slot s' j) = dev (slot s j)"
    if "j < 8" "j \<noteq> i" for j
    using others [OF that] by (simp_all add: chrdev_base.truncate_def)
  have ids: "busy_ids s' = insert i (busy_ids s)"
    using eq i new(1) by (auto simp: busy_ids_def)
  have slots: "slot_ok (MAJOR (chrdev_devt s)) j (slot s' j)" if "j < 8" for j
  proof (cases "j = i")
    case True
    with new show ?thesis by (simp add: slot_ok_def)
  next
    case False
    with that eq registry_invD(2) [OF inv that] show ?thesis by (simp add: slot_ok_def)
  qed
  show "registry_inv s'"
    using assms(4,5) slots registry_invD [OF inv]
    by (auto simp: registry_inv_def ids cdevs devs)
  show "devices_of s' = (devices_of s)(i \<mapsto> label (slot s' i))"
    using eq i new(1) by (auto simp: devices_of_def fun_eq_iff)
qed

text \<open>Vacating a busy one.\<close>

lemma registry_inv_vacate:
  assumes inv: "registry_inv s" and i: "i < 8"
    and "length (chrdev_array s') = 8"
    and "chrdev_devt s' = chrdev_devt s"
    and others: "\<And>j. j < 8 \<Longrightarrow> j \<noteq> i \<Longrightarrow> chrdev_base.truncate (slot s' j) = chrdev_base.truncate (slot s j)"
    and new: "\<not> busy (slot s' i)" "length (label (slot s' i)) = 32"
    and cdevs: "live_cdevs (ktrace s') = live_cdevs (ktrace s) - {i}"
    and devs: "live_devices (ktrace s') =
               live_devices (ktrace s) - {MKDEV (MAJOR (chrdev_devt s)) (of_nat i)}"
  shows "registry_inv s'" and "devices_of s' = (devices_of s)(i := None)"
proof -
  have eq: "busy (slot s' j) = busy (slot s j)" "label (slot s' j) = label (slot s j)"
    "devid (slot s' j) = devid (slot s j)" "dev (slot s' j) = dev (slot s j)"
    if "j < 8" "j \<noteq> i" for j
    using others [OF that] by (simp_all add: chrdev_base.truncate_def)
  have ids: "busy_ids s' = busy_ids s - {i}"
    using eq i new(1) by (auto simp: busy_ids_def)
  have sub: "busy_ids s \<subseteq> {..<8}"
    by (auto simp: busy_ids_def)
  have slots: "slot_ok (MAJOR (chrdev_devt s)) j (slot s' j)" if "j < 8" for j
  proof (cases "j = i")
    case True
    with new show ?thesis by (simp add: slot_ok_def)
  next
    case False
    with that eq registry_invD(2) [OF inv that] show ?thesis by (simp add: slot_ok_def)
  qed
  show "registry_inv s'"
    using assms(3,4) slots registry_invD [OF inv] MKDEV_image_remove [OF sub i]
    by (simp add: registry_inv_def ids cdevs devs)
  show "devices_of s' = (devices_of s)(i := None)"
    using eq i new(1) by (auto simp: devices_of_def fun_eq_iff)
qed

lemma devices_of_busy:
  "i < 8 \<Longrightarrow> devices_of s i = None \<longleftrightarrow> \<not> busy (slot s i)"
  by (simp add: devices_of_def)

lemma devices_of_Some:
  "devices_of s i = Some l \<longleftrightarrow> i < 8 \<and> busy (slot s i) \<and> label (slot s i) = l"
  by (auto simp: devices_of_def)

end
