(* ===== verification/Chrdev_Req.thy ===== *)
theory Chrdev_Req
  imports Device_Table
begin

text \<open>
  The platform driver of \<^verbatim>\<open>Chapter04/chrdev/chrdev-req.c\<close> and
  \<^verbatim>\<open>Chapter07/chrdev/chrdev-req.c\<close> (the two files are identical): for every child
  node of its device-tree node it registers a character device, and on removal it
  unregisters them. It calls \<open>chrdev_device_register\<close> and
  \<open>chrdev_device_unregister\<close>, which three modules of the repository export, so the
  model takes the two functions as arguments and the locale \<open>chrdev_registry\<close> states
  what they promise; the drivers' theories interpret it.
\<close>

section \<open>Device-tree nodes\<close>

text \<open>
  The device tree is read through the kernel's property functions; a node is what they
  answer for it. A read that fails (\<open>None\<close>) leaves the caller's variable unwritten.
\<close>

record fwnode =
  property_present :: "string \<Rightarrow> bool"
  property_u32 :: "string \<Rightarrow> u32 option"
  property_string :: "string \<Rightarrow> char list option"

type_synonym ('e, 's) register_fun =
  "'e \<Rightarrow> char list \<Rightarrow> u32 \<Rightarrow> u32 \<Rightarrow> nat \<Rightarrow> nat \<Rightarrow> 's \<Rightarrow> fault + (s32 \<times> 's)"

type_synonym 's unregister_fun = "char list \<Rightarrow> u32 \<Rightarrow> 's \<Rightarrow> fault + (s32 \<times> 's)"

section \<open>Probe and remove\<close>

text \<open>One round of \<open>device_for_each_child_node\<close>; the register call's result is only logged.\<close>

definition probe_child ::
  "('e, 's) register_fun \<Rightarrow> 'e \<Rightarrow> nat \<Rightarrow> nat \<Rightarrow> fwnode \<Rightarrow> 's \<Rightarrow> fault + 's" where
  "probe_child register e owner parent child s =
     (if \<not> property_present child ''reg'' then Inr s
      else if \<not> property_present child ''label'' then Inr s
      else let ro = (if property_present child ''read-only'' then 1 else 0) in
        (case (property_string child ''label'', property_u32 child ''reg'') of
           (Some lbl, Some ident) \<Rightarrow>
             bindo (register e lbl ident ro owner parent s) (\<lambda>(ret, s'). Inr s')
         | _ \<Rightarrow> Inl Uninitialised))"

fun probe_children ::
  "('e, 's) register_fun \<Rightarrow> (nat \<Rightarrow> 's \<Rightarrow> 'e) \<Rightarrow> nat \<Rightarrow> nat \<Rightarrow> nat \<Rightarrow> fwnode list \<Rightarrow> 's \<Rightarrow> fault + 's"
where
  "probe_children register env owner parent n [] s = Inr s"
| "probe_children register env owner parent n (child # cs) s =
     bindo (probe_child register (env n s) owner parent child s)
       (probe_children register env owner parent (Suc n) cs)"

definition chrdev_req_probe ::
  "('e, 's) register_fun \<Rightarrow> (nat \<Rightarrow> 's \<Rightarrow> 'e) \<Rightarrow> nat \<Rightarrow> nat \<Rightarrow> fwnode list \<Rightarrow> 's \<Rightarrow> fault + (s32 \<times> 's)"
where
  "chrdev_req_probe register env owner parent children s =
     (let count = length children in
      if count = 0 then Inr (- ENODEV, s)
      else if unat MAX_DEVICES < count then Inr (- ENOMEM, s)
      else bindo (probe_children register env owner parent 0 children s) (\<lambda>s'. Inr (0, s')))"

definition remove_child :: "'s unregister_fun \<Rightarrow> fwnode \<Rightarrow> 's \<Rightarrow> fault + 's" where
  "remove_child unregister child s =
     (if \<not> property_present child ''reg'' then Inl KernelBug
      else if \<not> property_present child ''label'' then Inl KernelBug
      else (case (property_string child ''label'', property_u32 child ''reg'') of
              (Some lbl, Some ident) \<Rightarrow>
                bindo (unregister lbl ident s) (\<lambda>(ret, s'). Inr s')
            | _ \<Rightarrow> Inl Uninitialised))"

fun remove_children :: "'s unregister_fun \<Rightarrow> fwnode list \<Rightarrow> 's \<Rightarrow> fault + 's" where
  "remove_children unregister [] s = Inr s"
| "remove_children unregister (child # cs) s =
     bindo (remove_child unregister child s) (remove_children unregister cs)"

definition chrdev_req_remove ::
  "'s unregister_fun \<Rightarrow> fwnode list \<Rightarrow> 's \<Rightarrow> fault + (s32 \<times> 's)" where
  "chrdev_req_remove unregister children s =
     bindo (remove_children unregister children s) (\<lambda>s'. Inr (0, s'))"

section \<open>What the device tree may hold\<close>

definition complete :: "fwnode \<Rightarrow> bool" where
  "complete c \<longleftrightarrow> property_present c ''reg'' \<and> property_present c ''label''"

definition node_label :: "fwnode \<Rightarrow> char list" where
  "node_label c = the (property_string c ''label'')"

definition node_id :: "fwnode \<Rightarrow> nat" where
  "node_id c = unat (the (property_u32 c ''reg''))"

text \<open>A present property can be read, and a string property is terminated.\<close>

definition readable :: "fwnode \<Rightarrow> bool" where
  "readable c \<longleftrightarrow>
     (complete c \<longrightarrow> property_u32 c ''reg'' \<noteq> None \<and>
        (\<exists>l. property_string c ''label'' = Some l \<and> is_cstr l))"

text \<open>The array a label becomes in a slot: at most \<open>NAME_LEN\<close> characters, padded.\<close>

definition label_array :: "char list \<Rightarrow> char list" where
  "label_array m = take NAME_LEN (str_of m) @ replicate (NAME_LEN - length (str_of m)) NUL"

lemma label_array_length [simp]: "length (label_array m) = 32"
  by (simp add: label_array_def)

lemma strncpy_label: "is_cstr m \<Longrightarrow> strncpy m NAME_LEN = Inr (label_array m)"
  by (simp add: label_array_def strncpy_cstr)

lemma label_array_short:
  assumes "length (str_of m) < 32"
  shows "is_cstr (label_array m)" and "str_of (label_array m) = str_of m"
proof -
  obtain k where k: "32 - length (str_of m) = Suc k"
    using assms by (metis Suc_diff_Suc)
  have eq: "label_array m = str_of m @ NUL # replicate k NUL"
    using assms by (simp add: label_array_def k)
  show "is_cstr (label_array m)"
    by (simp add: eq is_cstr_def)
  show "str_of (label_array m) = str_of m"
    by (simp add: eq str_of_append_NUL)
qed

lemma label_array_long:
  assumes "32 \<le> length (str_of m)"
  shows "label_array m = take 32 (str_of m)" and "\<not> is_cstr (label_array m)"
proof -
  show eq: "label_array m = take 32 (str_of m)"
    using assms by (simp add: label_array_def)
  show "\<not> is_cstr (label_array m)"
    unfolding eq is_cstr_def using NUL_notin_str_of [of m] by (meson in_set_takeD)
qed

section \<open>The registry contract\<close>

text \<open>The abstract effect of a registration and of an unregistration on the view.\<close>

definition view_add :: "fwnode \<Rightarrow> (nat \<Rightarrow> char list option) \<Rightarrow> nat \<Rightarrow> char list option" where
  "view_add c v =
     (if complete c \<and> node_id c < 8 \<and> v (node_id c) = None
      then v(node_id c \<mapsto> label_array (node_label c)) else v)"

definition names :: "(nat \<Rightarrow> char list option) \<Rightarrow> nat \<Rightarrow> char list \<Rightarrow> bool" where
  "names v i m \<longleftrightarrow> (\<exists>l. v i = Some l \<and> str_of l = str_of m)"

definition view_del :: "fwnode \<Rightarrow> (nat \<Rightarrow> char list option) \<Rightarrow> nat \<Rightarrow> char list option" where
  "view_del c v = (if names v (node_id c) (node_label c) then v(node_id c := None) else v)"

locale chrdev_registry =
  fixes register :: "('e, 's) register_fun"
    and unregister :: "'s unregister_fun"
    and inv :: "'s \<Rightarrow> bool"
    and view :: "'s \<Rightarrow> nat \<Rightarrow> char list option"
    and env_good :: "'e \<Rightarrow> 's \<Rightarrow> bool"
    and env_success :: "'e \<Rightarrow> 's \<Rightarrow> bool"
  assumes register_returns:
      "inv s \<Longrightarrow> is_cstr m \<Longrightarrow> env_good e s \<Longrightarrow>
       \<exists>r s'. register e m ident ro owner parent s = Inr (r, s') \<and> inv s' \<and>
         (if r = 0
          then unat ident < 8 \<and> view s (unat ident) = None \<and>
               view s' = (view s)(unat ident \<mapsto> label_array m)
          else view s' = view s)"
    and register_succeeds:
      "inv s \<Longrightarrow> is_cstr m \<Longrightarrow> env_good e s \<Longrightarrow> env_success e s \<Longrightarrow>
       unat ident < 8 \<Longrightarrow> view s (unat ident) = None \<Longrightarrow>
       \<exists>s'. register e m ident ro owner parent s = Inr (0, s')"
    and unregister_returns:
      "inv s \<Longrightarrow> is_cstr m \<Longrightarrow> (\<And>l. view s (unat ident) = Some l \<Longrightarrow> is_cstr l) \<Longrightarrow>
       \<exists>r s'. unregister m ident s = Inr (r, s') \<and> inv s' \<and>
         (if r = 0
          then names (view s) (unat ident) m \<and> view s' = (view s)(unat ident := None)
          else \<not> names (view s) (unat ident) m \<and> view s' = view s)"

context chrdev_registry
begin

lemma probe_child_returns:
  assumes "inv s" and "readable c" and "env_good e s"
  shows "\<exists>s'. probe_child register e owner parent c s = Inr s' \<and> inv s' \<and>
              (view s' = view s \<or> view s' = view_add c (view s))"
proof (cases "complete c")
  case False
  then show ?thesis
    using assms(1) by (auto simp: probe_child_def complete_def)
next
  case True
  with assms(2) obtain l i where l: "property_string c ''label'' = Some l" "is_cstr l"
    and i: "property_u32 c ''reg'' = Some i"
    by (auto simp: readable_def)
  define ro :: u32 where "ro = (if property_present c ''read-only'' then 1 else 0)"
  from register_returns [OF assms(1) l(2) assms(3), of i ro owner parent]
  obtain r s' where r: "register e l i ro owner parent s = Inr (r, s')" "inv s'"
    and v: "if r = 0 then unat i < 8 \<and> view s (unat i) = None \<and>
               view s' = (view s)(unat i \<mapsto> label_array l) else view s' = view s"
    by blast
  have "probe_child register e owner parent c s = Inr s'"
    using True l(1) i r(1) by (simp add: probe_child_def complete_def ro_def)
  moreover have "view s' = view s \<or> view s' = view_add c (view s)"
    using True v l(1) i by (auto simp: view_add_def node_id_def node_label_def split: if_splits)
  ultimately show ?thesis using r(2) by blast
qed

lemma probe_child_succeeds:
  assumes "inv s" and "readable c" and "env_good e s" and "env_success e s"
  shows "\<exists>s'. probe_child register e owner parent c s = Inr s' \<and> inv s' \<and>
              view s' = view_add c (view s)"
proof -
  from probe_child_returns [OF assms(1-3), of owner parent] obtain s' where
    s': "probe_child register e owner parent c s = Inr s'" "inv s'"
    and v: "view s' = view s \<or> view s' = view_add c (view s)" by blast
  have "view s' = view_add c (view s)"
  proof (cases "complete c \<and> node_id c < 8 \<and> view s (node_id c) = None")
    case False
    then have "view_add c (view s) = view s"
      by (auto simp: view_add_def)
    with v show ?thesis by simp
  next
    case True
    with assms(2) obtain l i where l: "property_string c ''label'' = Some l" "is_cstr l"
      and i: "property_u32 c ''reg'' = Some i"
      by (auto simp: readable_def)
    define ro :: u32 where "ro = (if property_present c ''read-only'' then 1 else 0)"
    have free: "unat i < 8" "view s (unat i) = None"
      using True i by (simp_all add: node_id_def)
    from register_succeeds [OF assms(1) l(2) assms(3,4) free, of ro owner parent]
    obtain t where t: "register e l i ro owner parent s = Inr (0, t)" by blast
    have "t = s'"
      using s'(1) True l(1) i t by (simp add: probe_child_def complete_def ro_def)
    with register_returns [OF assms(1) l(2) assms(3), of i ro owner parent] t
    show ?thesis
      using True l(1) i by (auto simp: view_add_def node_id_def node_label_def)
  qed
  with s' show ?thesis by blast
qed

lemma probe_children_returns:
  assumes "inv s" and "\<And>c. c \<in> set cs \<Longrightarrow> readable c"
    and "\<And>n s. inv s \<Longrightarrow> env_good (env n s) s"
  shows "\<exists>s'. probe_children register env owner parent n cs s = Inr s' \<and> inv s' \<and>
              view s \<subseteq>\<^sub>m view s' \<and>
              (\<forall>i l. view s' i = Some l \<longrightarrow> view s i = Some l \<or>
                 (\<exists>c \<in> set cs. complete c \<and> node_id c = i \<and> label_array (node_label c) = l))"
  using assms(1,2)
proof (induction cs arbitrary: n s)
  case Nil
  then show ?case by simp
next
  case (Cons c cs)
  from probe_child_returns [OF Cons.prems(1), of c "env n s" owner parent] Cons.prems assms(3)
  obtain t where t: "probe_child register (env n s) owner parent c s = Inr t" "inv t"
    and v: "view t = view s \<or> view t = view_add c (view s)" by auto
  from Cons.IH [OF t(2), of "Suc n"] Cons.prems(2) obtain s' where
    s': "probe_children register env owner parent (Suc n) cs t = Inr s'" "inv s'"
      "view t \<subseteq>\<^sub>m view s'"
    and origin: "\<forall>i l. view s' i = Some l \<longrightarrow> view t i = Some l \<or>
                 (\<exists>c \<in> set cs. complete c \<and> node_id c = i \<and> label_array (node_label c) = l)"
    by auto
  have ext: "view s \<subseteq>\<^sub>m view t"
    using v by (auto simp: view_add_def map_le_def)
  have new: "view s i = Some l \<or> (complete c \<and> node_id c = i \<and> label_array (node_label c) = l)"
    if "view t i = Some l" for i l
    using v that by (auto simp: view_add_def split: if_splits)
  have "view s i = Some l \<or>
        (\<exists>c' \<in> set (c # cs). complete c' \<and> node_id c' = i \<and> label_array (node_label c') = l)"
    if "view s' i = Some l" for i l
    using origin that new by (metis list.set_intros(1,2))
  then show ?case
    using t s' map_le_trans [OF ext s'(3)] by simp
qed

lemma probe_children_succeeds:
  assumes "inv s" and "\<And>c. c \<in> set cs \<Longrightarrow> readable c"
    and "\<And>n s. inv s \<Longrightarrow> env_good (env n s) s \<and> env_success (env n s) s"
  shows "\<exists>s'. probe_children register env owner parent n cs s = Inr s' \<and> inv s' \<and>
              view s' = fold view_add cs (view s)"
  using assms(1,2)
proof (induction cs arbitrary: n s)
  case Nil
  then show ?case by simp
next
  case (Cons c cs)
  from probe_child_succeeds [OF Cons.prems(1), of c "env n s" owner parent] Cons.prems assms(3)
  obtain t where t: "probe_child register (env n s) owner parent c s = Inr t" "inv t"
    "view t = view_add c (view s)" by auto
  from Cons.IH [OF t(2), of "Suc n"] Cons.prems(2) t show ?case by auto
qed

lemma remove_child_returns:
  assumes "inv s" and "complete c" and "readable c"
    and "\<And>l. view s (node_id c) = Some l \<Longrightarrow> is_cstr l"
  shows "\<exists>s'. remove_child unregister c s = Inr s' \<and> inv s' \<and> view s' = view_del c (view s)"
proof -
  from assms(2,3) obtain l i where l: "property_string c ''label'' = Some l" "is_cstr l"
    and i: "property_u32 c ''reg'' = Some i"
    by (auto simp: readable_def)
  have id: "node_id c = unat i" using i by (simp add: node_id_def)
  from unregister_returns [OF assms(1) l(2), of i] assms(4) obtain r s' where
    r: "unregister l i s = Inr (r, s')" "inv s'"
    and v: "if r = 0 then names (view s) (unat i) l \<and> view s' = (view s)(unat i := None)
            else \<not> names (view s) (unat i) l \<and> view s' = view s"
    unfolding id by blast
  have "remove_child unregister c s = Inr s'"
    using assms(2) l(1) i r(1) by (simp add: remove_child_def complete_def)
  moreover have "view s' = view_del c (view s)"
    using v l(1) id by (auto simp: view_del_def node_label_def split: if_splits)
  ultimately show ?thesis using r(2) by blast
qed

lemma view_del_other: "view_del c v i = (if names v (node_id c) (node_label c) \<and> i = node_id c then None else v i)"
  by (auto simp: view_del_def)

lemma remove_children_returns:
  assumes "inv s" and "\<And>c. c \<in> set cs \<Longrightarrow> complete c \<and> readable c"
    and "\<And>i l. view s i = Some l \<Longrightarrow> is_cstr l"
  shows "\<exists>s'. remove_children unregister cs s = Inr s' \<and> inv s' \<and>
              view s' = fold view_del cs (view s)"
  using assms
proof (induction cs arbitrary: s)
  case Nil
  then show ?case by simp
next
  case (Cons c cs)
  from remove_child_returns [OF Cons.prems(1), of c] Cons.prems(2,3)
  obtain t where t: "remove_child unregister c s = Inr t" "inv t" "view t = view_del c (view s)"
    by auto
  have "is_cstr l" if "view t i = Some l" for i l
    using that t(3) Cons.prems(3) by (auto simp: view_del_def split: if_splits)
  with Cons.IH [OF t(2)] Cons.prems(2) t show ?case by auto
qed

end

text \<open>A child that the probe only skips stops the removal.\<close>

lemma remove_child_incomplete: "\<not> complete c \<Longrightarrow> remove_child unreg c s = Inl KernelBug"
  by (auto simp: remove_child_def complete_def)

lemma probe_child_incomplete: "\<not> complete c \<Longrightarrow> probe_child reg e ow p c s = Inr s"
  by (auto simp: probe_child_def complete_def)

section \<open>Registering and removing the same nodes\<close>

text \<open>The view with the labels of a list of nodes put on top.\<close>

fun overlay :: "fwnode list \<Rightarrow> (nat \<Rightarrow> char list option) \<Rightarrow> nat \<Rightarrow> char list option" where
  "overlay [] v = v"
| "overlay (c # cs) v = (overlay cs v)(node_id c \<mapsto> label_array (node_label c))"

lemma overlay_upd:
  "i \<notin> node_id ` set cs \<Longrightarrow> overlay cs (v(i := x)) = (overlay cs v)(i := x)"
  by (induction cs) (auto simp: fun_upd_twist)

lemma overlay_node:
  assumes "distinct (map node_id cs)" and "c \<in> set cs"
  shows "overlay cs v (node_id c) = Some (label_array (node_label c))"
  using assms by (induction cs) (auto simp: rev_image_eqI)

lemma overlay_Some:
  "overlay cs v i = Some l \<Longrightarrow>
   v i = Some l \<or> (\<exists>c \<in> set cs. node_id c = i \<and> l = label_array (node_label c))"
  by (induction cs) (auto split: if_splits)

definition addable :: "(nat \<Rightarrow> char list option) \<Rightarrow> fwnode \<Rightarrow> bool" where
  "addable v c \<longleftrightarrow> complete c \<and> node_id c < 8 \<and> v (node_id c) = None"

lemma fold_view_add_distinct:
  assumes "distinct (map node_id cs)" and "\<And>c. c \<in> set cs \<Longrightarrow> addable v c"
  shows "fold view_add cs v = overlay cs v"
  using assms
proof (induction cs arbitrary: v)
  case Nil
  then show ?case by simp
next
  case (Cons c cs)
  have one: "view_add c v = v(node_id c \<mapsto> label_array (node_label c))"
    using Cons.prems(2) by (simp add: view_add_def addable_def)
  have new: "node_id c \<notin> node_id ` set cs"
    using Cons.prems(1) by simp
  then have "addable (view_add c v) d" if "d \<in> set cs" for d
    using that Cons.prems(2) by (auto simp: one addable_def rev_image_eqI)
  with Cons.IH Cons.prems(1) have "fold view_add cs (view_add c v) = overlay cs (view_add c v)"
    by simp
  with new show ?case by (simp add: one overlay_upd)
qed

lemma fold_view_del_overlay:
  assumes "distinct (map node_id cs)"
    and "\<And>c. c \<in> set cs \<Longrightarrow> v (node_id c) = None \<and> length (str_of (node_label c)) < 32"
  shows "fold view_del cs (overlay cs v) = v"
  using assms
proof (induction cs)
  case Nil
  then show ?case by simp
next
  case (Cons c cs)
  have new: "node_id c \<notin> node_id ` set cs"
    using Cons.prems(1) by simp
  have v: "v(node_id c := None) = v"
    using Cons.prems(2) by (simp add: fun_upd_idem)
  have "names (overlay (c # cs) v) (node_id c) (node_label c)"
    using Cons.prems(2) by (simp add: names_def label_array_short(2))
  then have "view_del c (overlay (c # cs) v) = (overlay cs v)(node_id c := None)"
    by (simp add: view_del_def)
  also have "\<dots> = overlay cs v"
    using overlay_upd [OF new, of v None] by (simp add: v)
  finally have step: "view_del c (overlay (c # cs) v) = overlay cs v" .
  have "fold view_del cs (overlay cs v) = v"
    using Cons by simp
  then show ?case
    by (simp only: fold_simps(2) step)
qed

text \<open>Sequences of calls of the two exported functions.\<close>

datatype 'e reg_op = Register 'e "char list" u32 u32 nat nat | Unregister "char list" u32

fun reg_run ::
  "('e, 's) register_fun \<Rightarrow> 's unregister_fun \<Rightarrow> 'e reg_op list \<Rightarrow> 's \<Rightarrow> fault + 's" where
  "reg_run reg unreg [] s = Inr s"
| "reg_run reg unreg (Register e m ident ro owner parent # ops) s =
     bindo (reg e m ident ro owner parent s) (\<lambda>(r, s'). reg_run reg unreg ops s')"
| "reg_run reg unreg (Unregister m ident # ops) s =
     bindo (unreg m ident s) (\<lambda>(r, s'). reg_run reg unreg ops s')"

definition short_label :: "'e reg_op \<Rightarrow> bool" where
  "short_label x = (case x of Register e m ident ro owner parent \<Rightarrow> is_cstr m \<and> length (str_of m) < 32
                            | Unregister m ident \<Rightarrow> is_cstr m)"

definition env_of :: "('e \<Rightarrow> bool) \<Rightarrow> 'e reg_op \<Rightarrow> bool" where
  "env_of P x = (case x of Register e m ident ro owner parent \<Rightarrow> P e | Unregister m ident \<Rightarrow> True)"

context chrdev_registry
begin

lemma probe_remove_view:
  assumes "inv s" and "children \<noteq> []" and "length children \<le> 8"
    and "distinct (map node_id children)"
    and nodes: "\<And>c. c \<in> set children \<Longrightarrow>
           readable c \<and> addable (view s) c \<and> length (str_of (node_label c)) < 32"
    and "\<And>i l. view s i = Some l \<Longrightarrow> is_cstr l"
    and "\<And>n s. inv s \<Longrightarrow> env_good (env n s) s \<and> env_success (env n s) s"
  shows "\<exists>s1 s2. chrdev_req_probe register env owner parent children s = Inr (0, s1) \<and> inv s1 \<and>
           (\<forall>c \<in> set children. view s1 (node_id c) = Some (label_array (node_label c))) \<and>
           chrdev_req_remove unregister children s1 = Inr (0, s2) \<and> inv s2 \<and> view s2 = view s"
proof -
  from probe_children_succeeds [where n = 0 and env = env and owner = owner and parent = parent,
      OF assms(1) _ assms(7), of children] nodes
  obtain s1 where s1: "probe_children register env owner parent 0 children s = Inr s1" "inv s1"
    "view s1 = fold view_add children (view s)" by blast
  have v1: "view s1 = overlay children (view s)"
    using s1(3) fold_view_add_distinct [OF assms(4)] nodes by simp
  have cstrs: "is_cstr l" if "view s1 i = Some l" for i l
    using overlay_Some [of children "view s" i l] that assms(6) nodes label_array_short(1)
    by (auto simp: v1)
  have "\<exists>s2. remove_children unregister children s1 = Inr s2 \<and> inv s2 \<and>
          view s2 = fold view_del children (view s1)"
    by (rule remove_children_returns [OF s1(2)]) (use nodes cstrs in \<open>auto simp: addable_def\<close>)
  then obtain s2 where s2: "remove_children unregister children s1 = Inr s2" "inv s2"
    "view s2 = fold view_del children (view s1)" by blast
  have "view s2 = view s"
    using s2(3) fold_view_del_overlay [OF assms(4), of "view s"] nodes
    by (simp add: v1 addable_def)
  then show ?thesis
    using assms(2,3) s1(1,2) s2(1,2) overlay_node [OF assms(4), of _ "view s"]
    by (auto simp: chrdev_req_probe_def chrdev_req_remove_def v1)
qed

text \<open>Whatever the tree holds, a node without both properties stops the removal with \<open>BUG()\<close>.\<close>

lemma remove_incomplete_bug:
  assumes "inv s" and "\<And>c. c \<in> set cs \<Longrightarrow> readable c"
    and "\<And>i l. view s i = Some l \<Longrightarrow> is_cstr l" and "\<exists>c \<in> set cs. \<not> complete c"
  shows "remove_children unregister cs s = Inl KernelBug"
  using assms
proof (induction cs arbitrary: s)
  case Nil
  then show ?case by simp
next
  case (Cons c cs)
  show ?case
  proof (cases "complete c")
    case False
    then show ?thesis by (simp add: remove_child_incomplete)
  next
    case True
    with remove_child_returns [OF Cons.prems(1) True] Cons.prems(2,3) obtain t where
      t: "remove_child unregister c s = Inr t" "inv t" "view t = view_del c (view s)" by auto
    have "is_cstr l" if "view t i = Some l" for i l
      using that t(3) Cons.prems(3) by (auto simp: view_del_def split: if_splits)
    with Cons.IH [OF t(2)] Cons.prems(2,4) True t(1) show ?thesis by auto
  qed
qed

text \<open>Any sequence of calls with short labels runs through and keeps the invariant.\<close>

lemma reg_run_returns:
  assumes "inv s" and "\<And>i l. view s i = Some l \<Longrightarrow> is_cstr l" and "list_all short_label ops"
    and "\<And>e s. envs e \<Longrightarrow> inv s \<Longrightarrow> env_good e s" and "list_all (env_of envs) ops"
  shows "\<exists>s'. reg_run register unregister ops s = Inr s' \<and> inv s' \<and>
              (\<forall>i l. view s' i = Some l \<longrightarrow> is_cstr l)"
  using assms(1-3,5)
proof (induction ops arbitrary: s)
  case Nil
  then show ?case by simp
next
  case (Cons x ops)
  show ?case
  proof (cases x)
    case (Register e m ident ro owner parent)
    with Cons.prems have m: "is_cstr m" "length (str_of m) < 32" and e: "env_good e s"
      using assms(4) by (auto simp: short_label_def env_of_def)
    from register_returns [OF Cons.prems(1) m(1) e, of ident ro owner parent] obtain r t where
      t: "register e m ident ro owner parent s = Inr (r, t)" "inv t"
      and v: "view t = view s \<or> view t = (view s)(unat ident \<mapsto> label_array m)"
      by (auto split: if_splits)
    have "is_cstr l" if "view t i = Some l" for i l
      using v that Cons.prems(2) label_array_short(1) [OF m(2)] by (auto split: if_splits)
    with Cons.IH [OF t(2)] Cons.prems t(1) Register show ?thesis by auto
  next
    case (Unregister m ident)
    with Cons.prems have m: "is_cstr m" by (auto simp: short_label_def)
    from unregister_returns [OF Cons.prems(1) m, of ident] Cons.prems(2) obtain r t where
      t: "unregister m ident s = Inr (r, t)" "inv t"
      and v: "view t = view s \<or> view t = (view s)(unat ident := None)"
      by (auto split: if_splits)
    have "is_cstr l" if "view t i = Some l" for i l
      using v that Cons.prems(2) by (auto split: if_splits)
    with Cons.IH [OF t(2)] Cons.prems t(1) Unregister show ?thesis by auto
  qed
qed

end

text \<open>
  The states such calls lead to, when the kernel's answers to each call are among those
  that are possible in the state of the call.
\<close>

inductive reg_reach ::
  "('e, 's) register_fun \<Rightarrow> 's unregister_fun \<Rightarrow> ('e \<Rightarrow> 's \<Rightarrow> bool) \<Rightarrow> 's \<Rightarrow> 's \<Rightarrow> bool"
  for reg unreg good s0 where
    reach_start: "reg_reach reg unreg good s0 s0"
  | reach_register:
      "reg_reach reg unreg good s0 s \<Longrightarrow> is_cstr m \<Longrightarrow> length (str_of m) < 32 \<Longrightarrow> good e s \<Longrightarrow>
       reg e m ident ro owner parent s = Inr (r, s') \<Longrightarrow> reg_reach reg unreg good s0 s'"
  | reach_unregister:
      "reg_reach reg unreg good s0 s \<Longrightarrow> is_cstr m \<Longrightarrow> unreg m ident s = Inr (r, s') \<Longrightarrow>
       reg_reach reg unreg good s0 s'"

context chrdev_registry
begin

lemma reach_inv:
  assumes "reg_reach register unregister env_good s0 s" and "inv s0"
    and "\<And>i l. view s0 i = Some l \<Longrightarrow> is_cstr l"
  shows "inv s \<and> (\<forall>i l. view s i = Some l \<longrightarrow> is_cstr l)"
  using assms(1)
proof (induction rule: reg_reach.induct)
  case reach_start
  then show ?case using assms(2,3) by blast
next
  case (reach_register s m e ident ro owner parent r s')
  then show ?case
    using register_returns [of s m e ident ro owner parent] label_array_short(1) [of m]
    by (auto split: if_splits)
next
  case (reach_unregister s m ident r s')
  then have "\<exists>r s'. unregister m ident s = Inr (r, s') \<and> inv s' \<and>
         (if r = 0
          then names (view s) (unat ident) m \<and> view s' = (view s)(unat ident := None)
          else \<not> names (view s) (unat ident) m \<and> view s' = view s)"
    by (intro unregister_returns) auto
  with reach_unregister show ?case
    by (auto split: if_splits)
qed

end

text \<open>A complete node, for concrete trees.\<close>

definition sample_node :: "u32 \<Rightarrow> string \<Rightarrow> fwnode" where
  "sample_node i l =
     \<lparr>property_present = (\<lambda>p. p = ''reg'' \<or> p = ''label''),
      property_u32 = (\<lambda>p. if p = ''reg'' then Some i else None),
      property_string = (\<lambda>p. if p = ''label'' then Some (cstr l) else None)\<rparr>"

lemma sample_node_simps [simp]:
  "complete (sample_node i l)" "readable (sample_node i l)" "node_id (sample_node i l) = unat i"
  "node_label (sample_node i l) = cstr l"
  by (simp_all add: sample_node_def complete_def readable_def node_id_def node_label_def)

end
