(* ===== verification/Buffer_IO.thy ===== *)
theory Buffer_IO
  imports Kernel_Iface
begin

text \<open>
  The contract of a device that is a fixed buffer read and written at a position: the
  locale \<open>buffer_device\<close>. The drivers of chapters 4 and 7 provide it; whoever uses the
  devices through \<open>read\<close> and \<open>write\<close> is proved against it. Also here: the lemmas on
  the body the two drivers' methods share (clamp the count, copy, ignore a short copy).
\<close>

section \<open>The result of a copy, kept in an \<open>int\<close>\<close>

lemma not_negative_small:
  assumes "unat (w :: u64) < 2 ^ 31"
  shows "\<not> negative (ucast w :: s32)"
proof -
  have "uint w < 2 ^ 31"
    using assms unfolding unat_eq_nat_uint by (subst (asm) nat_less_iff) simp_all
  moreover have "- (2 ^ 31) \<le> uint w"
    by (rule order_trans [of _ 0]) simp_all
  ultimately have "signed_take_bit 31 (uint w) = uint w"
    by (intro signed_take_bit_int_eq_self)
  then have "sint (ucast w :: s32) = uint w"
    by (simp add: signed_ucast_eq)
  then show ?thesis by (simp add: negative_def)
qed

lemma of_nat_unat_eq: "unat w = n \<Longrightarrow> w = of_nat n"
  by auto

lemma clamp_count_of_nat:
  assumes "unat pos \<le> unat blen" and "unat pos + unat count < 2 ^ 64"
  shows "clamp_count blen pos count = of_nat (min (unat count) (unat blen - unat pos))"
  using unat_clamp_count [OF assms] by (rule of_nat_unat_eq)

lemma unat_of_nat_le:
  "n \<le> unat (b :: u64) \<Longrightarrow> unat (of_nat n :: u64) = n"
  using unat_lt64 [of b] by (simp add: unsigned_of_nat take_bit_nat_eq_self)

section \<open>The shared bodies\<close>

definition moved :: "u64 \<Rightarrow> s64 \<Rightarrow> u64 \<Rightarrow> nat" where
  "moved blen pos count = min (unat count) (unat blen - unat pos)"

lemma moved_le [simp]: "moved blen pos count \<le> unat blen" "moved blen pos count \<le> unat count"
  by (auto simp: moved_def)

lemma moved_fits: "unat pos \<le> unat blen \<Longrightarrow> unat pos + moved blen pos count \<le> unat blen"
  by (simp add: moved_def)

lemma unat_of_moved [simp]: "unat (of_nat (moved blen pos count) :: u64) = moved blen pos count"
  by (rule unat_of_nat_le [of _ blen]) simp

lemma unat_of_moved_0: "(of_nat (moved blen pos count) :: u64) = 0 \<longleftrightarrow> moved blen pos count = 0"
proof
  assume "(of_nat (moved blen pos count) :: u64) = 0"
  then have "unat (of_nat (moved blen pos count) :: u64) = 0" by (simp only: unsigned_0)
  then show "moved blen pos count = 0" by (simp only: unat_of_moved)
qed simp

lemma unat_add_moved:
  assumes "unat pos \<le> unat blen"
  shows "unat (pos + of_nat (moved blen pos count) :: u64) = unat pos + moved blen pos count"
proof -
  have "unat pos + unat (of_nat (moved blen pos count) :: u64) < 2 ^ 64"
    using moved_fits [OF assms, of count] unat_lt64 [of blen] by simp
  then show ?thesis by (simp add: unat_word_ariths)
qed

text \<open>The side conditions of an access: what the file layer of the kernel guarantees.\<close>

definition io_ok :: "u64 \<Rightarrow> s64 \<Rightarrow> u64 \<Rightarrow> copy_fun \<Rightarrow> bool" where
  "io_ok blen pos count f \<longleftrightarrow>
     unat pos \<le> unat blen \<and> unat pos + unat count < 2 ^ 64 \<and> copy_ok f"

lemma io_okD:
  assumes "io_ok blen pos count f"
  shows "unat pos \<le> unat blen" and "unat pos + unat count < 2 ^ 64" and "copy_ok f"
  using assms by (simp_all add: io_ok_def)

lemma clamped:
  "io_ok blen pos count f \<Longrightarrow> clamp_count blen pos count = of_nat (moved blen pos count)"
  using clamp_count_of_nat [OF io_okD(1,2)] by (simp add: moved_def)

lemma left_le:
  "io_ok blen pos count f \<Longrightarrow>
   unat (f (of_nat (moved blen pos count))) \<le> moved blen pos count"
  using io_okD(3) [of blen pos count f] unat_of_moved [of blen pos count]
  by (metis copy_ok_def word_le_nat_alt)

lemma no_error:
  assumes "io_ok blen pos count f" and "unat blen < 2 ^ 31"
  shows "\<not> negative (ucast (f (of_nat (moved blen pos count))) :: s32)"
proof (rule not_negative_small)
  show "unat (f (of_nat (moved blen pos count))) < 2 ^ 31"
    using left_le [OF assms(1)] moved_le(1) [of blen pos count] assms(2) by linarith
qed

lemma mem_read_moved:
  "unat pos \<le> unat blen \<Longrightarrow> length b = unat blen \<Longrightarrow>
   mem_read b (unat pos) (moved blen pos count - k) =
     Inr (take (moved blen pos count - k) (drop (unat pos) b))"
  using moved_fits [of pos blen count] by (intro mem_read_in) simp

lemma mem_write_moved:
  "unat pos \<le> unat blen \<Longrightarrow> length b = unat blen \<Longrightarrow> length ds = moved blen pos count \<Longrightarrow>
   mem_write b (unat pos) ds =
     Inr (take (unat pos) b @ ds @ drop (unat pos + moved blen pos count) b)"
  using moved_fits [of pos blen count] mem_write_in [of "unat pos" ds b] by simp

section \<open>The contract\<close>

locale buffer_device =
  fixes rd :: "copy_fun \<Rightarrow> 's \<Rightarrow> u64 \<Rightarrow> s64 \<Rightarrow> fault + (s64 \<times> s64 \<times> byte list)"
    and wr :: "copy_fun \<Rightarrow> byte list \<Rightarrow> 's \<Rightarrow> u64 \<Rightarrow> s64 \<Rightarrow> fault + (s64 \<times> s64 \<times> 's)"
    and contents :: "'s \<Rightarrow> byte list"
    and writable :: "'s \<Rightarrow> bool"
    and opened :: "'s \<Rightarrow> bool"
    and blen :: u64
  assumes contents_length: "opened s \<Longrightarrow> length (contents s) = unat blen"
    and rd_result:
      "opened s \<Longrightarrow> io_ok blen pos count f \<Longrightarrow>
       rd f s count pos =
         Inr (of_nat (moved blen pos count), pos + of_nat (moved blen pos count),
              take (moved blen pos count - unat (f (of_nat (moved blen pos count))))
                (drop (unat pos) (contents s)))"
    and wr_result:
      "opened s \<Longrightarrow> writable s \<Longrightarrow> io_ok blen pos count f \<Longrightarrow>
       \<exists>s'. wr f usr s count pos =
         Inr (of_nat (moved blen pos count), pos + of_nat (moved blen pos count), s') \<and>
         opened s' \<and> writable s' \<and>
         contents s' = take (unat pos) (contents s) @
           from_user usr (moved blen pos count) (unat (f (of_nat (moved blen pos count)))) @
           drop (unat pos + moved blen pos count) (contents s)"
    and wr_read_only:
      "opened s \<Longrightarrow> \<not> writable s \<Longrightarrow> wr f usr s count pos = Inr (- EINVAL, pos, s)"
begin

text \<open>What was written at a position is read back from it.\<close>

lemma write_read:
  assumes "opened s" and "writable s" and "unat pos \<le> unat blen"
    and "unat pos + unat count < 2 ^ 64" and "unat count \<le> length usr"
  shows "\<exists>s'. wr (\<lambda>_. 0) usr s count pos =
               Inr (of_nat (moved blen pos count), pos + of_nat (moved blen pos count), s') \<and>
             rd (\<lambda>_. 0) s' count pos =
               Inr (of_nat (moved blen pos count), pos + of_nat (moved blen pos count),
                    take (moved blen pos count) usr)"
proof -
  have io: "io_ok blen pos count (\<lambda>_. 0)"
    using assms by (simp add: io_ok_def copy_ok_def)
  from wr_result [OF assms(1,2) io, of usr] obtain s' where
    w: "wr (\<lambda>_. 0) usr s count pos =
          Inr (of_nat (moved blen pos count), pos + of_nat (moved blen pos count), s')"
    and o: "opened s'"
    and c: "contents s' = take (unat pos) (contents s) @ from_user usr (moved blen pos count) 0 @
              drop (unat pos + moved blen pos count) (contents s)"
    by auto
  have n: "moved blen pos count \<le> length usr"
    using assms(5) by (simp add: moved_def)
  have "take (moved blen pos count) (drop (unat pos) (contents s')) = take (moved blen pos count) usr"
    using assms(3) contents_length [OF assms(1)] by (simp add: c from_user_all [OF n] n)
  with rd_result [OF o io] w show ?thesis by auto
qed

text \<open>The position never passes the end of the buffer, whatever could be copied.\<close>

lemma position_stays:
  assumes "opened s" and io: "io_ok blen pos count f"
    and "rd f s count pos = Inr (r, pos', out)"
  shows "unat pos' = unat pos + unat r" and "unat pos' \<le> unat blen" and "length out \<le> unat r"
proof -
  have eq: "r = of_nat (moved blen pos count)" "pos' = pos + of_nat (moved blen pos count)"
    "out = take (moved blen pos count - unat (f (of_nat (moved blen pos count))))
                (drop (unat pos) (contents s))"
    using rd_result [OF assms(1,2)] assms(3) by auto
  show "unat pos' = unat pos + unat r"
    by (simp add: eq unat_add_moved [OF io_okD(1) [OF io]])
  then show "unat pos' \<le> unat blen"
    using moved_fits [OF io_okD(1) [OF io], of count] by (simp add: eq)
  show "length out \<le> unat r"
    by (simp add: eq)
qed

end

end
