(* ===== verification/File_Spec.thy ===== *)
theory File_Spec
  imports Buffer_IO
begin

text \<open>
  What a buffer device promises to a program: it behaves like a file of fixed length, a list
  of bytes with a current position. The abstract file is written without machine arithmetic;
  the concrete side is any sequence of calls on a device with the contract
  \<open>buffer_device\<close>, with the position kept by the kernel from call to call. The simulation is
  proved once, for every device with the contract; a device that can be positioned provides the
  larger contract \<open>seekable_buffer\<close>, and then \<open>lseek\<close> calls may be among the calls.
\<close>

section \<open>Calls and answers\<close>

text \<open>
  A call with what the kernel's copy routine will answer; a write with the bytes in user
  memory. The answer of a call is its return value and the bytes that reached the user.
\<close>

datatype io_call =
    Read copy_fun u64
  | Write copy_fun "byte list" u64
  | is_Seek: Seek s64 s32          \<comment> \<open>offset, whence\<close>

type_synonym io_answer = "s64 \<times> byte list"

text \<open>The kernel's limit on one transfer (\<^verbatim>\<open>MAX_RW_COUNT\<close>).\<close>

fun call_ok :: "io_call \<Rightarrow> bool" where
  "call_ok (Read f n) \<longleftrightarrow> copy_ok f \<and> unat n \<le> 0x7ffff000"
| "call_ok (Write f usr n) \<longleftrightarrow> copy_ok f \<and> unat n \<le> 0x7ffff000"
| "call_ok (Seek off whence) \<longleftrightarrow> True"

fun call_count :: "io_call \<Rightarrow> nat" where
  "call_count (Read f n) = unat n"
| "call_count (Write f usr n) = unat n"
| "call_count (Seek off whence) = 0"

section \<open>The abstract file\<close>

record afile =
  bytes :: "byte list"
  apos :: nat
  awritable :: bool

text \<open>The bases 0, 1, 2 are \<open>SEEK_SET\<close>, \<open>SEEK_CUR\<close>, \<open>SEEK_END\<close>; the sum is taken in the integers.\<close>

definition seek_base :: "nat \<Rightarrow> nat \<Rightarrow> s32 \<Rightarrow> int option" where
  "seek_base pos len whence =
     (if whence = 0 then Some 0 else if whence = 1 then Some (int pos)
      else if whence = 2 then Some (int len) else None)"

definition seek_target :: "nat \<Rightarrow> nat \<Rightarrow> s64 \<Rightarrow> s32 \<Rightarrow> nat option" where
  "seek_target pos len off whence =
     (case seek_base pos len whence of
        None \<Rightarrow> None
      | Some b \<Rightarrow> if 0 \<le> b + sint off \<and> b + sint off < int len then Some (nat (b + sint off)) else None)"

lemma seek_target_less: "seek_target pos len off whence = Some p \<Longrightarrow> p < len"
  by (auto simp: seek_target_def split: option.splits if_splits)

definition room :: "afile \<Rightarrow> u64 \<Rightarrow> nat" where
  "room a n = min (unat n) (length (bytes a) - apos a)"

fun afile_call :: "io_call \<Rightarrow> afile \<Rightarrow> io_answer \<times> afile" where
  "afile_call (Read f n) a =
     (let k = room a n
      in ((of_nat k, take (k - unat (f (of_nat k))) (drop (apos a) (bytes a))),
          a\<lparr>apos := apos a + k\<rparr>))"
| "afile_call (Write f usr n) a =
     (let k = room a n
      in if awritable a
         then ((of_nat k, []),
               a\<lparr>bytes := take (apos a) (bytes a) @ from_user usr k (unat (f (of_nat k))) @
                         drop (apos a + k) (bytes a),
                 apos := apos a + k\<rparr>)
         else ((- EINVAL, []), a))"
| "afile_call (Seek off whence) a =
     (case seek_target (apos a) (length (bytes a)) off whence of
        None \<Rightarrow> ((- EINVAL, []), a)
      | Some p \<Rightarrow> ((of_nat p, []), a\<lparr>apos := p\<rparr>))"

fun afile_run :: "io_call list \<Rightarrow> afile \<Rightarrow> io_answer list \<times> afile" where
  "afile_run [] a = ([], a)"
| "afile_run (c # cs) a =
     (let (r, a1) = afile_call c a; (rs, a2) = afile_run cs a1 in (r # rs, a2))"

definition afile_ok :: "afile \<Rightarrow> bool" where
  "afile_ok a \<longleftrightarrow> apos a \<le> length (bytes a)"

lemma room_fits: "afile_ok a \<Longrightarrow> apos a + room a n \<le> length (bytes a)"
  by (simp add: afile_ok_def room_def)

lemma afile_call_keeps:
  assumes "afile_ok a" and "afile_call c a = (r, a')"
  shows "afile_ok a'" and "length (bytes a') = length (bytes a)" and "awritable a' = awritable a"
    and "\<not> is_Seek c \<Longrightarrow> apos a' \<le> apos a + call_count c"
  using assms room_fits [OF assms(1)]
  by (cases c; auto simp: afile_ok_def Let_def room_def seek_target_def
        split: if_splits option.splits)+

section \<open>Runs of a device\<close>

text \<open>
  The kernel passes the stored position to the method and stores what the method leaves there.
\<close>

type_synonym 's read_method = "copy_fun \<Rightarrow> 's \<Rightarrow> u64 \<Rightarrow> s64 \<Rightarrow> fault + (s64 \<times> s64 \<times> byte list)"
type_synonym 's write_method =
  "copy_fun \<Rightarrow> byte list \<Rightarrow> 's \<Rightarrow> u64 \<Rightarrow> s64 \<Rightarrow> fault + (s64 \<times> s64 \<times> 's)"
type_synonym 's seek_method = "'s \<Rightarrow> s64 \<Rightarrow> s64 \<Rightarrow> s32 \<Rightarrow> s64 \<times> s64"

fun dev_call ::
  "'s read_method \<Rightarrow> 's write_method \<Rightarrow> 's seek_method \<Rightarrow> io_call \<Rightarrow> 's \<times> s64 \<Rightarrow>
   fault + (io_answer \<times> 's \<times> s64)" where
  "dev_call rd wr sk (Read f n) (s, pos) =
     bindo (rd f s n pos) (\<lambda>(r, pos', out). Inr ((r, out), s, pos'))"
| "dev_call rd wr sk (Write f usr n) (s, pos) =
     bindo (wr f usr s n pos) (\<lambda>(r, pos', s'). Inr ((r, []), s', pos'))"
| "dev_call rd wr sk (Seek off whence) (s, pos) =
     (let (r, pos') = sk s pos off whence in Inr ((r, []), s, pos'))"

fun dev_run ::
  "'s read_method \<Rightarrow> 's write_method \<Rightarrow> 's seek_method \<Rightarrow> io_call list \<Rightarrow> 's \<times> s64 \<Rightarrow>
   fault + (io_answer list \<times> 's \<times> s64)" where
  "dev_run rd wr sk [] t = Inr ([], t)"
| "dev_run rd wr sk (c # cs) t =
     bindo (dev_call rd wr sk c t) (\<lambda>(r, t1).
       bindo (dev_run rd wr sk cs t1) (\<lambda>(rs, t2). Inr (r # rs, t2)))"

section \<open>Simulation\<close>

context buffer_device
begin

definition abs_file :: "'s \<times> s64 \<Rightarrow> afile" where
  "abs_file = (\<lambda>(s, pos). \<lparr>bytes = contents s, apos = unat pos, awritable = writable s\<rparr>)"

definition dev_ok :: "'s \<times> s64 \<Rightarrow> bool" where
  "dev_ok = (\<lambda>(s, pos). opened s \<and> unat pos \<le> unat blen)"

lemma abs_file_ok: "dev_ok t \<Longrightarrow> afile_ok (abs_file t)"
  by (cases t) (simp add: dev_ok_def abs_file_def afile_ok_def contents_length)

lemma moved_room:
  "opened s \<Longrightarrow> moved blen pos n = room (abs_file (s, pos)) n"
  by (simp add: moved_def room_def abs_file_def contents_length)

lemma call_io_ok:
  assumes "unat pos \<le> unat blen" and "copy_ok f" and "unat n \<le> 0x7ffff000" and "unat blen < 2 ^ 63"
  shows "io_ok blen pos n f"
  using assms by (simp add: io_ok_def)

lemma call_simulates:
  assumes "dev_ok t" and "call_ok c" and small: "unat blen < 2 ^ 63" and seek: "\<not> is_Seek c"
  shows "\<exists>t'. dev_call rd wr sk c t = Inr (fst (afile_call c (abs_file t)), t') \<and> dev_ok t' \<and>
              abs_file t' = snd (afile_call c (abs_file t))"
proof (cases t)
  case (Pair s pos)
  with assms have op: "opened s" and pos: "unat pos \<le> unat blen" by (simp_all add: dev_ok_def)
  show ?thesis
  proof (cases c)
    case (Read f n)
    with assms have "copy_ok f" "unat n \<le> 0x7ffff000" by simp_all
    then have io: "io_ok blen pos n f" using call_io_ok pos small by blast
    show ?thesis
      using rd_result [OF op io] moved_fits [OF pos, of n] unat_add_moved [OF pos, of n]
      by (simp add: Pair Read dev_ok_def op Let_def flip: moved_room [OF op])
        (simp add: abs_file_def)
  next
    case (Write f usr n)
    with assms have "copy_ok f" "unat n \<le> 0x7ffff000" by simp_all
    then have io: "io_ok blen pos n f" using call_io_ok pos small by blast
    show ?thesis
    proof (cases "writable s")
      case True
      from wr_result [OF op True io, of usr] show ?thesis
        using moved_fits [OF pos, of n] unat_add_moved [OF pos, of n]
        by (auto simp: Pair Write dev_ok_def Let_def True simp flip: moved_room [OF op])
          (auto simp: abs_file_def True)
    next
      case False
      with wr_read_only [OF op False] assms(1) show ?thesis
        by (simp add: Pair Write Let_def) (simp add: abs_file_def)
    qed
  qed (use seek in simp)
qed

text \<open>From calls to runs, for the calls of a set \<open>C\<close>.\<close>

lemma run_simulates_for:
  assumes each: "\<And>t c. dev_ok t \<Longrightarrow> c \<in> C \<Longrightarrow>
      \<exists>t'. dev_call rd wr sk c t = Inr (fst (afile_call c (abs_file t)), t') \<and> dev_ok t' \<and>
           abs_file t' = snd (afile_call c (abs_file t))"
    and "dev_ok t" and "set cs \<subseteq> C"
  shows "\<exists>t'. dev_run rd wr sk cs t = Inr (fst (afile_run cs (abs_file t)), t') \<and> dev_ok t' \<and>
              abs_file t' = snd (afile_run cs (abs_file t))"
  using assms(2,3)
proof (induction cs arbitrary: t)
  case Nil
  then show ?case by simp
next
  case (Cons c cs)
  from each [OF Cons.prems(1), of c] Cons.prems(2) obtain t1 where
    t1: "dev_call rd wr sk c t = Inr (fst (afile_call c (abs_file t)), t1)" "dev_ok t1"
    "abs_file t1 = snd (afile_call c (abs_file t))" by auto
  from Cons.IH [OF t1(2)] Cons.prems(2) obtain t2 where
    "dev_run rd wr sk cs t1 = Inr (fst (afile_run cs (abs_file t1)), t2)" "dev_ok t2"
    "abs_file t2 = snd (afile_run cs (abs_file t1))" by auto
  with t1 show ?case by (auto simp: split_beta Let_def)
qed

lemma run_simulates:
  assumes "dev_ok t" and "\<forall>c \<in> set cs. call_ok c \<and> \<not> is_Seek c" and "unat blen < 2 ^ 63"
  shows "\<exists>t'. dev_run rd wr sk cs t = Inr (fst (afile_run cs (abs_file t)), t') \<and> dev_ok t' \<and>
              abs_file t' = snd (afile_run cs (abs_file t))"
  by (rule run_simulates_for [where C = "{c. call_ok c \<and> \<not> is_Seek c}"])
    (use assms call_simulates in auto)

end

section \<open>Devices that can be positioned\<close>

locale seekable_buffer = buffer_device rd wr contents writable opened blen
  for rd :: "'s read_method" and wr :: "'s write_method" and contents writable opened blen +
  fixes sk :: "'s seek_method"
  assumes sk_result:
      "unat pos \<le> unat blen \<Longrightarrow>
       sk s pos off whence =
         (case seek_target (unat pos) (unat blen) off whence of
            None \<Rightarrow> (- EINVAL, pos)
          | Some p \<Rightarrow> (of_nat p, of_nat p))"
begin

lemma seek_simulates:
  assumes "dev_ok t"
  shows "\<exists>t'. dev_call rd wr sk (Seek off whence) t =
                Inr (fst (afile_call (Seek off whence) (abs_file t)), t') \<and> dev_ok t' \<and>
              abs_file t' = snd (afile_call (Seek off whence) (abs_file t))"
proof (cases t)
  case (Pair s pos)
  with assms have op: "opened s" and pos: "unat pos \<le> unat blen" by (simp_all add: dev_ok_def)
  note len = contents_length [OF op]
  show ?thesis
  proof (cases "seek_target (unat pos) (unat blen) off whence")
    case None
    then show ?thesis
      using sk_result [OF pos, of s off whence] assms
      by (simp add: Pair abs_file_def len)
  next
    case (Some p)
    then have p: "p < unat blen" by (rule seek_target_less)
    then have "unat (of_nat p :: u64) = p"
      using unat_of_nat_le [of p blen] by simp
    with Some p show ?thesis
      using sk_result [OF pos, of s off whence] op
      by (simp add: Pair abs_file_def len dev_ok_def)
  qed
qed

lemma seek_run_simulates:
  assumes "dev_ok t" and "\<forall>c \<in> set cs. call_ok c" and small: "unat blen < 2 ^ 63"
  shows "\<exists>t'. dev_run rd wr sk cs t = Inr (fst (afile_run cs (abs_file t)), t') \<and> dev_ok t' \<and>
              abs_file t' = snd (afile_run cs (abs_file t))"
proof (rule run_simulates_for [where C = "{c. call_ok c}"])
  fix t c
  assume t: "dev_ok t" and "c \<in> {c. call_ok c}"
  then show "\<exists>t'. dev_call rd wr sk c t = Inr (fst (afile_call c (abs_file t)), t') \<and> dev_ok t' \<and>
                  abs_file t' = snd (afile_call c (abs_file t))"
    using call_simulates [OF t _ small, of c] seek_simulates [OF t] by (cases c) simp_all
qed (use assms in auto)

end

end
