(* ===== verification/Chrdev4.thy ===== *)
theory Chrdev4
  imports Chrdev_Req File_Spec
begin

text \<open>
  \<^verbatim>\<open>Chapter04/chrdev/chrdev.c\<close>: eight character devices with a 300-byte buffer
  each, held inside the device structure. The file methods \<open>chrdev_read4\<close>,
  \<open>chrdev_write4\<close>, \<open>chrdev_open4\<close>, \<open>chrdev_release4\<close>, the exported
  \<open>chrdev_device_register4\<close> and \<open>chrdev_device_unregister4\<close>, and the module's
  start and stop. The lemmas show the methods' results on every branch, that the
  registrations keep \<open>registry_inv\<close>, and that they meet the contract the platform
  driver relies on.
\<close>

section \<open>State\<close>

definition BUF_LEN4 :: u64 where "BUF_LEN4 = 300"

record chrdev_device4 = chrdev_base +
  buf4 :: "byte list"

type_synonym drv4 = "chrdev_device4 drv"

definition zero_dev4 :: chrdev_device4 where
  "zero_dev4 = \<lparr>label = replicate NAME_LEN NUL, busy = False, read_only = 0, devid = 0,
                dev = NullDev, buf4 = replicate (unat BUF_LEN4) 0\<rparr>"

text \<open>The module's static variables before \<open>chrdev_init\<close>.\<close>

definition start4 :: drv4 where
  "start4 = \<lparr>chrdev_devt = MKDEV 0 0, chrdev_class = NullClass,
             chrdev_array = replicate (unat MAX_DEVICES) zero_dev4, ktrace = []\<rparr>"

section \<open>File methods\<close>

text \<open>
  The result is what the method returns, the new \<open>*ppos\<close>, and the bytes that reached
  the user (for a read) or the new driver state (for a write). \<open>int ret\<close> keeps the low
  32 bits of the number of bytes that were not copied.
\<close>

definition chrdev_read4 ::
  "copy_fun \<Rightarrow> drv4 \<Rightarrow> ofile \<Rightarrow> u64 \<Rightarrow> s64 \<Rightarrow> fault + (s64 \<times> s64 \<times> byte list)" where
  "chrdev_read4 copy_to_user s filp count ppos =
     (case private_data filp of
        None \<Rightarrow> Inl BadPointer
      | Some i \<Rightarrow>
          let chrdev = slot s i;
              count = clamp_count BUF_LEN4 ppos count;
              left = copy_to_user count;
              ret = (ucast left :: s32)
          in bindo (mem_read (buf4 chrdev) (unat ppos) (unat count - unat left))
               (\<lambda>out. if negative ret then Inr (- EFAULT, ppos, out)
                      else Inr (count, ppos + count, out)))"

definition chrdev_write4 ::
  "copy_fun \<Rightarrow> byte list \<Rightarrow> drv4 \<Rightarrow> ofile \<Rightarrow> u64 \<Rightarrow> s64 \<Rightarrow> fault + (s64 \<times> s64 \<times> drv4)" where
  "chrdev_write4 copy_from_user usr s filp count ppos =
     (case private_data filp of
        None \<Rightarrow> Inl BadPointer
      | Some i \<Rightarrow>
          let chrdev = slot s i in
          if read_only chrdev \<noteq> 0 then Inr (- EINVAL, ppos, s)
          else
            let count = clamp_count BUF_LEN4 ppos count;
                left = copy_from_user count;
                ret = (ucast left :: s32)
            in bindo (mem_write (buf4 chrdev) (unat ppos) (from_user usr (unat count) (unat left)))
                 (\<lambda>b. let s' = upd_slot i (\<lambda>d. d\<lparr>buf4 := b\<rparr>) s in
                      if negative ret then Inr (- EFAULT, ppos, s')
                      else Inr (count, ppos + count, s')))"

text \<open>\<open>inode->i_cdev\<close> is the \<open>cdev\<close> member of slot \<open>i\<close>.\<close>

definition chrdev_open4 :: "nat \<Rightarrow> ofile \<Rightarrow> drv4 \<Rightarrow> fault + (s32 \<times> ofile \<times> drv4)" where
  "chrdev_open4 i filp s =
     (case dev (slot s i) of
        Dev h devt \<Rightarrow> Inr (0, filp\<lparr>private_data := Some i\<rparr>, call (Kobject_Get h) s)
      | _ \<Rightarrow> Inl BadPointer)"

definition chrdev_release4 :: "nat \<Rightarrow> ofile \<Rightarrow> drv4 \<Rightarrow> fault + (s32 \<times> ofile \<times> drv4)" where
  "chrdev_release4 i filp s =
     (case dev (slot s i) of
        Dev h devt \<Rightarrow> Inr (0, filp\<lparr>private_data := None\<rparr>, call (Kobject_Put h) s)
      | _ \<Rightarrow> Inl BadPointer)"

section \<open>Exported functions\<close>

definition chrdev_device_register4 :: "(reg_env, drv4) register_fun" where
  "chrdev_device_register4 e lbl ident ro owner parent s =
     (if MAX_DEVICES \<le> ident then Inr (- EINVAL, s)
      else let i = unat ident in
      if busy (slot s i) then Inr (- EBUSY, s)
      else
        let s = call (Cdev_Init i owner) s;
            devt = MKDEV (MAJOR (chrdev_devt s)) ident;
            ret = cdev_add_ret e;
            s = call (Cdev_Add i devt ret) s
        in if ret \<noteq> 0 then Inr (ret, s)
        else bindo (node_name lbl ident) (\<lambda>name.
          let d = device_create e devt;
              s = call (Device_Create parent devt name d) (upd_slot i (\<lambda>c. c\<lparr>dev := d\<rparr>) s)
          in case d of
               ErrDev err \<Rightarrow> Inr (err, call (Cdev_Del i) s)
             | _ \<Rightarrow> bindo (strncpy lbl NAME_LEN) (\<lambda>l.
                 Inr (0, upd_slot i (\<lambda>c. c\<lparr>devid := ident, read_only := ro, busy := True,
                            label := l, buf4 := replicate (unat BUF_LEN4) 0\<rparr>) s))))"

definition chrdev_device_unregister4 :: "drv4 unregister_fun" where
  "chrdev_device_unregister4 lbl ident s =
     (if MAX_DEVICES \<le> ident then Inr (- EINVAL, s)
      else let i = unat ident in
      if \<not> busy (slot s i) then Inr (- EINVAL, s)
      else bindo (strcmp (label (slot s i)) lbl) (\<lambda>c.
        if c \<noteq> 0 then Inr (- EINVAL, s)
        else
          let s = upd_slot i (\<lambda>d. d\<lparr>devid := 0, busy := False\<rparr>) s in
          case dev (slot s i) of
            Dev h devt \<Rightarrow> Inr (0, call (Cdev_Del i) (call (Device_Destroy devt) s))
          | _ \<Rightarrow> Inl BadPointer))"

section \<open>Module start and stop\<close>

definition chrdev_init4 :: "init_env \<Rightarrow> drv4 \<Rightarrow> s32 \<times> drv4" where
  "chrdev_init4 e s =
     (let c = class_create_ret e;
          s = call (Class_Create c) (s\<lparr>chrdev_class := c\<rparr>)
      in if c = NullClass then (- ENOMEM, s)
      else
        let ret = alloc_region_ret e;
            s = call (Alloc_Chrdev_Region (alloc_region_devt e) (unat MAX_DEVICES) ret) s
        in if negative ret then (ret, call (Class_Destroy (chrdev_class s)) s)
           else (0, s\<lparr>chrdev_devt := alloc_region_devt e\<rparr>))"

definition chrdev_exit4 :: "drv4 \<Rightarrow> drv4" where
  "chrdev_exit4 s =
     call (Class_Destroy (chrdev_class s))
       (call (Unregister_Chrdev_Region (chrdev_devt s) (unat MAX_DEVICES)) s)"

section \<open>Invariant\<close>

definition inv4 :: "drv4 \<Rightarrow> bool" where
  "inv4 s \<longleftrightarrow> registry_inv s \<and> (\<forall>i < 8. length (buf4 (slot s i)) = unat BUF_LEN4)"

definition opened4 :: "drv4 \<times> ofile \<Rightarrow> bool" where
  "opened4 = (\<lambda>(s, filp). inv4 s \<and> (\<exists>i < 8. private_data filp = Some i))"

definition contents4 :: "drv4 \<times> ofile \<Rightarrow> byte list" where
  "contents4 = (\<lambda>(s, filp). buf4 (slot s (the (private_data filp))))"

definition writable4 :: "drv4 \<times> ofile \<Rightarrow> bool" where
  "writable4 = (\<lambda>(s, filp). read_only (slot s (the (private_data filp))) = 0)"

lemma BUF_LEN4_nat [simp]: "unat BUF_LEN4 = 300"
  by (simp add: BUF_LEN4_def)

lemma inv4_length: "inv4 s \<Longrightarrow> length (chrdev_array s) = 8"
  by (simp add: inv4_def registry_inv_def)

lemma inv4_start: "inv4 start4"
  by (simp add: inv4_def registry_inv_def start4_def slot_ok_def busy_ids_def slot_def zero_dev4_def)

text \<open>Storing into one buffer keeps the invariant and the registered devices.\<close>

lemma inv4_store:
  assumes "inv4 s" and "i < 8" and "length b = 300"
  shows "inv4 (upd_slot i (\<lambda>d. d\<lparr>buf4 := b\<rparr>) s)"
    and "devices_of (upd_slot i (\<lambda>d. d\<lparr>buf4 := b\<rparr>) s) = devices_of s"
proof -
  let ?t = "upd_slot i (\<lambda>d. d\<lparr>buf4 := b\<rparr>) s"
  have r: "registry_inv s" and len: "length (chrdev_array s) = 8"
    using assms(1) by (simp_all add: inv4_def inv4_length)
  have same: "busy (slot ?t j) = busy (slot s j) \<and> label (slot ?t j) = label (slot s j) \<and>
    devid (slot ?t j) = devid (slot s j) \<and> (busy (slot s j) \<longrightarrow> dev (slot ?t j) = dev (slot s j))"
    if "j < 8" for j
    using that len assms(2) by simp
  have "registry_inv ?t" "devices_of ?t = devices_of s"
    using registry_inv_frame [OF r _ _ same] len by simp_all
  then show "inv4 ?t" "devices_of ?t = devices_of s"
    using assms len by (auto simp: inv4_def)
qed

section \<open>The file methods meet the buffer contract\<close>

lemma read4_result:
  assumes "opened4 (s, filp)" and io: "io_ok BUF_LEN4 pos count f"
  shows "chrdev_read4 f s filp count pos =
         Inr (of_nat (moved BUF_LEN4 pos count), pos + of_nat (moved BUF_LEN4 pos count),
              take (moved BUF_LEN4 pos count - unat (f (of_nat (moved BUF_LEN4 pos count))))
                (drop (unat pos) (contents4 (s, filp))))"
proof -
  from assms(1) obtain i where i: "i < 8" "private_data filp = Some i"
    and len: "length (buf4 (slot s i)) = unat BUF_LEN4"
    by (auto simp: opened4_def inv4_def)
  show ?thesis
    using clamped [OF io] no_error [OF io] mem_read_moved [OF io_okD(1) [OF io] len]
    by (simp add: chrdev_read4_def contents4_def i Let_def)
qed

lemma write4_result:
  assumes "opened4 (s, filp)" and "writable4 (s, filp)" and io: "io_ok BUF_LEN4 pos count f"
    and "private_data filp = Some i"
    and n: "n = moved BUF_LEN4 pos count"
    and b: "b = take (unat pos) (contents4 (s, filp)) @
                from_user usr n (unat (f (of_nat n))) @
                drop (unat pos + n) (contents4 (s, filp))"
  shows "chrdev_write4 f usr s filp count pos =
         Inr (of_nat n, pos + of_nat n, upd_slot i (\<lambda>d. d\<lparr>buf4 := b\<rparr>) s)" (is ?eq)
    and "opened4 (upd_slot i (\<lambda>d. d\<lparr>buf4 := b\<rparr>) s, filp)" (is ?op)
    and "writable4 (upd_slot i (\<lambda>d. d\<lparr>buf4 := b\<rparr>) s, filp)" (is ?wr)
    and "contents4 (upd_slot i (\<lambda>d. d\<lparr>buf4 := b\<rparr>) s, filp) = b" (is ?co)
proof -
  from assms(1,4) have i: "i < 8" and inv: "inv4 s"
    and len: "length (buf4 (slot s i)) = unat BUF_LEN4" "length (chrdev_array s) = 8"
    by (auto simp: opened4_def inv4_def registry_inv_def)
  have ro: "read_only (slot s i) = 0"
    using assms(2,4) by (simp add: writable4_def)
  have blen: "length b = 300"
    using len(1) moved_fits [OF io_okD(1) [OF io], of count] io_okD(1) [OF io] assms(4)
    by (simp add: b n contents4_def)
  show ?eq
    using clamped [OF io] no_error [OF io] mem_write_moved [OF io_okD(1) [OF io] len(1), of _ count]
    by (simp add: chrdev_write4_def contents4_def assms(4) b n ro Let_def)
  show ?op
    using inv4_store(1) [OF inv i blen] i assms(4) by (auto simp: opened4_def)
  show ?wr
    using ro i len(2) assms(4) by (simp add: writable4_def)
  show ?co
    using i len(2) assms(4) by (simp add: contents4_def)
qed

interpretation io4: buffer_device
  "\<lambda>f (s, filp) count pos. chrdev_read4 f s filp count pos"
  "\<lambda>f usr (s, filp) count pos.
     map_sum id (\<lambda>(r, p, s'). (r, p, (s', filp))) (chrdev_write4 f usr s filp count pos)"
  contents4 writable4 opened4 BUF_LEN4
proof (unfold_locales, goal_cases)
  case (1 t)
  then show ?case by (auto simp: opened4_def contents4_def inv4_def)
next
  case (2 t pos count f)
  then show ?case by (cases t) (simp add: read4_result)
next
  case (3 t pos count f usr)
  obtain s filp where t: "t = (s, filp)" by (cases t)
  with 3(1) obtain i where "private_data filp = Some i"
    by (auto simp: opened4_def)
  from write4_result [OF 3(1,2) [unfolded t] 3(3) this refl refl, of usr]
  show ?case by (auto simp: t)
next
  case (4 t f usr count pos)
  then obtain s filp i where "t = (s, filp)" "private_data filp = Some i" "read_only (slot s i) \<noteq> 0"
    by (cases t) (auto simp: opened4_def writable4_def)
  then show ?case by (simp add: chrdev_write4_def)
qed

section \<open>Registration\<close>

text \<open>The state a successful registration leaves.\<close>

definition registered4 ::
  "reg_env \<Rightarrow> char list \<Rightarrow> u32 \<Rightarrow> u32 \<Rightarrow> nat \<Rightarrow> nat \<Rightarrow> string \<Rightarrow> drv4 \<Rightarrow> drv4" where
  "registered4 e lbl ident ro owner parent name s =
     (let i = unat ident; devt = MKDEV (MAJOR (chrdev_devt s)) ident; d = device_create e devt in
      upd_slot i (\<lambda>c. c\<lparr>dev := d, devid := ident, read_only := ro, busy := True,
                       label := label_array lbl, buf4 := replicate 300 0\<rparr>)
        (call (Device_Create parent devt name d)
          (call (Cdev_Add i devt 0) (call (Cdev_Init i owner) s))))"

text \<open>Every branch of the registration.\<close>

lemma upd_slot_twice:
  "upd_slot i g (call c (upd_slot i f s)) = upd_slot i (g \<circ> f) (call c s)"
  if "i < length (chrdev_array s)"
  using that by (simp add: upd_slot_def call_def)

lemma register4_branches:
  assumes "is_cstr lbl" and "length (chrdev_array s) = 8"
  shows "8 \<le> unat ident \<Longrightarrow>
           chrdev_device_register4 e lbl ident ro owner parent s = Inr (- EINVAL, s)"
    and "unat ident < 8 \<Longrightarrow> busy (slot s (unat ident)) \<Longrightarrow>
           chrdev_device_register4 e lbl ident ro owner parent s = Inr (- EBUSY, s)"
    and "unat ident < 8 \<Longrightarrow> \<not> busy (slot s (unat ident)) \<Longrightarrow> cdev_add_ret e \<noteq> 0 \<Longrightarrow>
           chrdev_device_register4 e lbl ident ro owner parent s =
           Inr (cdev_add_ret e,
                call (Cdev_Add (unat ident) (MKDEV (MAJOR (chrdev_devt s)) ident) (cdev_add_ret e))
                  (call (Cdev_Init (unat ident) owner) s))"
    and "unat ident < 8 \<Longrightarrow> \<not> busy (slot s (unat ident)) \<Longrightarrow> cdev_add_ret e = 0 \<Longrightarrow>
         device_create_ret e = Inl err \<Longrightarrow>
           \<exists>name. chrdev_device_register4 e lbl ident ro owner parent s =
           Inr (err, call (Cdev_Del (unat ident))
             (call (Device_Create parent (MKDEV (MAJOR (chrdev_devt s)) ident) name (ErrDev err))
               (upd_slot (unat ident) (\<lambda>c. c\<lparr>dev := ErrDev err\<rparr>)
                 (call (Cdev_Add (unat ident) (MKDEV (MAJOR (chrdev_devt s)) ident) 0)
                   (call (Cdev_Init (unat ident) owner) s)))))"
    and "unat ident < 8 \<Longrightarrow> \<not> busy (slot s (unat ident)) \<Longrightarrow> cdev_add_ret e = 0 \<Longrightarrow>
         device_create_ret e = Inr h \<Longrightarrow>
           \<exists>name. chrdev_device_register4 e lbl ident ro owner parent s =
           Inr (0, registered4 e lbl ident ro owner parent name s)"
  using assms
  by (auto simp: chrdev_device_register4_def MAX_DEVICES_le Let_def node_name_def
      device_create_def strncpy_label [unfolded NAME_LEN_nat] registered4_def upd_slot_twice
      comp_def)

lemma registered4_inv:
  assumes "inv4 s" and "unat ident < 8" and "\<not> busy (slot s (unat ident))"
    and "device_create_ret e = Inr h"
  shows "inv4 (registered4 e lbl ident ro owner parent name s)"
    and "devices_of (registered4 e lbl ident ro owner parent name s) =
         (devices_of s)(unat ident \<mapsto> label_array lbl)"
proof -
  let ?t = "registered4 e lbl ident ro owner parent name s"
  have r: "registry_inv s" and len: "length (chrdev_array s) = 8"
    using assms(1) by (simp_all add: inv4_def inv4_length)
  have others: "chrdev_base.truncate (slot ?t j) = chrdev_base.truncate (slot s j)"
    if "j < 8" "j \<noteq> unat ident" for j
    using that len assms(2) by (simp add: registered4_def Let_def)
  have "registry_inv ?t \<and> devices_of ?t = (devices_of s)(unat ident \<mapsto> label (slot ?t (unat ident)))"
    using registry_inv_occupy [OF r assms(2,3) _ _ others, of h] len assms(2,4)
    by (simp add: registered4_def Let_def device_create_def)
  then show "inv4 ?t" "devices_of ?t = (devices_of s)(unat ident \<mapsto> label_array lbl)"
    using assms(1,2) len by (auto simp: inv4_def registered4_def Let_def)
qed

lemma failed4_inv:
  assumes "inv4 s" and "i < 8" and "\<not> busy (slot s i)"
  shows "r \<noteq> 0 \<Longrightarrow> inv4 (call (Cdev_Add i devt r) (call (Cdev_Init i owner) s)) \<and>
           devices_of (call (Cdev_Add i devt r) (call (Cdev_Init i owner) s)) = devices_of s"
    and "inv4 (call (Cdev_Del i) (call (Device_Create parent devt name (ErrDev err))
               (upd_slot i (\<lambda>c. c\<lparr>dev := ErrDev err\<rparr>)
                 (call (Cdev_Add i devt 0) (call (Cdev_Init i owner) s))))) \<and>
         devices_of (call (Cdev_Del i) (call (Device_Create parent devt name (ErrDev err))
               (upd_slot i (\<lambda>c. c\<lparr>dev := ErrDev err\<rparr>)
                 (call (Cdev_Add i devt 0) (call (Cdev_Init i owner) s))))) = devices_of s"
proof -
  have r: "registry_inv s" and len: "length (chrdev_array s) = 8"
    using assms(1) by (simp_all add: inv4_def inv4_length)
  show "inv4 (call (Cdev_Add i devt r) (call (Cdev_Init i owner) s)) \<and>
        devices_of (call (Cdev_Add i devt r) (call (Cdev_Init i owner) s)) = devices_of s"
    if "r \<noteq> 0"
    using registry_inv_frame [OF r, of "call (Cdev_Add i devt r) (call (Cdev_Init i owner) s)"]
      that len assms(1) by (simp add: inv4_def)
  let ?t = "call (Cdev_Del i) (call (Device_Create parent devt name (ErrDev err))
               (upd_slot i (\<lambda>c. c\<lparr>dev := ErrDev err\<rparr>)
                 (call (Cdev_Add i devt 0) (call (Cdev_Init i owner) s))))"
  have "i \<notin> live_cdevs (ktrace s)"
    using assms(3) registry_invD(3) [OF r] by (simp add: busy_ids_def)
  then show "inv4 ?t \<and> devices_of ?t = devices_of s"
    using registry_inv_frame [OF r, of ?t] len assms by (simp add: inv4_def)
qed

lemma register4_returns:
  assumes inv: "inv4 s" and lbl: "is_cstr lbl" and env: "env_ok e"
  shows "\<exists>r s'. chrdev_device_register4 e lbl ident ro owner parent s = Inr (r, s') \<and> inv4 s' \<and>
           (if r = 0 then unat ident < 8 \<and> devices_of s (unat ident) = None \<and>
               devices_of s' = (devices_of s)(unat ident \<mapsto> label_array lbl)
            else devices_of s' = devices_of s)"
proof (cases "unat ident < 8 \<and> \<not> busy (slot s (unat ident))")
  case False
  then show ?thesis
    using register4_branches(1,2) [OF lbl inv4_length [OF inv], of ident e ro owner parent] inv
    by (cases "unat ident < 8") auto
next
  case True
  note branches = register4_branches(3-5) [OF lbl inv4_length [OF inv], of ident e]
  note failed = failed4_inv [OF inv, of "unat ident"]
  show ?thesis
  proof (cases "cdev_add_ret e = 0")
    case False
    with True show ?thesis
      using branches(1) failed(1) by auto
  next
    case added: True
    show ?thesis
    proof (cases "device_create_ret e")
      case (Inl err)
      with env have "err \<noteq> 0" by (auto simp: env_ok_def)
      with True added Inl show ?thesis
        using branches(2) [of err ro owner parent] failed(2) by (fastforce simp del: live_append)
    next
      case (Inr h)
      with True added show ?thesis
        using branches(3) [of h ro owner parent] registered4_inv [OF inv, of ident e h]
        by (auto simp: devices_of_busy)
    qed
  qed
qed

lemma unregister4_returns:
  assumes inv: "inv4 s" and lbl: "is_cstr lbl"
    and known: "\<And>l. devices_of s (unat ident) = Some l \<Longrightarrow> is_cstr l"
  shows "\<exists>r s'. chrdev_device_unregister4 lbl ident s = Inr (r, s') \<and> inv4 s' \<and>
           (if r = 0 then names (devices_of s) (unat ident) lbl \<and>
                          devices_of s' = (devices_of s)(unat ident := None)
            else \<not> names (devices_of s) (unat ident) lbl \<and> devices_of s' = devices_of s)"
proof (cases "unat ident < 8 \<and> busy (slot s (unat ident))")
  case False
  then show ?thesis
    using inv by (auto simp: chrdev_device_unregister4_def MAX_DEVICES_le names_def devices_of_def)
next
  case True
  let ?i = "unat ident"
  have r: "registry_inv s" and len: "length (chrdev_array s) = 8"
    using inv by (simp_all add: inv4_def inv4_length)
  have view: "devices_of s ?i = Some (label (slot s ?i))"
    using True by (simp add: devices_of_def)
  obtain c where c: "strcmp (label (slot s ?i)) lbl = Inr c"
    "c = 0 \<longleftrightarrow> str_of (label (slot s ?i)) = str_of lbl"
    using strcmp_cstr [OF known [OF view] lbl] by blast
  obtain h where h: "dev (slot s ?i) = Dev h (MKDEV (MAJOR (chrdev_devt s)) (of_nat ?i))"
    using registry_invD(2) [OF r, of ?i] True by (auto simp: slot_ok_def)
  show ?thesis
  proof (cases "c = 0")
    case False
    then show ?thesis
      using True c inv view
      by (auto simp: chrdev_device_unregister4_def MAX_DEVICES_le names_def)
  next
    case zero: True
    let ?t = "call (Cdev_Del ?i) (call (Device_Destroy (MKDEV (MAJOR (chrdev_devt s)) (of_nat ?i)))
                (upd_slot ?i (\<lambda>d. d\<lparr>devid := 0, busy := False\<rparr>) s))"
    have eq: "chrdev_device_unregister4 lbl ident s = Inr (0, ?t)"
      using True c(1) zero h len by (simp add: chrdev_device_unregister4_def MAX_DEVICES_le Let_def)
    have others: "chrdev_base.truncate (slot ?t j) = chrdev_base.truncate (slot s j)"
      if "j < 8" "j \<noteq> ?i" for j
      using that len True by simp
    have "length (label (slot s ?i)) = 32"
      using registry_invD(2) [OF r, of ?i] True by (simp add: slot_ok_def)
    then have "registry_inv ?t \<and> devices_of ?t = (devices_of s)(?i := None)"
      using registry_inv_vacate [OF r _ _ _ others, of ?i] True len by simp
    then show ?thesis
      using eq c(2) zero view inv len True by (auto simp: names_def inv4_def)
  qed
qed

interpretation reg4: chrdev_registry chrdev_device_register4 chrdev_device_unregister4 inv4
  devices_of "\<lambda>e s. env_ok e" "\<lambda>e s. env_succeeds e"
proof (unfold_locales, goal_cases)
  case (1 s m e ident ro owner parent)
  then show ?case by (rule register4_returns)
next
  case (2 s m e ident ro owner parent)
  then show ?case
    using register4_branches(5) [OF 2(2) inv4_length [OF 2(1)], of ident e]
    by (fastforce simp: env_succeeds_def devices_of_busy)
next
  case (3 s m ident)
  then show ?case by (rule unregister4_returns)
qed

section \<open>Properties of the file methods\<close>

text \<open>A small concrete state for the witnesses: device 0 registered as \<open>"a"\<close> and opened.\<close>

definition sample_env4 :: reg_env where
  "sample_env4 = \<lparr>cdev_add_ret = 0, device_create_ret = Inr 7\<rparr>"

definition sample4 :: drv4 where
  "sample4 = registered4 sample_env4 (cstr ''a'') 0 0 1 2 ''a@0'' start4"

definition sample_file :: ofile where
  "sample_file = \<lparr>private_data = Some 0, f_pos = 0\<rparr>"

lemma sample4_inv: "inv4 sample4"
  unfolding sample4_def
  by (rule registered4_inv(1) [OF inv4_start, of 0 sample_env4 7])
    (simp_all add: start4_def slot_def zero_dev4_def sample_env4_def)

lemma sample4_slot:
  "slot sample4 0 = \<lparr>label = label_array (cstr ''a''), busy = True, read_only = 0, devid = 0,
                     dev = Dev 7 (MKDEV 0 0), buf4 = replicate 300 0\<rparr>"
  by (simp add: sample4_def registered4_def start4_def slot_def upd_slot_def call_def
      sample_env4_def device_create_def zero_dev4_def Let_def)

lemma sample4_opened: "opened4 (sample4, sample_file)" and sample4_writable: "writable4 (sample4, sample_file)"
  using sample4_inv by (simp_all add: opened4_def writable4_def sample_file_def sample4_slot)

text \<open>A read at a position inside the buffer delivers the bytes between the position and the
  end of the buffer, at most \<open>count\<close> of them, never reads outside the buffer, never fails, and
  moves the position by what it returns; if some bytes could not be copied it still reports all.\<close>

lemma read4_window:
  assumes "opened4 (s, filp)" and "unat pos \<le> 300" and "unat pos + unat count < 2 ^ 64"
    and "copy_ok f" and "n = min (unat count) (300 - unat pos)"
  shows "chrdev_read4 f s filp count pos =
         Inr (of_nat n, pos + of_nat n,
              take (n - unat (f (of_nat n))) (drop (unat pos) (contents4 (s, filp)))) \<and>
         unat (pos + of_nat n) = unat pos + n \<and> unat pos + n \<le> 300"
proof -
  have io: "io_ok BUF_LEN4 pos count f" and n: "n = moved BUF_LEN4 pos count"
    using assms by (simp_all add: io_ok_def moved_def)
  show ?thesis
    using read4_result [OF assms(1) io] unat_add_moved [OF io_okD(1) [OF io], of count]
      moved_fits [OF io_okD(1) [OF io], of count]
    by (simp add: n)
qed

lemma read4_window_witness:
  "chrdev_read4 (\<lambda>_. 0) sample4 sample_file 5 298 =
     Inr (of_nat 2, 298 + of_nat 2, take 2 (drop 298 (contents4 (sample4, sample_file))))"
proof -
  have "copy_ok (\<lambda>_. 0)" and "unat (298 :: s64) \<le> 300" and "unat (298 :: s64) + unat (5 :: u64) < 2 ^ 64"
    and "2 = min (unat (5 :: u64)) (300 - unat (298 :: s64))"
    by (simp_all add: copy_ok_def)
  from read4_window [OF sample4_opened this(2,3,1,4)] show ?thesis
    by (simp only: unsigned_0 unat_numeral minus_nat.diff_0) simp
qed

text \<open>What a write stores at a position inside a writable device's buffer is what a read of the
  same length at the same position returns, and both report the same number of bytes.\<close>

lemma write4_read4:
  assumes "opened4 (s, filp)" and "writable4 (s, filp)" and "unat pos \<le> 300"
    and "unat pos + unat count < 2 ^ 64" and "unat count \<le> length usr"
    and "n = min (unat count) (300 - unat pos)"
  shows "\<exists>s'. chrdev_write4 (\<lambda>_. 0) usr s filp count pos = Inr (of_nat n, pos + of_nat n, s') \<and>
              chrdev_read4 (\<lambda>_. 0) s' filp count pos = Inr (of_nat n, pos + of_nat n, take n usr)"
proof -
  have n: "n = moved BUF_LEN4 pos count"
    using assms(6) by (simp add: moved_def)
  show ?thesis
    using io4.write_read [OF assms(1,2) _ assms(4,5)] assms(3)
    by (auto simp: n map_sum_def split: sum.splits)
qed

lemma write4_read4_witness:
  "\<exists>s'. chrdev_write4 (\<lambda>_. 0) [1, 2, 3] sample4 sample_file 3 10 = Inr (of_nat 3, 10 + of_nat 3, s') \<and>
        chrdev_read4 (\<lambda>_. 0) s' sample_file 3 10 = Inr (of_nat 3, 10 + of_nat 3, [1, 2, 3])"
proof -
  have "unat (10 :: s64) \<le> 300" and "unat (10 :: s64) + unat (3 :: u64) < 2 ^ 64"
    and "unat (3 :: u64) \<le> length [1, 2, 3 :: byte]"
    and "3 = min (unat (3 :: u64)) (300 - unat (10 :: s64))"
    by simp_all
  from write4_read4 [OF sample4_opened sample4_writable this]
  have "\<exists>s'. chrdev_write4 (\<lambda>_. 0) [1, 2, 3] sample4 sample_file 3 10 = Inr (of_nat 3, 10 + of_nat 3, s') \<and>
        chrdev_read4 (\<lambda>_. 0) s' sample_file 3 10 = Inr (of_nat 3, 10 + of_nat 3, take 3 [1, 2, 3])" .
  moreover have "take 3 [1, 2, 3 :: byte] = [1, 2, 3]" by simp
  ultimately show ?thesis by (simp only:)
qed

text \<open>A write at a position beyond the buffer (\<open>pwrite\<close> accepts any) is not refused: the
  remaining space wraps to a huge count and the copy leaves the buffer, whatever the user's
  memory holds.\<close>

lemma write4_past_end:
  assumes "private_data filp = Some i" and "length (buf4 (slot s i)) = 300"
    and "read_only (slot s i) = 0" and "300 < unat pos" and "unat pos + unat count < 2 ^ 64"
  shows "chrdev_write4 f usr s filp count pos = Inl OutOfBounds"
proof -
  let ?n = "clamp_count BUF_LEN4 pos count"
  have "unat ?n = 2 ^ 64 - (unat pos - 300)"
    using clamp_count_past_end [of BUF_LEN4 pos count] assms(4,5) by simp
  then have pos: "0 < unat ?n"
    using unat_lt64 [of pos] by simp
  have "mem_write (buf4 (slot s i)) (unat pos) (from_user usr (unat ?n) (unat (f ?n))) = Inl OutOfBounds"
  proof (rule mem_write_out)
    show "from_user usr (unat ?n) (unat (f ?n)) \<noteq> []"
      using pos length_from_user [of usr "unat ?n" "unat (f ?n)"]
      by (metis length_greater_0_conv)
    show "length (buf4 (slot s i)) < unat pos + length (from_user usr (unat ?n) (unat (f ?n)))"
      using assms(2,4) by simp
  qed
  then show ?thesis
    by (simp add: chrdev_write4_def assms(1,3) Let_def)
qed

lemma write4_past_end_witness:
  "chrdev_write4 (\<lambda>_. 0) [65] sample4 sample_file 1 301 = Inl OutOfBounds"
  by (rule write4_past_end [of _ 0]) (simp_all add: sample_file_def sample4_slot)

section \<open>Properties of the registrations\<close>

text \<open>C13: a registration that fails, at whatever point, leaves the registered devices and the
  kernel objects the driver holds exactly as they were; one that succeeds adds exactly the
  device, under a free identifier below \<open>MAX_DEVICES\<close>, with its \<open>cdev\<close> and its device node.\<close>

theorem register4_all_or_nothing:
  assumes "inv4 s" and "is_cstr lbl" and "env_ok e"
  shows "\<exists>r s'. chrdev_device_register4 e lbl ident ro owner parent s = Inr (r, s') \<and> inv4 s' \<and>
     (if r = 0
      then unat ident < 8 \<and> devices_of s (unat ident) = None \<and>
           devices_of s' = (devices_of s)(unat ident \<mapsto> label_array lbl) \<and>
           live_cdevs (ktrace s') = insert (unat ident) (live_cdevs (ktrace s))
      else devices_of s' = devices_of s \<and> live_cdevs (ktrace s') = live_cdevs (ktrace s))"
proof -
  from register4_returns [OF assms, of ident ro owner parent] obtain r s' where
    eq: "chrdev_device_register4 e lbl ident ro owner parent s = Inr (r, s')" and inv: "inv4 s'"
    and v: "if r = 0 then unat ident < 8 \<and> devices_of s (unat ident) = None \<and>
               devices_of s' = (devices_of s)(unat ident \<mapsto> label_array lbl)
            else devices_of s' = devices_of s" by blast
  have ids: "live_cdevs (ktrace t) = dom (devices_of t)" if "inv4 t" for t
    using that by (auto simp: inv4_def registry_inv_def busy_ids_def devices_of_def)
  from eq inv v show ?thesis
    by (auto simp: ids [OF inv] ids [OF assms(1)] split: if_splits)
qed

theorem register4_all_or_nothing_witness:
  "\<exists>r s'. chrdev_device_register4 sample_env4 (cstr ''b'') 0 0 1 2 sample4 = Inr (r, s') \<and> inv4 s'"
  using register4_all_or_nothing [OF sample4_inv is_cstr_cstr, of sample_env4 "''b''" 0 0 1 2]
  by (auto simp: env_ok_def sample_env4_def)

text \<open>A device registered under a label of 32 characters or more cannot be unregistered under
  that label: the stored copy has no terminator and the comparison runs off the array.\<close>

lemma unregister4_long_label:
  assumes "inv4 s" and "is_cstr lbl" and "32 \<le> length (str_of lbl)"
    and "unat ident < 8" and "devices_of s (unat ident) = None"
    and "env_ok e" and "env_succeeds e"
  shows "\<exists>s'. chrdev_device_register4 e lbl ident ro owner parent s = Inr (0, s') \<and>
              chrdev_device_unregister4 lbl ident s' = Inl OutOfBounds"
proof -
  from reg4.register_succeeds [OF assms(1,2,6,7,4,5), of ro owner parent] obtain s' where
    s': "chrdev_device_register4 e lbl ident ro owner parent s = Inr (0, s')" by blast
  with register4_returns [OF assms(1,2,6), of ident ro owner parent]
  have "devices_of s' (unat ident) = Some (label_array lbl)"
    by auto
  then have d: "busy (slot s' (unat ident))" "label (slot s' (unat ident)) = take 32 (str_of lbl)"
    by (simp_all add: devices_of_Some label_array_long(1) [OF assms(3)])
  have "str_of lbl = take (length (str_of lbl)) lbl"
    unfolding str_of_def by (rule takeWhile_eq_take)
  then have "take 32 lbl = take 32 (str_of lbl)"
    using assms(3) by (metis min.absorb1 take_take)
  moreover have "NUL \<notin> set (take 32 (str_of lbl))"
    using NUL_notin_str_of [of lbl] by (meson in_set_takeD)
  ultimately have "strcmp (take 32 (str_of lbl)) lbl = Inl OutOfBounds"
    using assms(3) by (intro strcmp_prefix_fault) simp_all
  then have "chrdev_device_unregister4 lbl ident s' = Inl OutOfBounds"
    using assms(4) d by (simp add: chrdev_device_unregister4_def MAX_DEVICES_le)
  with s' show ?thesis by blast
qed

lemma unregister4_long_label_witness:
  "\<exists>s'. chrdev_device_register4 sample_env4 (cstr (replicate 32 (CHR ''x''))) 3 0 1 2 sample4 = Inr (0, s') \<and>
        chrdev_device_unregister4 (cstr (replicate 32 (CHR ''x''))) 3 s' = Inl OutOfBounds"
proof (rule unregister4_long_label [OF sample4_inv is_cstr_cstr])
  have "str_of (cstr (replicate 32 (CHR ''x''))) = replicate 32 (CHR ''x'')"
    by (rule str_of_cstr) (simp add: NUL_def)
  then show "32 \<le> length (str_of (cstr (replicate 32 (CHR ''x''))))" by simp
  show "devices_of sample4 (unat (3 :: u32)) = None"
    by (simp add: devices_of_def sample4_def registered4_def start4_def slot_def upd_slot_def
        call_def zero_dev4_def Let_def)
qed (simp_all add: env_ok_def env_succeeds_def sample_env4_def)

section \<open>Life cycle of the module\<close>

text \<open>The start: either it holds a device class and a region of numbers, or it holds nothing new.\<close>

lemma init4_state:
  assumes "chrdev_init4 e s = (r, s')"
  shows "chrdev_array s' = chrdev_array s"
    and "live_cdevs (ktrace s') = live_cdevs (ktrace s)"
    and "live_devices (ktrace s') = live_devices (ktrace s)"
  using assms by (auto simp: chrdev_init4_def Let_def split: if_splits)

lemma init4_start_inv:
  assumes "chrdev_init4 e start4 = (r, s')"
  shows "inv4 s'" and "devices_of s' i = None"
proof -
  note same = init4_state [OF assms]
  have free: "slot s' i = zero_dev4" if "i < 8" for i
    using that same(1) by (simp add: slot_def start4_def)
  have "busy_ids s' = {}"
    using free by (auto simp: busy_ids_def zero_dev4_def)
  then show "inv4 s'"
    using free same by (simp add: inv4_def registry_inv_def slot_ok_def zero_dev4_def start4_def)
  show "devices_of s' i = None"
    using free by (simp add: devices_of_def zero_dev4_def)
qed

text \<open>From module start, any sequence of registrations and unregistrations under terminated
  labels of fewer than 32 characters, whatever the kernel answers to each, runs without a fault, and
  at its end the driver holds a \<open>cdev\<close> and a device node for exactly the busy slots: nothing
  leaks on any error path.\<close>

lemma registry4_no_leak:
  assumes "chrdev_init4 e start4 = (0, s)" and "list_all short_label ops"
    and "list_all (env_of env_ok) ops"
  shows "\<exists>s'. reg_run chrdev_device_register4 chrdev_device_unregister4 ops s = Inr s' \<and>
     live_cdevs (ktrace s') = {i. i < 8 \<and> busy (slot s' i)} \<and>
     live_devices (ktrace s') =
       (\<lambda>i. MKDEV (MAJOR (chrdev_devt s')) (of_nat i)) ` {i. i < 8 \<and> busy (slot s' i)}"
proof -
  note start = init4_start_inv [OF assms(1)]
  from reg4.reg_run_returns [OF start(1) _ assms(2) _ assms(3)] start(2)
  obtain s' where s': "reg_run chrdev_device_register4 chrdev_device_unregister4 ops s = Inr s'"
    and "registry_inv s'" by (auto simp: inv4_def)
  then show ?thesis
    by (auto simp: registry_inv_def busy_ids_def)
qed

definition init_env_ok :: init_env where
  "init_env_ok = \<lparr>class_create_ret = Class 1, alloc_region_ret = 0, alloc_region_devt = MKDEV 240 0\<rparr>"

lemma registry4_no_leak_witness:
  "\<exists>s'. reg_run chrdev_device_register4 chrdev_device_unregister4
         [Register sample_env4 (cstr ''a'') 3 0 1 2,
          Register \<lparr>cdev_add_ret = 0, device_create_ret = Inl (- ENOMEM)\<rparr> (cstr ''b'') 4 0 1 2,
          Unregister (cstr ''a'') 3]
         (snd (chrdev_init4 init_env_ok start4)) = Inr s' \<and>
     live_cdevs (ktrace s') = {i. i < 8 \<and> busy (slot s' i)}"
proof -
  have init: "chrdev_init4 init_env_ok start4 = (0, snd (chrdev_init4 init_env_ok start4))"
    by (simp add: chrdev_init4_def init_env_ok_def Let_def)
  have "str_of (cstr ''a'') = ''a''" "str_of (cstr ''b'') = ''b''"
    by (simp_all add: str_of_cstr NUL_def)
  then show ?thesis
    using registry4_no_leak [OF init, of
        "[Register sample_env4 (cstr ''a'') 3 0 1 2,
          Register \<lparr>cdev_add_ret = 0, device_create_ret = Inl (- ENOMEM)\<rparr> (cstr ''b'') 4 0 1 2,
          Unregister (cstr ''a'') 3]"]
    by (auto simp: short_label_def env_of_def env_ok_def sample_env4_def negative_def)
qed

text \<open>An error pointer from \<open>class_create()\<close> passes the null check: the module start reports
  success with an unusable class.\<close>

lemma init4_misses_class_error:
  assumes "class_create_ret e = ErrClass err" and "\<not> negative (alloc_region_ret e)"
  shows "fst (chrdev_init4 e s) = 0 \<and> chrdev_class (snd (chrdev_init4 e s)) = ErrClass err"
  using assms by (simp add: chrdev_init4_def Let_def)

section \<open>The platform driver on this registry\<close>



text \<open>C38: a node without a \<open>reg\<close> or a \<open>label\<close> property is skipped by the probe, which still
  succeeds, but makes the removal of the same platform device reach \<open>BUG()\<close>.\<close>

theorem req4_skipped_node_bug:
  assumes "inv4 s" and "length children \<le> 8"
    and "\<And>c. c \<in> set children \<Longrightarrow> readable c \<and> length (str_of (node_label c)) < 32"
    and "\<exists>c \<in> set children. \<not> complete c"
    and "\<And>i l. devices_of s i = Some l \<Longrightarrow> is_cstr l"
    and "\<And>n s. env_ok (env n s)"
  shows "\<exists>s1. chrdev_req_probe chrdev_device_register4 env owner parent children s = Inr (0, s1) \<and>
              chrdev_req_remove chrdev_device_unregister4 children s1 = Inl KernelBug"
proof -
  have "\<exists>s1. probe_children chrdev_device_register4 env owner parent 0 children s = Inr s1 \<and>
      inv4 s1 \<and> devices_of s \<subseteq>\<^sub>m devices_of s1 \<and>
      (\<forall>i l. devices_of s1 i = Some l \<longrightarrow> devices_of s i = Some l \<or>
         (\<exists>c \<in> set children. complete c \<and> node_id c = i \<and> label_array (node_label c) = l))"
    by (rule reg4.probe_children_returns [OF assms(1)]) (use assms(3,6) in simp_all)
  then obtain s1 where
    s1: "probe_children chrdev_device_register4 env owner parent 0 children s = Inr s1" "inv4 s1"
    and v: "\<And>i l. devices_of s1 i = Some l \<Longrightarrow>
              devices_of s i = Some l \<or> (\<exists>c \<in> set children. label_array (node_label c) = l)"
    by blast
  have cstrs: "is_cstr l" if "devices_of s1 i = Some l" for i l
    using v [OF that] assms(3,5) label_array_short(1) by auto
  have "remove_children chrdev_device_unregister4 children s1 = Inl KernelBug"
    by (rule reg4.remove_incomplete_bug [OF s1(2)]) (use assms(3,4) cstrs in blast)+
  moreover have "children \<noteq> []"
    using assms(4) by auto
  ultimately show ?thesis
    using s1(1) assms(2) by (simp add: chrdev_req_probe_def chrdev_req_remove_def Let_def)
qed

theorem req4_skipped_node_bug_witness:
  "\<exists>s1. chrdev_req_probe chrdev_device_register4 (\<lambda>n s. sample_env4) 1 2
         [sample_node 2 ''eeprom'',
          (sample_node 4 ''x'')\<lparr>property_present := (\<lambda>p. p = ''label'')\<rparr>] start4 = Inr (0, s1) \<and>
     chrdev_req_remove chrdev_device_unregister4
         [sample_node 2 ''eeprom'',
          (sample_node 4 ''x'')\<lparr>property_present := (\<lambda>p. p = ''label'')\<rparr>] s1 = Inl KernelBug"
proof (rule req4_skipped_node_bug [OF inv4_start])
  have "str_of (cstr ''eeprom'') = ''eeprom''" "str_of (cstr ''x'') = ''x''"
    by (simp_all add: str_of_cstr NUL_def)
  then show "readable c \<and> length (str_of (node_label c)) < 32"
    if "c \<in> set [sample_node 2 ''eeprom'',
          (sample_node 4 ''x'')\<lparr>property_present := (\<lambda>p. p = ''label'')\<rparr>]" for c
    using that by (auto simp: readable_def complete_def node_label_def sample_node_def)
  show "\<exists>c \<in> set [sample_node 2 ''eeprom'',
          (sample_node 4 ''x'')\<lparr>property_present := (\<lambda>p. p = ''label'')\<rparr>]. \<not> complete c"
    by (simp add: complete_def)
  show "is_cstr l" if "devices_of start4 i = Some l" for i l
    using that by (auto simp: devices_of_def start4_def slot_def zero_dev4_def split: if_splits)
qed (simp_all add: env_ok_def sample_env4_def)

end
