(* ===== verification/Platform.thy ===== *)
theory Platform
  imports Chrdev_Req
begin

text \<open>
  How the platform drivers of \<^verbatim>\<open>chrdev-req.c\<close> and \<^verbatim>\<open>chrdev-fw.c\<close> are bound to devices: the tables
  \<^verbatim>\<open>of_chrdev_req_match\<close>, the structures \<^verbatim>\<open>chrdev_req_driver\<close>, and what
  \<open>module_platform_driver()\<close> makes of them. The bus is the kernel's: when the driver's module is
  loaded each unbound device that matches is probed and stays bound if the probe answers 0; when
  it is unloaded each bound device is removed. The lemmas follow the registry through the bus:
  whatever is registered was asked for by a node of a bound device, so that nothing is left when
  the last one is gone.
\<close>

section \<open>Tables of identifiers\<close>

text \<open>An entry whose strings are all empty ends a table; a table without one is read past its end.\<close>

record of_device_id =
  of_compatible :: string

fun of_match :: "of_device_id list \<Rightarrow> string list \<Rightarrow> fault + bool" where
  "of_match [] strs = Inl OutOfBounds"
| "of_match (e # es) strs =
     (if of_compatible e = [] then Inr False
      else if of_compatible e \<in> set strs then Inr True
      else of_match es strs)"

text \<open>\<^verbatim>\<open>Chapter04/chrdev/chrdev-req.c\<close>, and the same text in chapter 7.\<close>

definition of_chrdev_req_match :: "of_device_id list" where
  "of_chrdev_req_match = [\<lparr>of_compatible = ''ldddc,chrdev''\<rparr>, \<lparr>of_compatible = []\<rparr>]"

definition of_chrdev_fw_match :: "of_device_id list" where
  "of_chrdev_fw_match = [\<lparr>of_compatible = ''ldddc,chrdev-fw_wait''\<rparr>,
                         \<lparr>of_compatible = ''ldddc,chrdev-fw_nowait''\<rparr>, \<lparr>of_compatible = []\<rparr>]"

lemma of_match_req: "of_match of_chrdev_req_match strs = Inr (''ldddc,chrdev'' \<in> set strs)"
  by (simp add: of_chrdev_req_match_def)

lemma of_match_fw:
  "of_match of_chrdev_fw_match strs =
   Inr (''ldddc,chrdev-fw_wait'' \<in> set strs \<or> ''ldddc,chrdev-fw_nowait'' \<in> set strs)"
  by (simp add: of_chrdev_fw_match_def)

section \<open>Devices and drivers\<close>

text \<open>A device of the device tree: its name, its \<open>compatible\<close> strings, its node and the child nodes.\<close>

record platform_device =
  pdev_name :: string
  pdev_compat :: "string list"
  pdev_node :: fwnode
  pdev_children :: "fwnode list"

record ('p, 'r) platform_driver =
  pd_probe :: 'p
  pd_remove :: 'r
  pd_name :: string
  pd_match_table :: "of_device_id list"

text \<open>A probe gets the kernel's answers, the module, and the device with its number.\<close>

type_synonym ('e, 's) probe_fun =
  "(nat \<Rightarrow> 's \<Rightarrow> 'e) \<Rightarrow> nat \<Rightarrow> nat \<Rightarrow> platform_device \<Rightarrow> 's \<Rightarrow> fault + (s32 \<times> 's)"

type_synonym 's remove_fun = "platform_device \<Rightarrow> 's \<Rightarrow> fault + (s32 \<times> 's)"

definition chrdev_req_driver ::
  "('e, 's) register_fun \<Rightarrow> 's unregister_fun \<Rightarrow> (('e, 's) probe_fun, 's remove_fun) platform_driver" where
  "chrdev_req_driver register unregister =
     \<lparr>pd_probe = (\<lambda>env owner p pdev. chrdev_req_probe register env owner p (pdev_children pdev)),
      pd_remove = (\<lambda>pdev. chrdev_req_remove unregister (pdev_children pdev)),
      pd_name = ''chrdev-req'', pd_match_table = of_chrdev_req_match\<rparr>"

lemma chrdev_req_driver_simps [simp]:
  "pd_probe (chrdev_req_driver reg unreg) env owner p pdev =
     chrdev_req_probe reg env owner p (pdev_children pdev)"
  "pd_remove (chrdev_req_driver reg unreg) pdev = chrdev_req_remove unreg (pdev_children pdev)"
  "pd_name (chrdev_req_driver reg unreg) = ''chrdev-req''"
  "pd_match_table (chrdev_req_driver reg unreg) = of_chrdev_req_match"
  by (simp_all add: chrdev_req_driver_def)

section \<open>The bus\<close>

text \<open>A device matches by an entry of the table or by having the driver's name.\<close>

definition platform_match :: "('p, 'r) platform_driver \<Rightarrow> platform_device \<Rightarrow> fault + bool" where
  "platform_match drv pdev =
     bindo (of_match (pd_match_table drv) (pdev_compat pdev)) (\<lambda>m. Inr (m \<or> pdev_name pdev = pd_name drv))"

text \<open>The state is the driver's with the list of bound devices.\<close>

definition bus_probe ::
  "(('e, 's) probe_fun, 's remove_fun) platform_driver \<Rightarrow> platform_device list \<Rightarrow>
   (nat \<Rightarrow> nat \<Rightarrow> 's \<Rightarrow> 'e) \<Rightarrow> nat \<Rightarrow> nat \<Rightarrow> 's \<times> nat list \<Rightarrow> fault + ('s \<times> nat list)" where
  "bus_probe drv tree env owner p = (\<lambda>(s, bound).
     if p \<in> set bound \<or> length tree \<le> p then Inr (s, bound)
     else bindo (platform_match drv (tree ! p)) (\<lambda>m.
       if \<not> m then Inr (s, bound)
       else bindo (pd_probe drv (env p) owner p (tree ! p) s) (\<lambda>(r, s).
         Inr (s, if r = 0 then p # bound else bound))))"

definition bus_remove ::
  "(('e, 's) probe_fun, 's remove_fun) platform_driver \<Rightarrow> platform_device list \<Rightarrow>
   nat \<Rightarrow> 's \<times> nat list \<Rightarrow> fault + ('s \<times> nat list)" where
  "bus_remove drv tree p = (\<lambda>(s, bound).
     if p \<notin> set bound then Inr (s, bound)
     else bindo (pd_remove drv (tree ! p) s) (\<lambda>(r, s). Inr (s, removeAll p bound)))"

fun bus_probe_all ::
  "(('e, 's) probe_fun, 's remove_fun) platform_driver \<Rightarrow> platform_device list \<Rightarrow>
   (nat \<Rightarrow> nat \<Rightarrow> 's \<Rightarrow> 'e) \<Rightarrow> nat \<Rightarrow> nat list \<Rightarrow> 's \<times> nat list \<Rightarrow> fault + ('s \<times> nat list)" where
  "bus_probe_all drv tree env owner [] sb = Inr sb"
| "bus_probe_all drv tree env owner (p # ps) sb =
     bindo (bus_probe drv tree env owner p sb) (bus_probe_all drv tree env owner ps)"

fun bus_remove_all ::
  "(('e, 's) probe_fun, 's remove_fun) platform_driver \<Rightarrow> platform_device list \<Rightarrow>
   nat list \<Rightarrow> 's \<times> nat list \<Rightarrow> fault + ('s \<times> nat list)" where
  "bus_remove_all drv tree [] sb = Inr sb"
| "bus_remove_all drv tree (p # ps) sb =
     bindo (bus_remove drv tree p sb) (bus_remove_all drv tree ps)"

text \<open>\<open>module_platform_driver()\<close>: registration of the driver when the module is loaded, and its end.\<close>

definition platform_driver_register ::
  "(('e, 's) probe_fun, 's remove_fun) platform_driver \<Rightarrow> platform_device list \<Rightarrow>
   (nat \<Rightarrow> nat \<Rightarrow> 's \<Rightarrow> 'e) \<Rightarrow> nat \<Rightarrow> 's \<Rightarrow> fault + ('s \<times> nat list)" where
  "platform_driver_register drv tree env owner s =
     bus_probe_all drv tree env owner [0..<length tree] (s, [])"

definition platform_driver_unregister ::
  "(('e, 's) probe_fun, 's remove_fun) platform_driver \<Rightarrow> platform_device list \<Rightarrow>
   's \<times> nat list \<Rightarrow> fault + 's" where
  "platform_driver_unregister drv tree sb =
     bindo (bus_remove_all drv tree (snd sb) sb) (\<lambda>(s, bound). Inr s)"

text \<open>The driver passes its own module to every registration, so only that owner matters.\<close>

definition owned_by :: "nat \<Rightarrow> ('e, 's) register_fun \<Rightarrow> ('e, 's) register_fun" where
  "owned_by owner register = (\<lambda>e lbl ident ro _ parent. register e lbl ident ro owner parent)"

lemma probe_children_owned:
  "probe_children (owned_by owner reg) env owner parent n cs s = probe_children reg env owner parent n cs s"
proof (induction cs arbitrary: n s)
  case (Cons c cs)
  have "probe_child (owned_by owner reg) e owner parent c s = probe_child reg e owner parent c s" for e
    by (simp add: probe_child_def owned_by_def)
  with Cons.IH show ?case by (cases "probe_child reg (env n s) owner parent c s") simp_all
qed simp

lemma bus_probe_owned:
  "bus_probe (chrdev_req_driver (owned_by owner reg) unreg) tree env owner p sb =
   bus_probe (chrdev_req_driver reg unreg) tree env owner p sb"
  unfolding bus_probe_def platform_match_def chrdev_req_driver_simps chrdev_req_probe_def
    probe_children_owned ..

lemma bus_probe_all_owned:
  "bus_probe_all (chrdev_req_driver (owned_by owner reg) unreg) tree env owner ps sb =
   bus_probe_all (chrdev_req_driver reg unreg) tree env owner ps sb"
proof (induction ps arbitrary: sb)
  case (Cons p ps)
  then show ?case
    by (cases "bus_probe (chrdev_req_driver reg unreg) tree env owner p sb") (simp_all add: bus_probe_owned)
qed simp

lemma platform_driver_register_owned:
  "platform_driver_register (chrdev_req_driver (owned_by owner reg) unreg) tree env owner s =
   platform_driver_register (chrdev_req_driver reg unreg) tree env owner s"
  by (simp add: platform_driver_register_def bus_probe_all_owned)

lemma bus_remove_owned:
  "bus_remove (chrdev_req_driver (owned_by owner reg) unreg) tree p sb =
   bus_remove (chrdev_req_driver reg unreg) tree p sb"
  unfolding bus_remove_def chrdev_req_driver_simps ..

lemma platform_driver_unregister_owned:
  "platform_driver_unregister (chrdev_req_driver (owned_by owner reg) unreg) tree sb =
   platform_driver_unregister (chrdev_req_driver reg unreg) tree sb"
proof -
  have "bus_remove_all (chrdev_req_driver (owned_by owner reg) unreg) tree ps sb =
        bus_remove_all (chrdev_req_driver reg unreg) tree ps sb" for ps
  proof (induction ps arbitrary: sb)
    case (Cons p ps)
    then show ?case
      by (cases "bus_remove (chrdev_req_driver reg unreg) tree p sb") (simp_all add: bus_remove_owned)
  qed simp
  then show ?thesis by (simp add: platform_driver_unregister_def)
qed

section \<open>What the registry holds is what the bound devices asked for\<close>

text \<open>Every child of every device has both properties and a label that fits its array.\<close>

definition tree_ok :: "platform_device list \<Rightarrow> bool" where
  "tree_ok tree \<longleftrightarrow> (\<forall>pdev \<in> set tree. \<forall>c \<in> set (pdev_children pdev).
     complete c \<and> readable c \<and> length (str_of (node_label c)) < 32)"

definition asked_by :: "platform_device list \<Rightarrow> nat \<Rightarrow> nat \<Rightarrow> char list \<Rightarrow> bool" where
  "asked_by tree p i l \<longleftrightarrow>
     (\<exists>c \<in> set (pdev_children (tree ! p)). node_id c = i \<and> label_array (node_label c) = l)"

lemma asked_by_cstr:
  assumes "tree_ok tree" and "p < length tree" and "asked_by tree p i l"
  shows "is_cstr l"
proof -
  from assms(3) obtain c where c: "c \<in> set (pdev_children (tree ! p))" "l = label_array (node_label c)"
    by (auto simp: asked_by_def)
  with assms(1,2) have "length (str_of (node_label c)) < 32"
    by (auto simp: tree_ok_def)
  with c(2) show ?thesis using label_array_short(1) by blast
qed

text \<open>Nothing that a node names survives the removal of all the nodes.\<close>

lemma view_del_at:
  "view_del c v i = (if names v (node_id c) (node_label c) \<and> i = node_id c then None else v i)"
  by (auto simp: view_del_def)

lemma view_del_keeps_none: "v i = None \<Longrightarrow> view_del c v i = None"
  by (simp add: view_del_at)

lemma fold_view_del_none: "v i = None \<Longrightarrow> fold view_del cs v i = None"
  by (induction cs arbitrary: v) (simp_all add: view_del_keeps_none)

lemma fold_view_del_le: "fold view_del cs v i = Some l \<Longrightarrow> v i = Some l"
proof (induction cs arbitrary: v)
  case (Cons c cs)
  from Cons.IH [of "view_del c v"] Cons.prems show ?case
    by (auto simp: view_del_at split: if_splits)
qed simp

lemma fold_view_del_other: "i \<notin> node_id ` set cs \<Longrightarrow> fold view_del cs v i = v i"
  by (induction cs arbitrary: v) (auto simp: view_del_at)

lemma fold_view_del_gone:
  assumes "c \<in> set cs" and "length (str_of (node_label c)) < 32"
  shows "fold view_del cs v (node_id c) \<noteq> Some (label_array (node_label c))"
  using assms(1)
proof (induction cs arbitrary: v)
  case (Cons d cs)
  show ?case
  proof (cases "c \<in> set cs")
    case True
    then show ?thesis using Cons.IH by simp
  next
    case False
    then have d: "d = c" using Cons.prems by simp
    show ?thesis
    proof
      assume "fold view_del (d # cs) v (node_id c) = Some (label_array (node_label c))"
      then have after: "view_del c v (node_id c) = Some (label_array (node_label c))"
        using fold_view_del_le by (simp add: d)
      then have "names v (node_id c) (node_label c)"
        using label_array_short(2) [OF assms(2)] by (auto simp: names_def view_del_def split: if_splits)
      with after show False by (simp add: view_del_at)
    qed
  qed
qed simp

context chrdev_registry
begin

text \<open>
  The bus invariant: the bound devices exist, and each entry of the registry carries the label of
  a node of one of them.
\<close>

definition bus_ok :: "platform_device list \<Rightarrow> 's \<times> nat list \<Rightarrow> bool" where
  "bus_ok tree = (\<lambda>(s, bound). inv s \<and> set bound \<subseteq> {..<length tree} \<and>
     (\<forall>i l. view s i = Some l \<longrightarrow> (\<exists>p \<in> set bound. asked_by tree p i l)))"

lemma bus_ok_cstr:
  assumes "tree_ok tree" and "bus_ok tree (s, bound)" and "view s i = Some l"
  shows "is_cstr l"
proof -
  from assms(2,3) obtain p where "p \<in> set bound" "set bound \<subseteq> {..<length tree}" "asked_by tree p i l"
    unfolding bus_ok_def by fast
  then show ?thesis using asked_by_cstr [OF assms(1)] by blast
qed

lemma bus_ok_empty: "inv s \<Longrightarrow> (\<And>i. view s i = None) \<Longrightarrow> bus_ok tree (s, [])"
  by (simp add: bus_ok_def)

lemma bus_ok_unbound: "bus_ok tree (s, []) \<Longrightarrow> view s i = None"
  by (cases "view s i") (auto simp: bus_ok_def)

lemma bus_ok_state: "bus_ok tree (s, bound) \<Longrightarrow> inv s' \<Longrightarrow> view s' = view s \<Longrightarrow> bus_ok tree (s', bound)"
  by (simp add: bus_ok_def)

text \<open>A probe adds entries that the device's nodes ask for, if it succeeds; else it adds none.\<close>

lemma bus_probe_returns:
  assumes tree: "tree_ok tree" and ok: "bus_ok tree (s, bound)"
    and env: "\<And>p n s. inv s \<Longrightarrow> env_good (env p n s) s"
  shows "\<exists>s' bound'. bus_probe (chrdev_req_driver register unregister) tree env owner p (s, bound) =
           Inr (s', bound') \<and> bus_ok tree (s', bound') \<and> view s \<subseteq>\<^sub>m view s'"
proof (cases "p \<in> set bound \<or> length tree \<le> p \<or>
    \<not> (''ldddc,chrdev'' \<in> set (pdev_compat (tree ! p)) \<or> pdev_name (tree ! p) = ''chrdev-req'')")
  case True
  then show ?thesis
    using ok by (auto simp: bus_probe_def platform_match_def of_match_req)
next
  case False
  let ?cs = "pdev_children (tree ! p)"
  from False have p: "p < length tree" "p \<notin> set bound" by simp_all
  then have nodes: "complete c \<and> readable c" if "c \<in> set ?cs" for c
    using tree that by (auto simp: tree_ok_def)
  have inv: "inv s" and bound: "set bound \<subseteq> {..<length tree}"
    and from_old: "\<And>i l. view s i = Some l \<Longrightarrow> \<exists>p \<in> set bound. asked_by tree p i l"
    using ok by (auto simp: bus_ok_def)
  have probe: "bus_probe (chrdev_req_driver register unregister) tree env owner p (s, bound) =
      bindo (chrdev_req_probe register (env p) owner p ?cs s)
        (\<lambda>(r, s). Inr (s, if r = 0 then p # bound else bound))"
    using False by (auto simp: bus_probe_def platform_match_def of_match_req)
  show ?thesis
  proof (cases "?cs = [] \<or> 8 < length ?cs")
    case True
    then have "\<exists>r. chrdev_req_probe register (env p) owner p ?cs s = Inr (r, s) \<and> r \<noteq> 0"
      by (auto simp: chrdev_req_probe_def)
    then show ?thesis
      using ok by (auto simp: probe)
  next
    case False
    from probe_children_returns [where n = 0 and env = "env p" and owner = owner and parent = p and cs = ?cs,
        OF inv] nodes env obtain t where
      t: "probe_children register (env p) owner p 0 ?cs s = Inr t" "inv t" "view s \<subseteq>\<^sub>m view t"
      and from_new: "\<forall>i l. view t i = Some l \<longrightarrow> view s i = Some l \<or>
          (\<exists>c \<in> set ?cs. complete c \<and> node_id c = i \<and> label_array (node_label c) = l)" by auto
    have run: "chrdev_req_probe register (env p) owner p ?cs s = Inr (0, t)"
      using False t(1) by (auto simp: chrdev_req_probe_def Let_def)
    have "\<exists>q \<in> set (p # bound). asked_by tree q i l" if "view t i = Some l" for i l
    proof (cases "view s i = Some l")
      case True
      then show ?thesis using from_old by fastforce
    next
      case False
      then have "asked_by tree p i l" using from_new that unfolding asked_by_def by blast
      then show ?thesis by simp
    qed
    then have "bus_ok tree (t, p # bound)"
      using t(2) bound p(1) by (auto simp: bus_ok_def)
    with run t(3) show ?thesis by (auto simp: probe)
  qed
qed

lemma bus_probe_all_returns:
  assumes tree: "tree_ok tree" and "bus_ok tree (s, bound)"
    and env: "\<And>p n s. inv s \<Longrightarrow> env_good (env p n s) s"
  shows "\<exists>s' bound'. bus_probe_all (chrdev_req_driver register unregister) tree env owner ps (s, bound) =
           Inr (s', bound') \<and> bus_ok tree (s', bound') \<and> view s \<subseteq>\<^sub>m view s'"
  using assms(2)
proof (induction ps arbitrary: s bound)
  case Nil
  then show ?case by simp
next
  case (Cons p ps)
  from bus_probe_returns [OF tree Cons.prems, of env owner p] env obtain t b where
    t: "bus_probe (chrdev_req_driver register unregister) tree env owner p (s, bound) = Inr (t, b)"
      "bus_ok tree (t, b)" "view s \<subseteq>\<^sub>m view t" by blast
  from Cons.IH [OF t(2)] t(1,3) show ?case by (auto intro: map_le_trans)
qed

text \<open>A removal takes the entries of the device's nodes with it, and no other entry of another identifier.\<close>

lemma bus_remove_returns:
  assumes tree: "tree_ok tree" and ok: "bus_ok tree (s, bound)"
  shows "\<exists>s'. bus_remove (chrdev_req_driver register unregister) tree p (s, bound) =
           Inr (s', removeAll p bound) \<and> bus_ok tree (s', removeAll p bound) \<and>
           (\<forall>i. i \<notin> node_id ` set (pdev_children (tree ! p)) \<longrightarrow> view s' i = view s i)"
proof (cases "p \<in> set bound")
  case False
  then show ?thesis using ok by (auto simp: bus_remove_def)
next
  case True
  let ?cs = "pdev_children (tree ! p)"
  have inv: "inv s" and p: "p < length tree" and bound: "set bound \<subseteq> {..<length tree}"
    and asked: "\<And>i l. view s i = Some l \<Longrightarrow> \<exists>p \<in> set bound. asked_by tree p i l"
    using ok True by (auto simp: bus_ok_def)
  then have nodes: "complete c \<and> readable c \<and> length (str_of (node_label c)) < 32" if "c \<in> set ?cs" for c
    using tree that by (auto simp: tree_ok_def)
  from remove_children_returns [OF inv, of ?cs] nodes bus_ok_cstr [OF tree ok] obtain t where
    t: "remove_children unregister ?cs s = Inr t" "inv t" "view t = fold view_del ?cs (view s)" by blast
  have "\<exists>q \<in> set (removeAll p bound). asked_by tree q i l" if l: "view t i = Some l" for i l
  proof -
    from l have "view s i = Some l" using fold_view_del_le by (simp add: t(3))
    then obtain q where q: "q \<in> set bound" "asked_by tree q i l" using asked by blast
    have "q \<noteq> p"
    proof
      assume "q = p"
      with q(2) obtain c where c: "c \<in> set ?cs" "node_id c = i" "label_array (node_label c) = l"
        by (auto simp: asked_by_def)
      from fold_view_del_gone [OF c(1), of "view s"] nodes [OF c(1)] l c(2,3) show False
        by (simp add: t(3))
    qed
    with q show ?thesis by auto
  qed
  then have "bus_ok tree (t, removeAll p bound)"
    using t(2) bound by (auto simp: bus_ok_def)
  moreover have "view t i = view s i" if "i \<notin> node_id ` set ?cs" for i
    using that by (simp add: t(3) fold_view_del_other)
  ultimately show ?thesis
    using True t(1) by (auto simp: bus_remove_def chrdev_req_remove_def)
qed

lemma bus_remove_all_returns:
  assumes tree: "tree_ok tree" and "bus_ok tree (s, bound)"
  shows "\<exists>s'. bus_remove_all (chrdev_req_driver register unregister) tree ps (s, bound) =
           Inr (s', filter (\<lambda>p. p \<notin> set ps) bound) \<and> bus_ok tree (s', filter (\<lambda>p. p \<notin> set ps) bound)"
  using assms(2)
proof (induction ps arbitrary: s bound)
  case Nil
  then show ?case by simp
next
  case (Cons p ps)
  from bus_remove_returns [OF tree Cons.prems] obtain t where
    t: "bus_remove (chrdev_req_driver register unregister) tree p (s, bound) = Inr (t, removeAll p bound)"
      "bus_ok tree (t, removeAll p bound)" by blast
  have "filter (\<lambda>q. q \<notin> set ps) (removeAll p bound) = filter (\<lambda>q. q \<notin> set (p # ps)) bound"
    by (induction bound) auto
  with Cons.IH [OF t(2)] t(1) show ?case by simp
qed

text \<open>Loading the driver's module binds; unloading it leaves no entry in the registry.\<close>

lemma driver_register_returns:
  assumes "tree_ok tree" and "inv s" and "\<And>i. view s i = None"
    and "\<And>p n s. inv s \<Longrightarrow> env_good (env p n s) s"
  shows "\<exists>s' bound. platform_driver_register (chrdev_req_driver register unregister) tree env owner s =
           Inr (s', bound) \<and> bus_ok tree (s', bound)"
  unfolding platform_driver_register_def
  using bus_probe_all_returns [OF assms(1) bus_ok_empty [OF assms(2,3)], of env owner] assms(4) by blast

lemma driver_unregister_returns:
  assumes "tree_ok tree" and "bus_ok tree (s, bound)"
  shows "\<exists>s'. platform_driver_unregister (chrdev_req_driver register unregister) tree (s, bound) = Inr s' \<and>
           inv s' \<and> (\<forall>i. view s' i = None)"
proof -
  from bus_remove_all_returns [OF assms, of bound] obtain s' where
    s': "bus_remove_all (chrdev_req_driver register unregister) tree bound (s, bound) = Inr (s', [])"
      "bus_ok tree (s', [])" by auto
  then show ?thesis
    using bus_ok_unbound [OF s'(2)] by (simp add: platform_driver_unregister_def bus_ok_def)
qed

end

end
