(* ===== verification/Chrdev_Fw.thy ===== *)
theory Chrdev_Fw
  imports Chrdev4 Platform
begin

text \<open>
  \<^verbatim>\<open>Chapter04/chrdev/chrdev-fw.c\<close>: a platform driver that loads a firmware file, dumps
  it to the log and registers one character device with the chapter-4 driver. The firmware
  loader is the kernel's: what \<open>request_firmware()\<close> answers is an argument; the log of a
  run records the requests, the dumps and the releases.
\<close>

section \<open>Dumping data\<close>

text \<open>\<open>char\<close> is unsigned on the target, and a byte passes through unchanged.\<close>

definition printable :: "byte \<Rightarrow> byte" where
  "printable c = (if c < of_char (CHR '' '') \<or> of_char (CHR ''~'') < c then of_char (CHR ''-'') else c)"

text \<open>
  One line: the bytes at \<open>n\<close> up to \<open>n + 7\<close>, each printed as its value and its character.
  \<open>n\<close> and \<open>i\<close> are of type \<open>int\<close>; compared with the \<open>size_t\<close> \<open>len\<close>, they are converted.
\<close>

function dump_line :: "byte list \<Rightarrow> u64 \<Rightarrow> s32 \<Rightarrow> nat \<Rightarrow> fault + (byte \<times> byte) list" where
  "dump_line buf len n i =
     (if i < 8 \<and> scast (n + of_nat i) < len
      then bindo (mem_read buf (unat (n + of_nat i)) 1) (\<lambda>b.
           bindo (dump_line buf len n (Suc i)) (\<lambda>r. Inr ((hd b, printable (hd b)) # r)))
      else Inr [])"
  by pat_completeness auto

termination dump_line
  by (relation "measure (\<lambda>(buf, len, n, i). 8 - i)") auto

declare dump_line.simps [simp del]

partial_function (option) dump_loop ::
  "byte list \<Rightarrow> u64 \<Rightarrow> s32 \<Rightarrow> (fault + (byte \<times> byte) list list) option" where
  "dump_loop buf len n =
     (if scast n < len
      then (case dump_line buf len n 0 of
              Inl f \<Rightarrow> Some (Inl f)
            | Inr l \<Rightarrow> Option.bind (dump_loop buf len (n + of_nat (length l)))
                         (\<lambda>r. Some (map_sum id (Cons l) r)))
      else Some (Inr []))"

definition dump_data :: "byte list \<Rightarrow> u64 \<Rightarrow> (fault + (byte \<times> byte) list list) option" where
  "dump_data buf len = dump_loop buf len 0"

section \<open>Loading the firmware\<close>

datatype fw_event =
    Request string s32
  | Request_Nowait string s32
  | Dumped "(byte \<times> byte) list list"
  | Release

definition FIRMWARE_VER :: string where "FIRMWARE_VER = ''1.0.0''"

definition FIRMWARE_NLEN :: nat where "FIRMWARE_NLEN = 128"

text \<open>\<open>sprintf(fw_name, "%s-%s.bin", file, FIRMWARE_VER)\<close> into \<open>char fw_name[FIRMWARE_NLEN]\<close>.\<close>

definition fw_name :: "char list \<Rightarrow> fault + string" where
  "fw_name path =
     (let s = str_of path @ ''-'' @ FIRMWARE_VER @ ''.bin''
      in if length s < FIRMWARE_NLEN then Inr s else Inl OutOfBounds)"

text \<open>A dump that does not end has no result; the loader then has none either.\<close>

definition dump_event :: "byte list \<Rightarrow> (fault + fw_event) option" where
  "dump_event d = map_option (map_sum id Dumped) (dump_data d (of_nat (length d)))"

definition chrdev_fw_cb :: "byte list option \<Rightarrow> (fault + fw_event list) option" where
  "chrdev_fw_cb fw =
     (case fw of
        None \<Rightarrow> Some (Inr [])
      | Some d \<Rightarrow> map_option (\<lambda>ev. bindo ev (\<lambda>x. Inr [x, Release])) (dump_event d))"

definition chrdev_load_fw_wait ::
  "(string \<Rightarrow> s32 \<times> byte list) \<Rightarrow> char list \<Rightarrow> (fault + (s32 \<times> fw_event list)) option" where
  "chrdev_load_fw_wait request_firmware path =
     (case strlen path of
        Inl f \<Rightarrow> Some (Inl f)
      | Inr n \<Rightarrow>
          if 128 - 6 - Suc (length FIRMWARE_VER) < n then Some (Inr (- EINVAL, []))
          else (case fw_name path of
                  Inl f \<Rightarrow> Some (Inl f)
                | Inr name \<Rightarrow>
                    let (ret, d) = request_firmware name
                    in if ret \<noteq> 0 then Some (Inr (ret, [Request name ret]))
                       else map_option (\<lambda>ev. bindo ev (\<lambda>x. Inr (0, [Request name 0, x, Release])))
                              (dump_event d)))"

definition chrdev_load_fw_nowait ::
  "(string \<Rightarrow> s32) \<Rightarrow> char list \<Rightarrow> fault + (s32 \<times> fw_event list)" where
  "chrdev_load_fw_nowait request_firmware_nowait path =
     bindo (strlen path) (\<lambda>n.
       if 128 - 6 - Suc (length FIRMWARE_VER) < n then Inr (- EINVAL, [])
       else bindo (fw_name path) (\<lambda>name.
         let ret = request_firmware_nowait name
         in if ret \<noteq> 0 then Inr (ret, [Request_Nowait name ret])
            else Inr (0, [Request_Nowait name 0])))"

section \<open>The platform driver\<close>

record fw_env =
  compatible :: "string \<Rightarrow> bool"
  request_firmware :: "string \<Rightarrow> s32 \<times> byte list"
  request_firmware_nowait :: "string \<Rightarrow> s32"

definition fw_label :: "char list" where "fw_label = cstr ''chrdev-fw''"

definition fw_probe ::
  "fw_env \<Rightarrow> reg_env \<Rightarrow> nat \<Rightarrow> nat \<Rightarrow> fwnode \<Rightarrow> drv4 \<Rightarrow> (fault + (s32 \<times> fw_event list \<times> drv4)) option" where
  "fw_probe w e owner parent fwh s =
     (case property_string fwh ''firmware'' of
        None \<Rightarrow> Some (Inr (- EINVAL, [], s))
      | Some path \<Rightarrow>
          Option.bind
            (if compatible w ''ldddc,chrdev-fw_wait'' then chrdev_load_fw_wait (request_firmware w) path
             else if compatible w ''ldddc,chrdev-fw_nowait''
             then Some (chrdev_load_fw_nowait (request_firmware_nowait w) path)
             else Some (Inr (0, [])))
            (\<lambda>l. Some (bindo l (\<lambda>(ret, log).
               if ret \<noteq> 0 then Inr (ret, log, s)
               else bindo (chrdev_device_register4 e fw_label 0 0 owner parent s) (\<lambda>(ret, s).
                 if ret \<noteq> 0 then Inr (ret, log, s) else Inr (0, log, s))))))"

definition fw_remove :: "drv4 \<Rightarrow> fault + (s32 \<times> drv4)" where
  "fw_remove s = chrdev_device_unregister4 fw_label 0 s"

text \<open>
  The driver as the bus sees it: \<open>of_device_is_compatible()\<close> looks for a string among those of the
  device's node.
\<close>

definition fw_driver_probe ::
  "fw_env \<Rightarrow> reg_env \<Rightarrow> nat \<Rightarrow> nat \<Rightarrow> platform_device \<Rightarrow> drv4 \<Rightarrow> (fault + (s32 \<times> fw_event list \<times> drv4)) option" where
  "fw_driver_probe w e owner p pdev s =
     fw_probe (w\<lparr>compatible := (\<lambda>c. c \<in> set (pdev_compat pdev))\<rparr>) e owner p (pdev_node pdev) s"

definition chrdev_fw_driver ::
  "(fw_env \<Rightarrow> reg_env \<Rightarrow> nat \<Rightarrow> nat \<Rightarrow> platform_device \<Rightarrow> drv4 \<Rightarrow>
    (fault + (s32 \<times> fw_event list \<times> drv4)) option, platform_device \<Rightarrow> drv4 \<Rightarrow> fault + (s32 \<times> drv4)) platform_driver" where
  "chrdev_fw_driver =
     \<lparr>pd_probe = fw_driver_probe, pd_remove = (\<lambda>pdev. fw_remove),
      pd_name = ''chrdev-fw'', pd_match_table = of_chrdev_fw_match\<rparr>"

section \<open>The dump shows every byte\<close>

lemma scast_small:
  assumes "k < 2 ^ 31"
  shows "scast (of_nat k :: s32) = (of_nat k :: u64)"
proof -
  have "sint (of_nat k :: s32) = int k"
    using assms by (simp add: signed_of_nat signed_take_bit_int_eq_self)
  then show ?thesis by (simp add: scast_eq)
qed

lemma of_nat_less:
  assumes "k < 2 ^ 31" and "m < 2 ^ 31"
  shows "(of_nat k :: u64) < of_nat m \<longleftrightarrow> k < m"
  using assms by (simp add: word_less_nat_alt unsigned_of_nat take_bit_nat_eq_self)

lemma unat_small32: "k < 2 ^ 31 \<Longrightarrow> unat (of_nat k :: s32) = k"
  by (simp add: unsigned_of_nat take_bit_nat_eq_self)

definition shown :: "byte list \<Rightarrow> (byte \<times> byte) list" where
  "shown bs = map (\<lambda>b. (b, printable b)) bs"

lemma dump_line_at:
  assumes "length buf < 2 ^ 31 - 8" and "n \<le> length buf" and "i \<le> 8"
  shows "dump_line buf (of_nat (length buf)) (of_nat n) i = Inr (shown (take (8 - i) (drop (n + i) buf)))"
  using assms(3)
proof (induction "8 - i" arbitrary: i)
  case 0
  then show ?case by (subst dump_line.simps) (simp add: shown_def)
next
  case (Suc k)
  have sum: "(of_nat n :: s32) + of_nat i = of_nat (n + i)" by simp
  have small: "n + i < 2 ^ 31" "length buf < 2 ^ 31" using assms Suc by simp_all
  have less: "scast ((of_nat n :: s32) + of_nat i) < (of_nat (length buf) :: u64) \<longleftrightarrow> n + i < length buf"
    unfolding sum scast_small [OF small(1)] by (rule of_nat_less [OF small])
  show ?case
  proof (cases "n + i < length buf")
    case False
    then show ?thesis
      using less by (subst dump_line.simps) (simp add: shown_def)
  next
    case True
    have "mem_read buf (unat ((of_nat n :: s32) + of_nat i)) 1 = Inr [buf ! (n + i)]"
      unfolding sum unat_small32 [OF small(1)] using True
      by (simp add: mem_read_def take_Suc_conv_app_nth [of 0, simplified] flip: Cons_nth_drop_Suc)
    moreover have "dump_line buf (of_nat (length buf)) (of_nat n) (Suc i) =
        Inr (shown (take (8 - Suc i) (drop (n + Suc i) buf)))"
      using Suc by (intro Suc.hyps(1)) simp_all
    moreover have "take (8 - i) (drop (n + i) buf) = buf ! (n + i) # take (8 - Suc i) (drop (n + Suc i) buf)"
    proof -
      have "8 - i = Suc (8 - Suc i)" using Suc.hyps(2) by simp
      then show ?thesis using True by (simp flip: Cons_nth_drop_Suc)
    qed
    ultimately show ?thesis
      using True less Suc.hyps(2) by (subst dump_line.simps) (simp add: shown_def)
  qed
qed

text \<open>The reference: cut the data in pieces of eight.\<close>

function chunks :: "'a list \<Rightarrow> 'a list list" where
  "chunks xs = (if xs = [] then [] else take 8 xs # chunks (drop 8 xs))"
  by pat_completeness auto

termination chunks
  by (relation "measure length") auto

declare chunks.simps [simp del]

lemma concat_chunks: "concat (chunks xs) = xs"
proof (induction xs rule: chunks.induct)
  case (1 xs)
  then show ?case by (subst chunks.simps) auto
qed

lemma concat_shown: "concat (map shown xss) = shown (concat xss)"
  by (induction xss) (simp_all add: shown_def)

lemma dump_loop_at:
  assumes "length buf < 2 ^ 31 - 8" and "n \<le> length buf"
  shows "dump_loop buf (of_nat (length buf)) (of_nat n) = Some (Inr (map shown (chunks (drop n buf))))"
  using assms(2)
proof (induction "length buf - n" arbitrary: n rule: less_induct)
  case less
  have small: "n < 2 ^ 31" "length buf < 2 ^ 31" using assms(1) less.prems by simp_all
  have lt: "scast (of_nat n :: s32) < (of_nat (length buf) :: u64) \<longleftrightarrow> n < length buf"
    unfolding scast_small [OF small(1)] by (rule of_nat_less [OF small])
  show ?case
  proof (cases "n < length buf")
    case False
    then show ?thesis
      using lt less.prems by (subst dump_loop.simps) (simp add: chunks.simps)
  next
    case True
    let ?l = "take 8 (drop n buf)"
    have line: "dump_line buf (of_nat (length buf)) (of_nat n) 0 = Inr (shown ?l)"
      using dump_line_at [OF assms(1) less.prems, of 0] by simp
    have len: "length (shown ?l) = min 8 (length buf - n)" by (simp add: shown_def)
    let ?m = "n + min 8 (length buf - n)"
    have "(of_nat n :: s32) + of_nat (length (shown ?l)) = of_nat ?m"
      unfolding len by simp
    moreover have "dump_loop buf (of_nat (length buf)) (of_nat ?m) = Some (Inr (map shown (chunks (drop ?m buf))))"
      using True by (intro less.hyps) auto
    ultimately have "dump_loop buf (of_nat (length buf)) (of_nat n) =
        Some (Inr (shown ?l # map shown (chunks (drop ?m buf))))"
      using True lt line by (subst dump_loop.simps) (simp del: of_nat_add)
    moreover have "chunks (drop n buf) = ?l # chunks (drop ?m buf)"
      using True by (subst chunks.simps) (auto simp: min_def add.commute)
    ultimately show ?thesis by simp
  qed
qed

lemma dump_data_chunks:
  "length buf < 2 ^ 31 - 8 \<Longrightarrow> dump_data buf (of_nat (length buf)) = Some (Inr (map shown (chunks buf)))"
  using dump_loop_at [of buf 0] by (simp add: dump_data_def)

lemma printable_range: "32 \<le> printable b \<and> printable b \<le> 126"
  by (auto simp: printable_def not_less)

section \<open>Loading\<close>

lemma fw_name_fits:
  assumes "length (str_of path) \<le> 116"
  shows "fw_name path = Inr (str_of path @ ''-1.0.0.bin'')"
  using assms by (simp add: fw_name_def FIRMWARE_VER_def FIRMWARE_NLEN_def)

lemma load_fw_wait_cases:
  assumes "is_cstr path" and "\<And>name. length (snd (rq name)) < 2 ^ 31 - 8"
  shows "chrdev_load_fw_wait rq path = Some (Inr
     (if 116 < length (str_of path) then (- EINVAL, [])
      else let name = str_of path @ ''-1.0.0.bin'' in
           if fst (rq name) \<noteq> 0 then (fst (rq name), [Request name (fst (rq name))])
           else (0, [Request name 0, Dumped (map shown (chunks (snd (rq name)))), Release])))"
proof -
  let ?name = "str_of path @ ''-1.0.0.bin''"
  obtain ret d where rq: "rq ?name = (ret, d)" by (cases "rq ?name")
  with assms(2) [of ?name] have "dump_event d = Some (Inr (Dumped (map shown (chunks d))))"
    by (simp add: dump_event_def dump_data_chunks)
  with assms(1) rq show ?thesis
    by (auto simp: chrdev_load_fw_wait_def strlen_cstr FIRMWARE_VER_def fw_name_fits Let_def)
qed

lemma load_fw_nowait_cases:
  assumes "is_cstr path"
  shows "chrdev_load_fw_nowait rq path = Inr
     (if 116 < length (str_of path) then (- EINVAL, [])
      else let name = str_of path @ ''-1.0.0.bin'' in (rq name, [Request_Nowait name (rq name)]))"
  using assms
  by (auto simp: chrdev_load_fw_nowait_def strlen_cstr FIRMWARE_VER_def fw_name_fits Let_def)

section \<open>Properties\<close>

text \<open>C18: dumping data of less than 2 GiB ends, reads nothing outside the data, and shows every byte exactly
  once, in order, eight to a line, each beside a printable character.\<close>

theorem dump_data_complete:
  assumes "length buf < 2 ^ 31 - 8"
  shows "\<exists>ls. dump_data buf (of_nat (length buf)) = Some (Inr ls) \<and> map fst (concat ls) = buf \<and>
     ls = map shown (chunks buf) \<and> (\<forall>(b, c) \<in> set (concat ls). 32 \<le> c \<and> c \<le> 126)"
proof -
  have "concat (map shown (chunks buf)) = shown buf"
    by (simp only: concat_shown concat_chunks)
  moreover have "map fst (shown buf) = buf" by (simp add: shown_def comp_def)
  moreover have "32 \<le> c \<and> c \<le> 126" if "(b, c) \<in> set (shown buf)" for b c
    using that printable_range by (auto simp: shown_def)
  ultimately have "map fst (concat (map shown (chunks buf))) = buf \<and>
     (\<forall>(b, c) \<in> set (concat (map shown (chunks buf))). 32 \<le> c \<and> c \<le> 126)"
    by (simp only:) blast
  with dump_data_chunks [OF assms] show ?thesis by blast
qed

theorem dump_data_complete_witness:
  "\<exists>ls. dump_data [65, 10, 66] (of_nat 3) = Some (Inr ls) \<and> map fst (concat ls) = [65, 10, 66]"
  using dump_data_complete [of "[65, 10, 66]"] by auto

text \<open>The firmware the path stands for was asked for, one way or the other, and the request accepted.\<close>

definition fw_asked :: "char list \<Rightarrow> fw_event list \<Rightarrow> bool" where
  "fw_asked path log \<longleftrightarrow>
     Request (str_of path @ ''-1.0.0.bin'') 0 \<in> set log \<or> Request_Nowait (str_of path @ ''-1.0.0.bin'') 0 \<in> set log"

text \<open>Every branch of the probe.\<close>

lemma fw_load_outcome:
  assumes "is_cstr path" and "\<And>name. length (snd (request_firmware w name)) < 2 ^ 31 - 8"
    and "compatible w ''ldddc,chrdev-fw_wait'' \<or> compatible w ''ldddc,chrdev-fw_nowait''"
  shows "\<exists>ret log.
    (if compatible w ''ldddc,chrdev-fw_wait'' then chrdev_load_fw_wait (request_firmware w) path
     else if compatible w ''ldddc,chrdev-fw_nowait''
     then Some (chrdev_load_fw_nowait (request_firmware_nowait w) path)
     else Some (Inr (0, []))) = Some (Inr (ret, log)) \<and>
    (116 < length (str_of path) \<longrightarrow> ret = - EINVAL \<and> log = []) \<and>
    (\<forall>name. Request name 0 \<in> set log \<longrightarrow> Release \<in> set log) \<and> (ret = 0 \<longrightarrow> fw_asked path log)"
proof (cases "compatible w ''ldddc,chrdev-fw_wait''")
  case True
  then show ?thesis
    using load_fw_wait_cases [OF assms(1), of "request_firmware w"] assms(2)
    by (cases "116 < length (str_of path)") (auto simp: Let_def fw_asked_def split: if_splits)
next
  case False
  then show ?thesis
    using load_fw_nowait_cases [OF assms(1), of "request_firmware_nowait w"] assms(3)
    by (cases "116 < length (str_of path)") (auto simp: Let_def fw_asked_def)
qed

lemma fw_probe_branches:
  assumes "inv4 s" and "\<And>path. property_string fwh ''firmware'' = Some path \<Longrightarrow> is_cstr path"
    and "\<And>name. length (snd (request_firmware w name)) < 2 ^ 31 - 8" and "env_ok e"
    and either: "compatible w ''ldddc,chrdev-fw_wait'' \<or> compatible w ''ldddc,chrdev-fw_nowait''"
  obtains r log s' where "fw_probe w e owner parent fwh s = Some (Inr (r, log, s'))" and "inv4 s'"
    and "if r = 0 then devices_of s 0 = None \<and> devices_of s' = (devices_of s)(0 \<mapsto> label_array fw_label)
         else devices_of s' = devices_of s"
    and "\<forall>path. property_string fwh ''firmware'' = Some path \<longrightarrow> 116 < length (str_of path) \<longrightarrow>
         r = - EINVAL \<and> log = []"
    and "\<forall>name. Request name 0 \<in> set log \<longrightarrow> Release \<in> set log"
    and "r = 0 \<longrightarrow> (\<exists>path. property_string fwh ''firmware'' = Some path \<and> fw_asked path log)"
proof (cases "property_string fwh ''firmware''")
  case None
  show thesis
    by (rule that [of "- EINVAL" "[]" s]) (use None assms(1) in \<open>simp_all add: fw_probe_def\<close>)
next
  case (Some path)
  obtain ret log where l:
    "(if compatible w ''ldddc,chrdev-fw_wait'' then chrdev_load_fw_wait (request_firmware w) path
      else if compatible w ''ldddc,chrdev-fw_nowait''
      then Some (chrdev_load_fw_nowait (request_firmware_nowait w) path)
      else Some (Inr (0, []))) = Some (Inr (ret, log))"
    and long: "116 < length (str_of path) \<longrightarrow> ret = - EINVAL \<and> log = []"
    and rel: "\<forall>name. Request name 0 \<in> set log \<longrightarrow> Release \<in> set log"
    and asked: "ret = 0 \<longrightarrow> fw_asked path log"
    using fw_load_outcome [OF assms(2) [OF Some] assms(3) either] by blast
  show thesis
  proof (cases "ret = 0")
    case False
    show thesis
      by (rule that [of ret log s]) (use Some l long rel False assms(1) in \<open>simp_all add: fw_probe_def\<close>)
  next
    case True
    have "is_cstr fw_label" by (simp add: fw_label_def)
    from register4_returns [OF assms(1) this assms(4), of 0 0 owner parent] obtain r t where
      t: "chrdev_device_register4 e fw_label 0 0 owner parent s = Inr (r, t)" "inv4 t"
      and "if r = 0 then unat (0 :: u32) < 8 \<and> devices_of s (unat (0 :: u32)) = None \<and>
               devices_of t = (devices_of s)(unat (0 :: u32) \<mapsto> label_array fw_label)
            else devices_of t = devices_of s" by blast
    then have v: "if r = 0 then devices_of s 0 = None \<and> devices_of t = (devices_of s)(0 \<mapsto> label_array fw_label)
            else devices_of t = devices_of s" by (simp split: if_splits)
    have "fw_probe w e owner parent fwh s = Some (Inr (r, log, t))"
      using Some l True t(1) by (simp add: fw_probe_def)
    then show thesis
      by (rule that [OF _ t(2) v _ rel]) (use Some long asked True in auto)
  qed
qed

lemma fw_remove_undoes:
  assumes "inv4 s'" and "devices_of s 0 = None" and "devices_of s' = (devices_of s)(0 \<mapsto> label_array fw_label)"
  shows "\<exists>s''. fw_remove s' = Inr (0, s'') \<and> inv4 s'' \<and> devices_of s'' = devices_of s"
proof -
  have lbl: "is_cstr fw_label" "length (str_of fw_label) < 32"
    by (simp_all add: fw_label_def str_of_cstr NUL_def)
  note short = label_array_short [OF lbl(2)]
  have "names (devices_of s') (unat (0 :: u32)) fw_label"
    by (simp add: assms(3) names_def short)
  moreover have "(devices_of s')(0 := None) = devices_of s"
    using assms(2) by (auto simp: assms(3))
  moreover have "is_cstr l" if "devices_of s' (unat (0 :: u32)) = Some l" for l
    using that short(1) by (simp add: assms(3))
  ultimately show ?thesis
    using unregister4_returns [OF assms(1) lbl(1), of 0] unfolding fw_remove_def unsigned_0 by metis
qed


definition sample_fw :: fw_env where
  "sample_fw = \<lparr>compatible = (\<lambda>c. False),
                request_firmware = (\<lambda>name. (0, [1, 2, 3])), request_firmware_nowait = (\<lambda>name. 0)\<rparr>"

definition sample_fw_dev :: platform_device where
  "sample_fw_dev = \<lparr>pdev_name = ''chrdev-fw_wait'', pdev_compat = [''ldddc,chrdev-fw_wait''],
     pdev_node = \<lparr>property_present = (\<lambda>p. True), property_u32 = (\<lambda>p. None), property_string = (\<lambda>p. Some (cstr ''fw''))\<rparr>,
     pdev_children = []\<rparr>"


end
