(* ===== verification/Registry_Mem.thy ===== *)
theory Registry_Mem
  imports Chrdev_Req
begin

text \<open>
  What the two drivers of chapter 7 have in common: a device whose buffer is a page
  allocated at registration and freed at unregistration. The heap is a map from addresses
  to the bytes of the allocated blocks (\<open>None\<close>: not allocated). \<open>register_mem\<close> and
  \<open>unregister_mem\<close> are the two exported functions up to what a driver adds to the last
  step; each driver's own function is proved equal to an instance, so the invariant
  \<open>mem_inv\<close> and the contract of the registry are proved once.
\<close>

section \<open>State\<close>

definition PAGE_SIZE :: u64 where "PAGE_SIZE = 4096"

lemma PAGE_SIZE_nat [simp]: "unat PAGE_SIZE = 4096"
  by (simp add: PAGE_SIZE_def)

record chrdev_mem = chrdev_base +
  bufp :: "nat option"       \<comment> \<open>\<open>char *buf\<close>\<close>

record 'd drv_mem = "'d drv" +
  heap :: "nat \<Rightarrow> byte list option"

definition load_buf :: "('d, 'm) drv_mem_scheme \<Rightarrow> nat option \<Rightarrow> fault + byte list" where
  "load_buf s p =
     (case p of
        None \<Rightarrow> Inl BadPointer
      | Some a \<Rightarrow> (case heap s a of None \<Rightarrow> Inl UseAfterFree | Some b \<Rightarrow> Inr b))"

definition store_buf :: "nat option \<Rightarrow> byte list \<Rightarrow> ('d, 'm) drv_mem_scheme \<Rightarrow> ('d, 'm) drv_mem_scheme" where
  "store_buf p b s = (case p of None \<Rightarrow> s | Some a \<Rightarrow> s\<lparr>heap := (heap s)(a \<mapsto> b)\<rparr>)"

definition kfree :: "nat option \<Rightarrow> ('d, 'm) drv_mem_scheme \<Rightarrow> fault + ('d, 'm) drv_mem_scheme" where
  "kfree p s =
     (case p of
        None \<Rightarrow> Inr s
      | Some a \<Rightarrow> if heap s a = None then Inl UseAfterFree
                  else Inr (call (Kfree a) (s\<lparr>heap := (heap s)(a := None)\<rparr>)))"

lemma heap_simps [simp]:
  "heap (call c s) = heap s" "heap (upd_slot i f s) = heap s"
  "slot (s\<lparr>heap := h\<rparr>) i = slot s i"
  "call c (s\<lparr>heap := h\<rparr>) = (call c s)\<lparr>heap := h\<rparr>"
  "upd_slot i f (s\<lparr>heap := h\<rparr>) = (upd_slot i f s)\<lparr>heap := h\<rparr>"
  by (simp_all add: call_def upd_slot_def slot_def)

section \<open>The exported functions, up to the driver's own initialisation\<close>

definition register_mem ::
  "('a chrdev_mem_scheme \<Rightarrow> 'a chrdev_mem_scheme) \<Rightarrow> (nat \<Rightarrow> kcall option) \<Rightarrow>
   (reg_env_mem, ('a chrdev_mem_scheme, 'm) drv_mem_scheme) register_fun" where
  "register_mem fin extra e lbl ident ro owner parent s =
     (if MAX_DEVICES \<le> ident then Inr (- EINVAL, s)
      else let i = unat ident in
      if busy (slot s i) then Inr (- EBUSY, s)
      else
        let p = kzalloc_ret e;
            s = call (Kzalloc (unat PAGE_SIZE) p) (upd_slot i (\<lambda>c. c\<lparr>bufp := p\<rparr>) s)
        in case p of
          None \<Rightarrow> bindo (dev_print (ktrace s) (dev (slot s i))) (\<lambda>_. Inr (- ENOMEM, s))
        | Some a \<Rightarrow>
          let s = s\<lparr>heap := (heap s)(a \<mapsto> replicate (unat PAGE_SIZE) 0)\<rparr>;
              s = call (Cdev_Init i owner) s;
              devt = MKDEV (MAJOR (chrdev_devt s)) ident;
              ret = cdev_add_ret e;
              s = call (Cdev_Add i devt ret) s
          in if ret \<noteq> 0 then bindo (kfree (bufp (slot s i)) s) (\<lambda>s. Inr (ret, s))
          else bindo (node_name lbl ident) (\<lambda>name.
            let d = device_create e devt;
                s = call (Device_Create parent devt name d) (upd_slot i (\<lambda>c. c\<lparr>dev := d\<rparr>) s)
            in case d of
                 ErrDev err \<Rightarrow>
                   bindo (kfree (bufp (slot s i)) (call (Cdev_Del i) s)) (\<lambda>s. Inr (err, s))
               | _ \<Rightarrow> bindo (strncpy lbl NAME_LEN) (\<lambda>l.
                   let s = upd_slot i (\<lambda>c. fin (c\<lparr>devid := ident, read_only := ro, busy := True,
                                                 label := l\<rparr>)) s
                   in Inr (0, case extra i of None \<Rightarrow> s | Some c \<Rightarrow> call c s))))"

definition unregister_mem ::
  "(nat \<Rightarrow> kcall option) \<Rightarrow> ('a chrdev_mem_scheme, 'm) drv_mem_scheme unregister_fun" where
  "unregister_mem first lbl ident s =
     (if MAX_DEVICES \<le> ident then Inr (- EINVAL, s)
      else let i = unat ident in
      if \<not> busy (slot s i) then Inr (- EINVAL, s)
      else bindo (strcmp (label (slot s i)) lbl) (\<lambda>c.
        if c \<noteq> 0 then Inr (- EINVAL, s)
        else
          let s = (case first i of None \<Rightarrow> s | Some c \<Rightarrow> call c s);
              s = upd_slot i (\<lambda>d. d\<lparr>devid := 0, busy := False\<rparr>) s
          in bindo (kfree (bufp (slot s i)) s) (\<lambda>s.
            case dev (slot s i) of
              Dev h devt \<Rightarrow> Inr (0, call (Cdev_Del i) (call (Device_Destroy devt) s))
            | _ \<Rightarrow> Inl BadPointer)))"

section \<open>Invariant\<close>

definition buf_owner :: "('a chrdev_mem_scheme, 'm) drv_mem_scheme \<Rightarrow> nat \<Rightarrow> nat \<Rightarrow> bool" where
  "buf_owner s a i \<longleftrightarrow> i < 8 \<and> busy (slot s i) \<and> bufp (slot s i) = Some a"

text \<open>
  Every busy slot has a buffer, every allocated block is the buffer of exactly one busy slot
  and one page long, and the trace accounts for the blocks.
\<close>

definition heap_inv :: "('a chrdev_mem_scheme, 'm) drv_mem_scheme \<Rightarrow> bool" where
  "heap_inv s \<longleftrightarrow>
     (\<forall>i < 8. busy (slot s i) \<longrightarrow> (\<exists>a. bufp (slot s i) = Some a)) \<and>
     (\<forall>a. heap s a \<noteq> None \<longleftrightarrow> (\<exists>i. buf_owner s a i)) \<and>
     (\<forall>a i j. buf_owner s a i \<longrightarrow> buf_owner s a j \<longrightarrow> i = j) \<and>
     (\<forall>a b. heap s a = Some b \<longrightarrow> length b = 4096) \<and>
     live_memory (ktrace s) = {a. heap s a \<noteq> None}"

definition mem_inv :: "('a chrdev_mem_scheme, 'm) drv_mem_scheme \<Rightarrow> bool" where
  "mem_inv s \<longleftrightarrow> registry_inv s \<and> heap_inv s"

lemma heap_invD:
  assumes "heap_inv s"
  shows "i < 8 \<Longrightarrow> busy (slot s i) \<Longrightarrow> \<exists>a. bufp (slot s i) = Some a"
    and "heap s a \<noteq> None \<longleftrightarrow> (\<exists>i. buf_owner s a i)"
    and "buf_owner s a i \<Longrightarrow> buf_owner s a j \<Longrightarrow> i = j"
    and "heap s a = Some b \<Longrightarrow> length b = 4096"
    and "live_memory (ktrace s) = {a. heap s a \<noteq> None}"
  using assms unfolding heap_inv_def by blast+

text \<open>A buffer of a busy slot is allocated, one page long, and no other slot has it.\<close>

lemma heap_inv_buf:
  assumes "heap_inv s" and "i < 8" and "busy (slot s i)"
  obtains a b where "bufp (slot s i) = Some a" and "heap s a = Some b" and "length b = 4096"
proof -
  from heap_invD(1) [OF assms] obtain a where a: "bufp (slot s i) = Some a" by blast
  then have "buf_owner s a i"
    using assms by (simp add: buf_owner_def)
  then obtain b where b: "heap s a = Some b"
    using heap_invD(2) [OF assms(1), of a] by blast
  show thesis
    by (rule that [OF a b heap_invD(4) [OF assms(1) b]])
qed

lemma heap_inv_frame:
  assumes "heap_inv s" and "heap s' = heap s" and "live_memory (ktrace s') = live_memory (ktrace s)"
    and same: "\<And>j. j < 8 \<Longrightarrow> busy (slot s' j) = busy (slot s j) \<and>
                 (busy (slot s j) \<longrightarrow> bufp (slot s' j) = bufp (slot s j))"
  shows "heap_inv s'"
proof -
  have own: "buf_owner s' a i = buf_owner s a i" for a i
    using same by (auto simp: buf_owner_def)
  show ?thesis
    unfolding heap_inv_def own assms(2,3)
    using same heap_invD [OF assms(1)] by metis
qed

lemma mem_inv_frame:
  assumes "mem_inv s" and "length (chrdev_array s') = 8" and "chrdev_devt s' = chrdev_devt s"
    and "heap s' = heap s"
    and same: "\<And>i. i < 8 \<Longrightarrow> busy (slot s' i) = busy (slot s i) \<and>
                 label (slot s' i) = label (slot s i) \<and> devid (slot s' i) = devid (slot s i) \<and>
                 dev (slot s' i) = dev (slot s i) \<and> bufp (slot s' i) = bufp (slot s i)"
    and "live_cdevs (ktrace s') = live_cdevs (ktrace s)"
    and "live_devices (ktrace s') = live_devices (ktrace s)"
    and "live_memory (ktrace s') = live_memory (ktrace s)"
  shows "mem_inv s'" and "devices_of s' = devices_of s"
  using assms registry_inv_frame [of s s'] heap_inv_frame [of s s'] by (auto simp: mem_inv_def)

lemma heap_inv_occupy:
  assumes inv: "heap_inv s" and i: "i < 8" and free: "\<not> busy (slot s i)" and new: "heap s a = None"
    and heap: "heap s' = (heap s)(a \<mapsto> b)" and len: "length b = 4096"
    and mem: "live_memory (ktrace s') = insert a (live_memory (ktrace s))"
    and busy: "busy (slot s' i)" "bufp (slot s' i) = Some a"
    and same: "\<And>j. j < 8 \<Longrightarrow> j \<noteq> i \<Longrightarrow> busy (slot s' j) = busy (slot s j) \<and> bufp (slot s' j) = bufp (slot s j)"
  shows "heap_inv s'"
proof -
  have own: "buf_owner s' c j \<longleftrightarrow> (if j = i then c = a else buf_owner s c j)" for c j
    using same [of j] busy i free by (cases "j = i") (auto simp: buf_owner_def)
  have none: "\<not> buf_owner s a j" "\<not> buf_owner s c i" for j c
    using heap_invD(2) [OF inv, of a] new free by (auto simp: buf_owner_def)
  show ?thesis
    unfolding heap_inv_def own mem heap heap_invD(5) [OF inv]
  proof (intro conjI allI impI)
    show "\<exists>a. bufp (slot s' j) = Some a" if "j < 8" "busy (slot s' j)" for j
      using that same busy heap_invD(1) [OF inv] by (cases "j = i") auto
    show "((heap s)(a \<mapsto> b)) c \<noteq> None \<longleftrightarrow> (\<exists>j. if j = i then c = a else buf_owner s c j)" for c
      using heap_invD(2) [OF inv, of c] none by (cases "c = a") (auto, metis)
    show "j = k" if "if j = i then c = a else buf_owner s c j" "if k = i then c = a else buf_owner s c k" for c j k
      using that heap_invD(3) [OF inv] none by (auto split: if_splits)
    show "length d = 4096" if "((heap s)(a \<mapsto> b)) c = Some d" for c d
      using that heap_invD(4) [OF inv] len by (auto split: if_splits)
  qed auto
qed

lemma heap_inv_vacate:
  assumes inv: "heap_inv s" and i: "i < 8" and was: "busy (slot s i)" "bufp (slot s i) = Some a"
    and heap: "heap s' = (heap s)(a := None)"
    and mem: "live_memory (ktrace s') = live_memory (ktrace s) - {a}"
    and free: "\<not> busy (slot s' i)"
    and same: "\<And>j. j < 8 \<Longrightarrow> j \<noteq> i \<Longrightarrow> busy (slot s' j) = busy (slot s j) \<and> bufp (slot s' j) = bufp (slot s j)"
  shows "heap_inv s'"
proof -
  have own: "buf_owner s' c j \<longleftrightarrow> j \<noteq> i \<and> buf_owner s c j" for c j
    using same [of j] free by (cases "j = i") (auto simp: buf_owner_def)
  have here: "buf_owner s a i"
    using i was by (simp add: buf_owner_def)
  show ?thesis
    unfolding heap_inv_def own mem heap heap_invD(5) [OF inv]
  proof (intro conjI allI impI)
    show "\<exists>a. bufp (slot s' j) = Some a" if "j < 8" "busy (slot s' j)" for j
      using that same free heap_invD(1) [OF inv] by (cases "j = i") auto
    show "((heap s)(a := None)) c \<noteq> None \<longleftrightarrow> (\<exists>j. j \<noteq> i \<and> buf_owner s c j)" for c
    proof (cases "c = a")
      case True
      then show ?thesis using heap_invD(3) [OF inv here] by auto
    next
      case False
      then have "\<not> buf_owner s c i" using was by (simp add: buf_owner_def)
      with False show ?thesis using heap_invD(2) [OF inv, of c] by auto
    qed
    show "j = k" if "j \<noteq> i \<and> buf_owner s c j" "k \<noteq> i \<and> buf_owner s c k" for c j k
      using that heap_invD(3) [OF inv] by blast
    show "length d = 4096" if "((heap s)(a := None)) c = Some d" for c d
      using that heap_invD(4) [OF inv] by (auto split: if_splits)
  qed auto
qed

lemma heap_inv_store:
  assumes inv: "heap_inv s" and old: "heap s a \<noteq> None" and len: "length b = 4096"
    and heap: "heap s' = (heap s)(a \<mapsto> b)" and "live_memory (ktrace s') = live_memory (ktrace s)"
    and same: "\<And>j. j < 8 \<Longrightarrow> busy (slot s' j) = busy (slot s j) \<and> bufp (slot s' j) = bufp (slot s j)"
  shows "heap_inv s'"
proof -
  have own: "buf_owner s' c i = buf_owner s c i" for c i
    using same by (auto simp: buf_owner_def)
  have dom: "((heap s)(a \<mapsto> b)) c \<noteq> None \<longleftrightarrow> heap s c \<noteq> None" for c
    using old by auto
  show ?thesis
    unfolding heap_inv_def own heap dom assms(5) heap_invD(5) [OF inv]
  proof (intro conjI allI impI)
    show "\<exists>a. bufp (slot s' i) = Some a" if "i < 8" "busy (slot s' i)" for i
      using that same heap_invD(1) [OF inv] by auto
    show "heap s c \<noteq> None \<longleftrightarrow> (\<exists>i. buf_owner s c i)" for c
      by (rule heap_invD(2) [OF inv])
    show "i = j" if "buf_owner s c i" "buf_owner s c j" for c i j
      using that by (rule heap_invD(3) [OF inv])
    show "length d = 4096" if "((heap s)(a \<mapsto> b)) c = Some d" for c d
      using that heap_invD(4) [OF inv] len by (auto split: if_splits)
  qed auto
qed

definition mem_env_good :: "reg_env_mem \<Rightarrow> ('a chrdev_mem_scheme, 'm) drv_mem_scheme \<Rightarrow> bool" where
  "mem_env_good e s \<longleftrightarrow>
     env_ok e \<and>
     (case kzalloc_ret e of
        Some a \<Rightarrow> heap s a = None
      | None \<Rightarrow> \<forall>i < 8. dev_print (ktrace s) (dev (slot s i)) = Inr ())"

definition mem_env_success :: "reg_env_mem \<Rightarrow> ('a chrdev_mem_scheme, 'm) drv_mem_scheme \<Rightarrow> bool" where
  "mem_env_success e s \<longleftrightarrow> env_succeeds e \<and> kzalloc_ret e \<noteq> None"

section \<open>The contract\<close>

text \<open>What a driver may add: an initialisation of its own fields, a timer call.\<close>

definition own_fields :: "('a chrdev_mem_scheme \<Rightarrow> 'a chrdev_mem_scheme) \<Rightarrow> bool" where
  "own_fields fin \<longleftrightarrow> (\<forall>d. chrdev_mem.truncate (fin d) = chrdev_mem.truncate d)"

definition timer_call :: "(nat \<Rightarrow> kcall option) \<Rightarrow> bool" where
  "timer_call f \<longleftrightarrow> (\<forall>i. f i \<in> {None, Some (Timer_Start i), Some (Timer_Cancel i)})"

lemma own_fieldsD:
  "own_fields fin \<Longrightarrow> label (fin d) = label d \<and> busy (fin d) = busy d \<and> devid (fin d) = devid d \<and>
     dev (fin d) = dev d \<and> bufp (fin d) = bufp d"
  by (drule own_fields_def [THEN iffD1, rule_format, of _ d]) (simp add: chrdev_mem.truncate_def)

definition opt_call :: "kcall option \<Rightarrow> ('d, 'm) drv_scheme \<Rightarrow> ('d, 'm) drv_scheme" where
  "opt_call oc s = (case oc of None \<Rightarrow> s | Some c \<Rightarrow> call c s)"

lemma opt_call_simps [simp]:
  "chrdev_devt (opt_call oc s) = chrdev_devt s" "chrdev_array (opt_call oc s) = chrdev_array s"
  "slot (opt_call oc s) i = slot s i" "heap (opt_call oc m) = heap m"
  by (cases oc; simp add: opt_call_def)+

lemma timer_call_effects:
  assumes "timer_call f"
  shows "live_cdevs (ktrace (opt_call (f i) s)) = live_cdevs (ktrace s)"
    and "live_devices (ktrace (opt_call (f i) s)) = live_devices (ktrace s)"
    and "live_memory (ktrace (opt_call (f i) s)) = live_memory (ktrace s)"
  using assms [unfolded timer_call_def, rule_format, of i] by (auto simp: opt_call_def)

lemma mem_inv_length: "mem_inv s \<Longrightarrow> length (chrdev_array s) = 8"
  by (simp add: mem_inv_def registry_inv_def)

text \<open>A failing registration: the slot may differ in \<open>dev\<close> and \<open>bufp\<close> only, nothing is held.\<close>

definition untouched :: "nat \<Rightarrow> ('a chrdev_mem_scheme, 'm) drv_mem_scheme \<Rightarrow> ('a chrdev_mem_scheme, 'm) drv_mem_scheme \<Rightarrow> bool" where
  "untouched i s s' \<longleftrightarrow>
     length (chrdev_array s') = length (chrdev_array s) \<and> chrdev_devt s' = chrdev_devt s \<and>
     heap s' = heap s \<and>
     (\<forall>j < 8. j \<noteq> i \<longrightarrow> slot s' j = slot s j) \<and>
     busy (slot s' i) = busy (slot s i) \<and> label (slot s' i) = label (slot s i) \<and>
     devid (slot s' i) = devid (slot s i) \<and>
     live_cdevs (ktrace s') = live_cdevs (ktrace s) \<and>
     live_devices (ktrace s') = live_devices (ktrace s) \<and>
     live_memory (ktrace s') = live_memory (ktrace s)"

lemma untouched_inv:
  assumes "mem_inv s" and "i < 8" and "\<not> busy (slot s i)" and "untouched i s s'"
  shows "mem_inv s'" and "devices_of s' = devices_of s"
proof -
  have r: "registry_inv s" and h: "heap_inv s"
    using assms(1) by (simp_all add: mem_inv_def)
  note len = mem_inv_length [OF assms(1)]
  have same: "busy (slot s' j) = busy (slot s j) \<and> label (slot s' j) = label (slot s j) \<and>
    devid (slot s' j) = devid (slot s j) \<and> (busy (slot s j) \<longrightarrow> dev (slot s' j) = dev (slot s j))"
    "busy (slot s' j) = busy (slot s j) \<and> (busy (slot s j) \<longrightarrow> bufp (slot s' j) = bufp (slot s j))"
    if "j < 8" for j
    using assms(3,4) that by (cases "j = i"; auto simp: untouched_def)+
  have "registry_inv s'" "devices_of s' = devices_of s"
    using registry_inv_frame [OF r _ _ same(1)] len assms(4) by (auto simp: untouched_def)
  moreover have "heap_inv s'"
    using heap_inv_frame [OF h _ _ same(2)] assms(4) by (auto simp: untouched_def)
  ultimately show "mem_inv s'" "devices_of s' = devices_of s"
    by (simp_all add: mem_inv_def)
qed

text \<open>A registration that succeeds.\<close>

definition registered_mem ::
  "('a chrdev_mem_scheme \<Rightarrow> 'a chrdev_mem_scheme) \<Rightarrow> (nat \<Rightarrow> kcall option) \<Rightarrow> reg_env_mem \<Rightarrow>
   char list \<Rightarrow> u32 \<Rightarrow> u32 \<Rightarrow> nat \<Rightarrow> nat \<Rightarrow> string \<Rightarrow> nat \<Rightarrow>
   ('a chrdev_mem_scheme, 'm) drv_mem_scheme \<Rightarrow> ('a chrdev_mem_scheme, 'm) drv_mem_scheme" where
  "registered_mem fin extra e lbl ident ro owner parent name a s =
     (let i = unat ident; devt = MKDEV (MAJOR (chrdev_devt s)) ident; d = device_create e devt in
      opt_call (extra i)
       ((upd_slot i (\<lambda>c. fin (c\<lparr>bufp := Some a, dev := d, devid := ident, read_only := ro,
                              busy := True, label := label_array lbl\<rparr>))
         (call (Device_Create parent devt name d)
           (call (Cdev_Add i devt 0) (call (Cdev_Init i owner) (call (Kzalloc 4096 (Some a)) s)))))
        \<lparr>heap := (heap s)(a \<mapsto> replicate 4096 0)\<rparr>))"

lemma upd_slot_comp:
  "i < length (chrdev_array s) \<Longrightarrow> upd_slot i g (upd_slot i f s) = upd_slot i (g \<circ> f) s"
  by (simp add: upd_slot_def)

lemma upd_slot_call: "upd_slot i f (call c s) = call c (upd_slot i f s)"
  by (simp add: upd_slot_def call_def)

lemma kfree_fresh:
  "heap s a = None \<Longrightarrow>
   kfree (Some a) (t\<lparr>heap := (heap s)(a \<mapsto> b)\<rparr>) = Inr ((call (Kfree a) t)\<lparr>heap := heap s\<rparr>)"
  by (auto simp: kfree_def fun_upd_idem)

lemma register_mem_refused:
  assumes "length (chrdev_array s) = 8"
  shows "8 \<le> unat ident \<Longrightarrow> register_mem fin extra e lbl ident ro owner parent s = Inr (- EINVAL, s)"
    and "unat ident < 8 \<Longrightarrow> busy (slot s (unat ident)) \<Longrightarrow>
         register_mem fin extra e lbl ident ro owner parent s = Inr (- EBUSY, s)"
  using assms by (simp_all add: register_mem_def MAX_DEVICES_le)

lemma register_mem_nomem:
  assumes "length (chrdev_array s) = 8" and "unat ident < 8" and "\<not> busy (slot s (unat ident))"
    and "kzalloc_ret e = None"
  shows "register_mem fin extra e lbl ident ro owner parent s =
         bindo (dev_print (ktrace s @ [Kzalloc 4096 None]) (dev (slot s (unat ident))))
           (\<lambda>_. Inr (- ENOMEM, call (Kzalloc 4096 None) (upd_slot (unat ident) (\<lambda>c. c\<lparr>bufp := None\<rparr>) s)))"
  using assms by (simp add: register_mem_def MAX_DEVICES_le Let_def)

lemma register_mem_failed:
  assumes "length (chrdev_array s) = 8" and "unat ident < 8" and "\<not> busy (slot s (unat ident))"
    and "kzalloc_ret e = Some a" and "heap s a = None" and "is_cstr lbl"
    and idle: "unat ident \<notin> live_cdevs (ktrace s)" and mem: "a \<notin> live_memory (ktrace s)"
  shows "cdev_add_ret e \<noteq> 0 \<Longrightarrow>
           \<exists>s'. register_mem fin extra e lbl ident ro owner parent s = Inr (cdev_add_ret e, s') \<and>
                untouched (unat ident) s s'"
    and "cdev_add_ret e = 0 \<Longrightarrow> device_create_ret e = Inl err \<Longrightarrow>
           \<exists>s'. register_mem fin extra e lbl ident ro owner parent s = Inr (err, s') \<and>
                untouched (unat ident) s s'"
  using assms
  by (simp_all add: register_mem_def MAX_DEVICES_le Let_def kfree_fresh untouched_def node_name_def
      device_create_def)

lemma register_mem_done:
  assumes "length (chrdev_array s) = 8" and "unat ident < 8" and "\<not> busy (slot s (unat ident))"
    and "kzalloc_ret e = Some a" and "is_cstr lbl"
    and "cdev_add_ret e = 0" and "device_create_ret e = Inr h"
  shows "\<exists>name. register_mem fin extra e lbl ident ro owner parent s =
           Inr (0, registered_mem fin extra e lbl ident ro owner parent name a s)"
  using assms
  by (auto simp: register_mem_def MAX_DEVICES_le Let_def registered_mem_def node_name_def opt_call_def
      device_create_def strncpy_label [unfolded NAME_LEN_nat] upd_slot_call upd_slot_comp comp_def
      split: option.splits)

lemma registered_mem_inv:
  assumes inv: "mem_inv s" and i: "unat ident < 8" and free: "\<not> busy (slot s (unat ident))"
    and new: "heap s a = None" and h: "device_create_ret e = Inr h"
    and own: "own_fields fin" and tc: "timer_call extra"
  shows "mem_inv (registered_mem fin extra e lbl ident ro owner parent name a s)"
    and "devices_of (registered_mem fin extra e lbl ident ro owner parent name a s) =
         (devices_of s)(unat ident \<mapsto> label_array lbl)"
proof -
  let ?t = "registered_mem fin extra e lbl ident ro owner parent name a s"
  have r: "registry_inv s" and hp: "heap_inv s" and len: "length (chrdev_array s) = 8"
    using inv by (simp_all add: mem_inv_def mem_inv_length)
  note fin = own_fieldsD [OF own] and eff = timer_call_effects [OF tc]
  have others: "slot ?t j = slot s j" if "j < 8" "j \<noteq> unat ident" for j
    using that len i by (simp add: registered_mem_def Let_def)
  have same: "chrdev_base.truncate (slot ?t j) = chrdev_base.truncate (slot s j)"
      "busy (slot ?t j) = busy (slot s j) \<and> bufp (slot ?t j) = bufp (slot s j)"
    if "j < 8" "j \<noteq> unat ident" for j
    using others [OF that] by simp_all
  have here: "busy (slot ?t (unat ident))" "bufp (slot ?t (unat ident)) = Some a"
    "label (slot ?t (unat ident)) = label_array lbl" "devid (slot ?t (unat ident)) = ident"
    "dev (slot ?t (unat ident)) = Dev h (MKDEV (MAJOR (chrdev_devt s)) ident)"
    using len i h by (simp_all add: registered_mem_def Let_def fin device_create_def)
  have "registry_inv ?t \<and> devices_of ?t = (devices_of s)(unat ident \<mapsto> label (slot ?t (unat ident)))"
    using registry_inv_occupy [OF r i free _ _ same(1), of h] len h here
    by (simp add: registered_mem_def Let_def device_create_def eff)
  moreover have "heap_inv ?t"
    using heap_inv_occupy [OF hp i free new, of ?t "replicate 4096 0"] same(2) here
    by (simp add: registered_mem_def Let_def eff device_create_def h)
  ultimately show "mem_inv ?t" "devices_of ?t = (devices_of s)(unat ident \<mapsto> label_array lbl)"
    using here by (simp_all add: mem_inv_def)
qed

lemma register_mem_returns:
  fixes s :: "('a chrdev_mem_scheme, 'm) drv_mem_scheme"
  assumes inv: "mem_inv s" and lbl: "is_cstr lbl" and env: "mem_env_good e s"
    and own: "own_fields fin" and tc: "timer_call extra"
  shows "\<exists>r s'. register_mem fin extra e lbl ident ro owner parent s = Inr (r, s') \<and> mem_inv s' \<and>
           (if r = 0 then unat ident < 8 \<and> devices_of s (unat ident) = None \<and>
               devices_of s' = (devices_of s)(unat ident \<mapsto> label_array lbl)
            else devices_of s' = devices_of s)"
proof (cases "unat ident < 8 \<and> \<not> busy (slot s (unat ident))")
  case False
  then show ?thesis
    using register_mem_refused [OF mem_inv_length [OF inv], of ident fin extra e lbl ro owner parent] inv
    by (cases "unat ident < 8") auto
next
  case True
  then have i: "unat ident < 8" and free: "\<not> busy (slot s (unat ident))" by simp_all
  note len = mem_inv_length [OF inv]
  note u = untouched_inv [OF inv i free]
  have e: "env_ok e" using env by (simp add: mem_env_good_def)
  show ?thesis
  proof (cases "kzalloc_ret e")
    case None
    let ?t = "call (Kzalloc 4096 None) (upd_slot (unat ident) (\<lambda>c. c\<lparr>bufp := None\<rparr>) s)"
    have refs: "dev_print (ktrace s @ [Kzalloc 4096 None]) d = dev_print (ktrace s) d" for d
      by (cases d) (simp_all add: dev_print_def object_refs_def split_beta)
    have "untouched (unat ident) s ?t"
      using len i by (simp add: untouched_def)
    moreover have "dev_print (ktrace s) (dev (slot s (unat ident))) = Inr ()"
      using env None i by (simp add: mem_env_good_def)
    ultimately show ?thesis
      using register_mem_nomem [OF len i free None, of fin extra lbl ro owner parent] u [of ?t]
      by (auto simp: refs)
  next
    case (Some a)
    with env have new: "heap s a = None" by (simp add: mem_env_good_def)
    have idle: "unat ident \<notin> live_cdevs (ktrace s)" "a \<notin> live_memory (ktrace s)"
    proof -
      show "unat ident \<notin> live_cdevs (ktrace s)"
        using inv free by (simp add: mem_inv_def registry_inv_def busy_ids_def)
      show "a \<notin> live_memory (ktrace s)"
        using heap_invD(5) [of s] inv new by (simp add: mem_inv_def)
    qed
    note failed = register_mem_failed [OF len i free Some new lbl idle,
      where fin = fin and extra = extra and ro = ro and owner = owner and parent = parent]
    show ?thesis
    proof (cases "cdev_add_ret e = 0")
      case False
      with failed(1) u show ?thesis by fastforce
    next
      case added: True
      show ?thesis
      proof (cases "device_create_ret e")
        case (Inl err)
        with e have "err \<noteq> 0" by (auto simp: env_ok_def)
        with failed(2) [OF added Inl] u show ?thesis by fastforce
      next
        case (Inr h)
        from register_mem_done [OF len i free Some lbl added Inr, of fin extra ro owner parent]
        obtain name where eq: "register_mem fin extra e lbl ident ro owner parent s =
           Inr (0, registered_mem fin extra e lbl ident ro owner parent name a s)" by blast
        with registered_mem_inv [OF inv i free new Inr own tc, of lbl ro owner parent name] i free
        show ?thesis by (auto simp: devices_of_busy)
      qed
    qed
  qed
qed

lemma unregister_mem_returns:
  fixes s :: "('a chrdev_mem_scheme, 'm) drv_mem_scheme"
  assumes inv: "mem_inv s" and lbl: "is_cstr lbl" and tc: "timer_call f"
    and known: "\<And>l. devices_of s (unat ident) = Some l \<Longrightarrow> is_cstr l"
  shows "\<exists>r s'. unregister_mem f lbl ident s = Inr (r, s') \<and> mem_inv s' \<and>
           (if r = 0 then names (devices_of s) (unat ident) lbl \<and>
                          devices_of s' = (devices_of s)(unat ident := None)
            else \<not> names (devices_of s) (unat ident) lbl \<and> devices_of s' = devices_of s)"
proof (cases "unat ident < 8 \<and> busy (slot s (unat ident))")
  case False
  then show ?thesis
    using inv by (auto simp: unregister_mem_def MAX_DEVICES_le names_def devices_of_def)
next
  case True
  let ?i = "unat ident"
  have i: "?i < 8" and was: "busy (slot s ?i)" using True by simp_all
  have r: "registry_inv s" and hp: "heap_inv s" and len: "length (chrdev_array s) = 8"
    using inv by (simp_all add: mem_inv_def mem_inv_length)
  have view: "devices_of s ?i = Some (label (slot s ?i))"
    using True by (simp add: devices_of_def)
  obtain c where c: "strcmp (label (slot s ?i)) lbl = Inr c"
    "c = 0 \<longleftrightarrow> str_of (label (slot s ?i)) = str_of lbl"
    using strcmp_cstr [OF known [OF view] lbl] by blast
  obtain h where h: "dev (slot s ?i) = Dev h (MKDEV (MAJOR (chrdev_devt s)) (of_nat ?i))"
    using registry_invD(2) [OF r, of ?i] True by (auto simp: slot_ok_def)
  obtain a b where a: "bufp (slot s ?i) = Some a" "heap s a = Some b"
    using heap_inv_buf [OF hp i was] by metis
  show ?thesis
  proof (cases "c = 0")
    case False
    then show ?thesis
      using True c inv view by (auto simp: unregister_mem_def MAX_DEVICES_le names_def)
  next
    case zero: True
    let ?u = "upd_slot ?i (\<lambda>d. d\<lparr>devid := 0, busy := False\<rparr>) (opt_call (f ?i) s)"
    let ?t = "call (Cdev_Del ?i) (call (Device_Destroy (MKDEV (MAJOR (chrdev_devt s)) (of_nat ?i)))
                ((call (Kfree a) ?u)\<lparr>heap := (heap s)(a := None)\<rparr>))"
    have eq: "unregister_mem f lbl ident s = Inr (0, ?t)"
      using True c(1) zero h len a
      by (simp add: unregister_mem_def MAX_DEVICES_le Let_def kfree_def flip: opt_call_def)
    have others: "slot ?t j = slot s j" if "j < 8" "j \<noteq> ?i" for j
      using that len True by simp
    have same: "chrdev_base.truncate (slot ?t j) = chrdev_base.truncate (slot s j)"
        "busy (slot ?t j) = busy (slot s j) \<and> bufp (slot ?t j) = bufp (slot s j)"
      if "j < 8" "j \<noteq> ?i" for j
      using others [OF that] by simp_all
    note eff = timer_call_effects [OF tc, of ?i s]
    have "length (label (slot s ?i)) = 32"
      using registry_invD(2) [OF r, of ?i] True by (simp add: slot_ok_def)
    then have "registry_inv ?t \<and> devices_of ?t = (devices_of s)(?i := None)"
      using registry_inv_vacate [OF r _ _ _ same(1), of ?i] True len by (simp add: eff)
    moreover have "heap_inv ?t"
      using heap_inv_vacate [OF hp i was a(1), of ?t] same(2) len i by (simp add: eff)
    ultimately show ?thesis
      using eq c(2) zero view by (auto simp: names_def mem_inv_def)
  qed
qed

text \<open>One block per registered device.\<close>

lemma mem_inv_card:
  assumes "mem_inv s"
  shows "card (live_memory (ktrace s)) = card (dom (devices_of s))"
proof -
  have h: "heap_inv s" using assms by (simp add: mem_inv_def)
  have dom: "i \<in> dom (devices_of s) \<longleftrightarrow> i < 8 \<and> busy (slot s i)" for i
    by (simp add: devices_of_def dom_def)
  have "bij_betw (\<lambda>i. the (bufp (slot s i))) (dom (devices_of s)) (live_memory (ktrace s))"
    unfolding bij_betw_def
  proof
    show "inj_on (\<lambda>i. the (bufp (slot s i))) (dom (devices_of s))"
    proof (rule inj_onI)
      fix i j
      assume i: "i \<in> dom (devices_of s)" and j: "j \<in> dom (devices_of s)"
        and eq: "the (bufp (slot s i)) = the (bufp (slot s j))"
      have "\<exists>a. buf_owner s a k" if "k \<in> dom (devices_of s)" for k
        using that heap_invD(1) [OF h, of k] by (auto simp: dom buf_owner_def)
      with i j obtain a b where "buf_owner s a i" "buf_owner s b j" by blast
      with eq show "i = j"
        using heap_invD(3) [OF h] by (auto simp: buf_owner_def)
    qed
    have "live_memory (ktrace s) = {a. \<exists>i. buf_owner s a i}"
      using heap_invD(2,5) [OF h] by blast
    also have "\<dots> = (\<lambda>i. the (bufp (slot s i))) ` dom (devices_of s)"
    proof (intro set_eqI iffI)
      fix a
      assume "a \<in> {a. \<exists>i. buf_owner s a i}"
      then obtain i where "i \<in> dom (devices_of s)" "bufp (slot s i) = Some a"
        by (auto simp: dom buf_owner_def)
      then show "a \<in> (\<lambda>i. the (bufp (slot s i))) ` dom (devices_of s)"
        by (intro image_eqI [of _ _ i]) simp_all
    next
      fix a
      assume "a \<in> (\<lambda>i. the (bufp (slot s i))) ` dom (devices_of s)"
      then obtain i where "i < 8" "busy (slot s i)" "a = the (bufp (slot s i))"
        using dom by blast
      with heap_invD(1) [OF h, of i] show "a \<in> {a. \<exists>i. buf_owner s a i}"
        by (auto simp: buf_owner_def)
    qed
    finally show "(\<lambda>i. the (bufp (slot s i))) ` dom (devices_of s) = live_memory (ktrace s)" ..
  qed
  then show ?thesis by (metis bij_betw_same_card)
qed

text \<open>With at most eight blocks allocated, one of nine addresses is free.\<close>

definition free_address :: "('d, 'm) drv_mem_scheme \<Rightarrow> nat" where
  "free_address s = the (find (\<lambda>a. heap s a = None) [0..<9])"

lemma free_address:
  assumes "mem_inv s"
  shows "heap s (free_address s) = None"
proof -
  have h: "heap_inv s" using assms by (simp add: mem_inv_def)
  have sub: "dom (devices_of s) \<subseteq> {..<8}"
    by (auto simp: devices_of_def split: if_splits)
  have "\<exists>a \<in> {..<9}. heap s a = None"
  proof (rule ccontr)
    assume "\<not> (\<exists>a \<in> {..<9}. heap s a = None)"
    then have "{..<9} \<subseteq> live_memory (ktrace s)"
      using heap_invD(5) [OF h] by auto
    moreover have "finite (dom (devices_of s))"
      using sub finite_subset by blast
    moreover have "card (dom (devices_of s)) \<le> 8"
      using card_mono [OF _ sub] by simp
    moreover have "live_memory (ktrace s) = (\<lambda>i. the (bufp (slot s i))) ` {i. i < 8 \<and> busy (slot s i)}"
      using heap_invD(1,2,5) [OF h] by (force simp: buf_owner_def image_iff)
    then have "finite (live_memory (ktrace s))" by simp
    ultimately show False
      using card_mono [of "live_memory (ktrace s)" "{..<9}"] mem_inv_card [OF assms] by simp
  qed
  then obtain a where a: "find (\<lambda>a. heap s a = None) [0..<9] = Some a"
    by (cases "find (\<lambda>a. heap s a = None) [0..<9]") (auto simp: find_None_iff)
  then have "heap s a = None"
    unfolding find_Some_iff by blast
  with a show ?thesis
    by (simp add: free_address_def)
qed

end
