(* ===== verification/Chrdev7.thy ===== *)
theory Chrdev7
  imports Registry_Mem File_Spec
begin

text \<open>
  \<^verbatim>\<open>Chapter07/chrdev/chrdev.c\<close>: the buffer device of chapter 4 with a page
  allocated per device, and with \<open>mmap\<close>, \<open>ioctl\<close> and \<open>llseek\<close>. Every file method,
  the exported functions and the module's start and stop, as in \<^verbatim>\<open>chrdev.c\<close>;
  \<^verbatim>\<open>chrdev_ioctl.h\<close> gives the commands. The lemmas show what each method returns on
  every branch, that the methods meet the buffer contract while the device is registered,
  and that the registrations meet the contract of the registry.
\<close>

section \<open>State\<close>

definition BUF_LEN7 :: u64 where "BUF_LEN7 = PAGE_SIZE"

type_synonym chrdev_device7 = chrdev_mem

type_synonym drv7 = "chrdev_mem drv_mem"

definition zero_dev7 :: chrdev_device7 where
  "zero_dev7 = \<lparr>label = replicate NAME_LEN NUL, busy = False, read_only = 0, devid = 0,
                dev = NullDev, bufp = None\<rparr>"

definition start7 :: drv7 where
  "start7 = \<lparr>chrdev_devt = MKDEV 0 0, chrdev_class = NullClass,
             chrdev_array = replicate (unat MAX_DEVICES) zero_dev7, ktrace = [],
             heap = (\<lambda>_. None)\<rparr>"

section \<open>mmap\<close>

definition PAGE_SHIFT :: nat where "PAGE_SHIFT = 12"

record vm_area =
  vm_start :: u64
  vm_end :: u64
  vm_pgoff :: u64

text \<open>
  The environment gives the address translation and the answer of \<open>remap_pfn_range()\<close>.
\<close>

definition chrdev_mmap ::
  "(nat option \<Rightarrow> u64) \<Rightarrow> s32 \<Rightarrow> drv7 \<Rightarrow> ofile \<Rightarrow> vm_area \<Rightarrow> fault + (s32 \<times> drv7)" where
  "chrdev_mmap virt_to_phys remap_ret s filp vma =
     (case private_data filp of
        None \<Rightarrow> Inl BadPointer
      | Some i \<Rightarrow>
          let chrdev = slot s i;
              size = vm_end vma - vm_start vma;
              offset = push_bit PAGE_SHIFT (vm_pgoff vma)
          in if drop_bit PAGE_SHIFT offset \<noteq> vm_pgoff vma then Inr (- EINVAL, s)
          else if BUF_LEN7 < offset \<or> BUF_LEN7 - offset < size then Inr (- EINVAL, s)
          else
            let pfn = drop_bit PAGE_SHIFT (virt_to_phys (bufp chrdev));
                s = call (Remap_Pfn_Range i (vm_start vma) pfn size remap_ret) s
            in if remap_ret \<noteq> 0 then Inr (- EAGAIN, s) else Inr (0, s))"

section \<open>ioctl\<close>

text \<open>
  The encoding of ioctl numbers of \<open><asm-generic/ioctl.h>\<close>: number in bits 0 to 7, type in
  8 to 15, size in 16 to 29, direction (1 write, 2 read) in 30 and 31.
\<close>

definition IOC :: "nat \<Rightarrow> nat \<Rightarrow> nat \<Rightarrow> nat \<Rightarrow> u32" where
  "IOC dir type nr sz = of_nat (dir * 2 ^ 30 + sz * 2 ^ 16 + type * 2 ^ 8 + nr)"

definition IOC_TYPE :: "u32 \<Rightarrow> nat" where
  "IOC_TYPE cmd = unat cmd div 2 ^ 8 mod 2 ^ 8"

definition CHRDEV_IOCTL_BASE :: nat where "CHRDEV_IOCTL_BASE = of_char (CHR ''C'')"

record chrdev_info =
  info_label :: "char list"
  info_read_only :: s32

definition sizeof_chrdev_info :: nat where "sizeof_chrdev_info = 36"

definition CHRDEV_IOC_GETINFO :: u32 where
  "CHRDEV_IOC_GETINFO = IOC 2 CHRDEV_IOCTL_BASE 0 sizeof_chrdev_info"

definition WDIOC_SET_RDONLY :: u32 where
  "WDIOC_SET_RDONLY = IOC 1 CHRDEV_IOCTL_BASE 1 4"

text \<open>The bytes of an \<open>int\<close> (little endian) and of the structure, which has no padding.\<close>

definition int_bytes :: "s32 \<Rightarrow> byte list" where
  "int_bytes w = map (\<lambda>k. ucast (drop_bit (8 * k) w)) [0, 1, 2, 3]"

definition info_bytes :: "chrdev_info \<Rightarrow> byte list" where
  "info_bytes info = map of_char (info_label info) @ int_bytes (info_read_only info)"

text \<open>
  \<open>arg\<close> points to user memory. The inputs are the answer of \<open>copy_to_user()\<close> and the
  integer \<open>get_user()\<close> finds at \<open>arg\<close> (\<open>None\<close>: the address is not readable; then
  \<open>get_user()\<close> answers an error and, as documented, sets the variable to zero). The
  result is the return value, the bytes that reached user memory, and the state.
\<close>

definition chrdev_ioctl ::
  "copy_fun \<Rightarrow> s32 option \<Rightarrow> drv7 \<Rightarrow> ofile \<Rightarrow> u32 \<Rightarrow> fault + (s64 \<times> byte list \<times> drv7)" where
  "chrdev_ioctl copy_to_user user_int s filp cmd =
     (case private_data filp of
        None \<Rightarrow> Inl BadPointer
      | Some i \<Rightarrow>
          let chrdev = slot s i in
          if IOC_TYPE cmd \<noteq> CHRDEV_IOCTL_BASE then Inr (- EINVAL, [], s)
          else if cmd = CHRDEV_IOC_GETINFO then
            bindo (strncpy (label chrdev) NAME_LEN) (\<lambda>l.
              let info = \<lparr>info_label = l, info_read_only = read_only chrdev\<rparr>;
                  left = copy_to_user (of_nat sizeof_chrdev_info);
                  ret = (ucast left :: s32);
                  out = take (sizeof_chrdev_info - unat left) (info_bytes info)
              in if ret \<noteq> 0 then Inr (- EFAULT, out, s) else Inr (0, out, s))
          else if cmd = WDIOC_SET_RDONLY then
            (case user_int of
               None \<Rightarrow> Inr (- EFAULT, [], upd_slot i (\<lambda>c. c\<lparr>read_only := 0\<rparr>) s)
             | Some v \<Rightarrow> Inr (0, [], upd_slot i (\<lambda>c. c\<lparr>read_only := v\<rparr>) s))
          else Inr (- ENOIOCTLCMD, [], s))"

section \<open>llseek\<close>

text \<open>
  \<open>BUF_LEN\<close> is an \<open>unsigned long\<close>: the sum for \<open>SEEK_END\<close> wraps and the comparison with it
  is unsigned; the comparison with 0 is signed.
\<close>

definition SEEK_SET :: s32 where "SEEK_SET = 0"
definition SEEK_CUR :: s32 where "SEEK_CUR = 1"
definition SEEK_END :: s32 where "SEEK_END = 2"

definition chrdev_llseek :: "ofile \<Rightarrow> s64 \<Rightarrow> s32 \<Rightarrow> s64 \<times> ofile" where
  "chrdev_llseek filp offset whence =
     (let newppos =
        (if whence = SEEK_SET then Some offset
         else if whence = SEEK_CUR then Some (f_pos filp + offset)
         else if whence = SEEK_END then Some (BUF_LEN7 + offset)
         else None)
      in case newppos of
           None \<Rightarrow> (- EINVAL, filp)
         | Some p \<Rightarrow>
             if negative p \<or> BUF_LEN7 \<le> p then (- EINVAL, filp)
             else (p, filp\<lparr>f_pos := p\<rparr>))"

section \<open>read and write\<close>

text \<open>A copy of no bytes does not touch the buffer; any other goes through the pointer.\<close>

definition chrdev_read7 ::
  "copy_fun \<Rightarrow> drv7 \<Rightarrow> ofile \<Rightarrow> u64 \<Rightarrow> s64 \<Rightarrow> fault + (s64 \<times> s64 \<times> byte list)" where
  "chrdev_read7 copy_to_user s filp count ppos =
     (case private_data filp of
        None \<Rightarrow> Inl BadPointer
      | Some i \<Rightarrow>
          let chrdev = slot s i;
              count = clamp_count BUF_LEN7 ppos count;
              left = copy_to_user count;
              ret = (ucast left :: s32);
              n = unat count - unat left
          in bindo (if n = 0 then Inr []
                    else bindo (load_buf s (bufp chrdev)) (\<lambda>b. mem_read b (unat ppos) n))
               (\<lambda>out. if negative ret then Inr (- EFAULT, ppos, out)
                      else Inr (count, ppos + count, out)))"

definition chrdev_write7 ::
  "copy_fun \<Rightarrow> byte list \<Rightarrow> drv7 \<Rightarrow> ofile \<Rightarrow> u64 \<Rightarrow> s64 \<Rightarrow> fault + (s64 \<times> s64 \<times> drv7)" where
  "chrdev_write7 copy_from_user usr s filp count ppos =
     (case private_data filp of
        None \<Rightarrow> Inl BadPointer
      | Some i \<Rightarrow>
          let chrdev = slot s i in
          if read_only chrdev \<noteq> 0 then Inr (- EINVAL, ppos, s)
          else
            let count = clamp_count BUF_LEN7 ppos count;
                left = copy_from_user count;
                ret = (ucast left :: s32)
            in bindo (if count = 0 then Inr s
                      else bindo (load_buf s (bufp chrdev)) (\<lambda>b.
                        bindo (mem_write b (unat ppos) (from_user usr (unat count) (unat left)))
                          (\<lambda>b'. Inr (store_buf (bufp chrdev) b' s))))
                 (\<lambda>s'. if negative ret then Inr (- EFAULT, ppos, s')
                       else Inr (count, ppos + count, s')))"

section \<open>open and release\<close>

definition chrdev_open7 :: "nat \<Rightarrow> ofile \<Rightarrow> drv7 \<Rightarrow> fault + (s32 \<times> ofile \<times> drv7)" where
  "chrdev_open7 i filp s =
     (case dev (slot s i) of
        Dev h devt \<Rightarrow> Inr (0, filp\<lparr>private_data := Some i\<rparr>, call (Kobject_Get h) s)
      | _ \<Rightarrow> Inl BadPointer)"

definition chrdev_release7 :: "nat \<Rightarrow> ofile \<Rightarrow> drv7 \<Rightarrow> fault + (s32 \<times> ofile \<times> drv7)" where
  "chrdev_release7 i filp s =
     (case dev (slot s i) of
        Dev h devt \<Rightarrow> Inr (0, filp\<lparr>private_data := None\<rparr>, call (Kobject_Put h) s)
      | _ \<Rightarrow> Inl BadPointer)"

section \<open>Exported functions\<close>

definition chrdev_device_register7 :: "(reg_env_mem, drv7) register_fun" where
  "chrdev_device_register7 e lbl ident ro owner parent s =
     (if MAX_DEVICES \<le> ident then Inr (- EINVAL, s)
      else let i = unat ident in
      if busy (slot s i) then Inr (- EBUSY, s)
      else
        let p = kzalloc_ret e;
            s = call (Kzalloc (unat BUF_LEN7) p) (upd_slot i (\<lambda>c. c\<lparr>bufp := p\<rparr>) s)
        in case p of
          None \<Rightarrow> bindo (dev_print (ktrace s) (dev (slot s i))) (\<lambda>_. Inr (- ENOMEM, s))
        | Some a \<Rightarrow>
          let s = s\<lparr>heap := (heap s)(a \<mapsto> replicate (unat BUF_LEN7) 0)\<rparr>;
              s = call (Cdev_Init i owner) s;
              devt = MKDEV (MAJOR (chrdev_devt s)) ident;
              ret = cdev_add_ret e;
              s = call (Cdev_Add i devt ret) s
          in if ret \<noteq> 0 then bindo (kfree (bufp (slot s i)) s) (\<lambda>s. Inr (ret, s))
          else bindo (node_name lbl ident) (\<lambda>name.
            let d = device_create e devt;
                s = call (Device_Create parent devt name d) (upd_slot i (\<lambda>c. c\<lparr>dev := d\<rparr>) s)
            in case d of
                 ErrDev err \<Rightarrow>
                   bindo (kfree (bufp (slot s i)) (call (Cdev_Del i) s)) (\<lambda>s. Inr (err, s))
               | _ \<Rightarrow> bindo (strncpy lbl NAME_LEN) (\<lambda>l.
                   Inr (0, upd_slot i (\<lambda>c. c\<lparr>devid := ident, read_only := ro, busy := True,
                                            label := l\<rparr>) s))))"

definition chrdev_device_unregister7 :: "drv7 unregister_fun" where
  "chrdev_device_unregister7 lbl ident s =
     (if MAX_DEVICES \<le> ident then Inr (- EINVAL, s)
      else let i = unat ident in
      if \<not> busy (slot s i) then Inr (- EINVAL, s)
      else bindo (strcmp (label (slot s i)) lbl) (\<lambda>c.
        if c \<noteq> 0 then Inr (- EINVAL, s)
        else
          let s = upd_slot i (\<lambda>d. d\<lparr>devid := 0, busy := False\<rparr>) s
          in bindo (kfree (bufp (slot s i)) s) (\<lambda>s.
            case dev (slot s i) of
              Dev h devt \<Rightarrow> Inr (0, call (Cdev_Del i) (call (Device_Destroy devt) s))
            | _ \<Rightarrow> Inl BadPointer)))"

section \<open>Module start and stop\<close>

definition chrdev_init7 :: "init_env \<Rightarrow> drv7 \<Rightarrow> s32 \<times> drv7" where
  "chrdev_init7 e s =
     (let c = class_create_ret e;
          s = call (Class_Create c) (s\<lparr>chrdev_class := c\<rparr>)
      in if c = NullClass then (- ENOMEM, s)
      else
        let ret = alloc_region_ret e;
            s = call (Alloc_Chrdev_Region (alloc_region_devt e) (unat MAX_DEVICES) ret) s
        in if negative ret then (ret, call (Class_Destroy (chrdev_class s)) s)
           else (0, s\<lparr>chrdev_devt := alloc_region_devt e\<rparr>))"

definition chrdev_exit7 :: "drv7 \<Rightarrow> drv7" where
  "chrdev_exit7 s =
     call (Class_Destroy (chrdev_class s))
       (call (Unregister_Chrdev_Region (chrdev_devt s) (unat MAX_DEVICES)) s)"

section \<open>The registrations are the shared ones\<close>

lemma BUF_LEN7_nat [simp]: "unat BUF_LEN7 = 4096"
  by (simp add: BUF_LEN7_def)

lemma register7_eq: "chrdev_device_register7 = register_mem (\<lambda>c. c) (\<lambda>_. None)"
  by (intro ext)
    (simp only: chrdev_device_register7_def register_mem_def BUF_LEN7_def Let_def option.case)

lemma unregister7_eq: "chrdev_device_unregister7 = unregister_mem (\<lambda>_. None)"
  by (intro ext) (simp only: chrdev_device_unregister7_def unregister_mem_def Let_def option.case)

lemma no_extras: "own_fields (\<lambda>c. c)" "timer_call (\<lambda>_. None)"
  by (simp_all add: own_fields_def timer_call_def)

lemma mem_inv_start7: "mem_inv start7"
proof -
  have free: "slot start7 i = zero_dev7" if "i < 8" for i
    using that by (simp add: slot_def start7_def)
  have "busy_ids start7 = {}" "\<not> buf_owner start7 a i" for a i
    by (auto simp: busy_ids_def buf_owner_def free zero_dev7_def)
  then show ?thesis
    by (simp add: mem_inv_def heap_inv_def registry_inv_def slot_ok_def free)
      (simp add: start7_def zero_dev7_def)
qed


lemma register7_returns:
  assumes "mem_inv (s :: drv7)" and "is_cstr lbl" and "mem_env_good e s"
  shows "\<exists>r s'. chrdev_device_register7 e lbl ident ro owner parent s = Inr (r, s') \<and> mem_inv s' \<and>
           (if r = 0 then unat ident < 8 \<and> devices_of s (unat ident) = None \<and>
               devices_of s' = (devices_of s)(unat ident \<mapsto> label_array lbl)
            else devices_of s' = devices_of s)"
  unfolding register7_eq using register_mem_returns [OF assms no_extras] .

interpretation reg7: chrdev_registry chrdev_device_register7 chrdev_device_unregister7 mem_inv
  devices_of mem_env_good mem_env_success
proof (unfold_locales, goal_cases)
  case (1 s m e ident ro owner parent)
  then show ?case by (rule register7_returns)
next
  case (2 s m e ident ro owner parent)
  from 2(4) obtain a h where e: "kzalloc_ret e = Some a" "cdev_add_ret e = 0" "device_create_ret e = Inr h"
    by (auto simp: mem_env_success_def env_succeeds_def)
  have "\<not> busy (slot s (unat ident))"
    using 2(5,6) by (simp add: devices_of_busy)
  from register_mem_done [OF mem_inv_length [OF 2(1)] 2(5) this e(1) 2(2) e(2,3)]
  show ?case unfolding register7_eq by blast
next
  case (3 s m ident)
  then show ?case unfolding unregister7_eq by (intro unregister_mem_returns no_extras)
qed

section \<open>The file methods meet the buffer contract\<close>

definition opened7 :: "drv7 \<times> ofile \<Rightarrow> bool" where
  "opened7 = (\<lambda>(s, filp). mem_inv s \<and> (\<exists>i < 8. private_data filp = Some i \<and> busy (slot s i)))"

definition contents7 :: "drv7 \<times> ofile \<Rightarrow> byte list" where
  "contents7 = (\<lambda>(s, filp). the (heap s (the (bufp (slot s (the (private_data filp)))))))"

definition writable7 :: "drv7 \<times> ofile \<Rightarrow> bool" where
  "writable7 = (\<lambda>(s, filp). read_only (slot s (the (private_data filp))) = 0)"

lemma opened7_buf:
  assumes "opened7 (s, filp)"
  obtains i a b where "i < 8" "private_data filp = Some i" "busy (slot s i)" "mem_inv s"
    "bufp (slot s i) = Some a" "heap s a = Some b" "length b = 4096" "contents7 (s, filp) = b"
proof -
  from assms obtain i where i: "i < 8" "private_data filp = Some i" "busy (slot s i)" and inv: "mem_inv s"
    by (auto simp: opened7_def)
  then obtain a b where "bufp (slot s i) = Some a" "heap s a = Some b" "length b = 4096"
    using heap_inv_buf [of s i] by (auto simp: mem_inv_def)
  with i inv show thesis
    by (intro that [of i a b]) (simp_all add: contents7_def)
qed

lemma load_buf_Some: "heap s a = Some b \<Longrightarrow> load_buf s (Some a) = Inr b"
  by (simp add: load_buf_def)

text \<open>Storing into the buffer of a registered device keeps the invariant.\<close>

lemma mem_inv_store:
  assumes "mem_inv s" and "heap s a \<noteq> None" and "length b = 4096"
  shows "mem_inv (s\<lparr>heap := (heap s)(a \<mapsto> b)\<rparr>)"
    and "devices_of (s\<lparr>heap := (heap s)(a \<mapsto> b)\<rparr>) = devices_of s"
proof -
  let ?t = "s\<lparr>heap := (heap s)(a \<mapsto> b)\<rparr>"
  have r: "registry_inv s" and h: "heap_inv s" using assms(1) by (simp_all add: mem_inv_def)
  have "registry_inv ?t" "devices_of ?t = devices_of s"
    using registry_inv_frame [OF r, of ?t] mem_inv_length [OF assms(1)] by simp_all
  moreover have "heap_inv ?t"
    using heap_inv_store [OF h assms(2,3), of ?t] by simp
  ultimately show "mem_inv ?t" "devices_of ?t = devices_of s" by (simp_all add: mem_inv_def)
qed

lemma read7_result:
  assumes "opened7 (s, filp)" and io: "io_ok BUF_LEN7 pos count f"
  shows "chrdev_read7 f s filp count pos =
         Inr (of_nat (moved BUF_LEN7 pos count), pos + of_nat (moved BUF_LEN7 pos count),
              take (moved BUF_LEN7 pos count - unat (f (of_nat (moved BUF_LEN7 pos count))))
                (drop (unat pos) (contents7 (s, filp))))"
proof -
  from assms(1) obtain i a b where i: "private_data filp = Some i" "bufp (slot s i) = Some a"
    "heap s a = Some b" "contents7 (s, filp) = b" and len: "length b = unat BUF_LEN7"
    by (elim opened7_buf) simp
  let ?n = "moved BUF_LEN7 pos count" and ?l = "unat (f (of_nat (moved BUF_LEN7 pos count)))"
  have "bindo (load_buf s (Some a)) (\<lambda>b. mem_read b (unat pos) (?n - ?l)) =
        Inr (take (?n - ?l) (drop (unat pos) b))"
    using mem_read_moved [OF io_okD(1) [OF io] len, of count] i(3) by (simp add: load_buf_Some)
  then show ?thesis
    using clamped [OF io] no_error [OF io]
    by (simp add: chrdev_read7_def i Let_def)
qed

lemma write7_result:
  assumes op: "opened7 (s, filp)" and wr: "writable7 (s, filp)" and io: "io_ok BUF_LEN7 pos count f"
    and n: "n = moved BUF_LEN7 pos count"
    and c: "c = take (unat pos) (contents7 (s, filp)) @
                from_user usr n (unat (f (of_nat n))) @
                drop (unat pos + n) (contents7 (s, filp))"
  shows "\<exists>s'. chrdev_write7 f usr s filp count pos = Inr (of_nat n, pos + of_nat n, s') \<and>
              opened7 (s', filp) \<and> writable7 (s', filp) \<and> contents7 (s', filp) = c \<and>
              devices_of s' = devices_of s"
proof -
  from op obtain i a b where i: "i < 8" "private_data filp = Some i" "busy (slot s i)" and inv: "mem_inv s"
    and buf: "bufp (slot s i) = Some a" "heap s a = Some b" "contents7 (s, filp) = b"
    and len: "length b = 4096"
    by (elim opened7_buf)
  have ro: "read_only (slot s i) = 0"
    using wr i(2) by (simp add: writable7_def)
  have pos: "unat pos \<le> 4096" using io_okD(1) [OF io] by simp
  have fits: "unat pos + n \<le> 4096" using moved_fits [OF io_okD(1) [OF io], of count] n by simp
  have clen: "length c = 4096"
    using fits len by (simp add: c buf)
  let ?t = "if n = 0 then s else s\<lparr>heap := (heap s)(a \<mapsto> c)\<rparr>"
  have zero: "(of_nat n :: u64) = 0 \<longleftrightarrow> n = 0"
    unfolding n using unat_of_moved_0 .
  have "mem_write b (unat pos) (from_user usr n (unat (f (of_nat n)))) = Inr c"
    using mem_write_moved [OF io_okD(1) [OF io], of b _ count] len by (simp add: n c buf)
  then have eq: "chrdev_write7 f usr s filp count pos = Inr (of_nat n, pos + of_nat n, ?t)"
    using clamped [OF io] no_error [OF io] zero unat_of_moved [of BUF_LEN7 pos count]
    by (simp add: chrdev_write7_def i(2) ro buf Let_def load_buf_Some store_buf_def flip: n)
  have same: "c = b" if "n = 0"
    using that by (simp add: c buf from_user_def)
  have "mem_inv ?t" "devices_of ?t = devices_of s"
    using mem_inv_store [OF inv _ clen, of a] inv buf(2) by simp_all
  moreover have "contents7 (?t, filp) = c"
    using same buf i(2) by (simp add: contents7_def)
  moreover have "writable7 (?t, filp)"
    using ro i(2) by (simp add: writable7_def)
  moreover have "busy (slot ?t i)" using i(3) by simp
  ultimately show ?thesis
    using eq i(1,2) by (auto simp only: opened7_def prod.case intro!: exI [of _ ?t])
qed

interpretation io7: buffer_device
  "\<lambda>f (s, filp) count pos. chrdev_read7 f s filp count pos"
  "\<lambda>f usr (s, filp) count pos.
     map_sum id (\<lambda>(r, p, s'). (r, p, (s', filp))) (chrdev_write7 f usr s filp count pos)"
  contents7 writable7 opened7 BUF_LEN7
proof (unfold_locales, goal_cases)
  case (1 t)
  then show ?case by (cases t) (auto elim!: opened7_buf)
next
  case (2 t pos count f)
  then show ?case by (cases t) (simp add: read7_result)
next
  case (3 t pos count f usr)
  obtain s filp where t: "t = (s, filp)" by (cases t)
  from write7_result [OF 3(1,2) [unfolded t] 3(3) refl refl, of usr]
  show ?case by (auto simp: t)
next
  case (4 t f usr count pos)
  then obtain s filp i where "t = (s, filp)" "private_data filp = Some i" "read_only (slot s i) \<noteq> 0"
    by (cases t) (auto simp: opened7_def writable7_def)
  then show ?case by (simp add: chrdev_write7_def)
qed

section \<open>Positioning\<close>

lemma sint_word_of_int_small:
  "- (2 ^ 63) \<le> x \<Longrightarrow> x < 2 ^ 63 \<Longrightarrow> sint (word_of_int x :: s64) = x"
  by (simp add: signed_of_int signed_take_bit_int_eq_self)

lemma uint_word_of_int_small:
  "0 \<le> x \<Longrightarrow> x < 2 ^ 64 \<Longrightarrow> uint (word_of_int x :: u64) = x"
  by (simp add: unsigned_of_int take_bit_int_eq_self)

lemma llseek7_moves:
  assumes "unat (f_pos filp) \<le> 4096"
    and "base = (if whence = SEEK_SET then 0 else if whence = SEEK_CUR then uint (f_pos filp) else 4096)"
    and "whence \<in> {SEEK_SET, SEEK_CUR, SEEK_END}"
  shows "chrdev_llseek filp off whence =
     (if 0 \<le> base + sint off \<and> base + sint off < 4096
      then (word_of_int (base + sint off), filp\<lparr>f_pos := word_of_int (base + sint off)\<rparr>)
      else (- EINVAL, filp))"
proof -
  let ?b = "uint (f_pos filp)"
  have b: "0 \<le> ?b" "?b \<le> 4096"
    using assms(1) uint_nat [of "f_pos filp"] by linarith+
  have off: "- (2 ^ 63) \<le> sint off" "sint off < 2 ^ 63"
    using sint_ge [of off] sint_lt [of off] by simp_all
  have base: "0 \<le> base" "base \<le> 4096" using assms(2) b by auto
  define p :: u64 where "p = word_of_int (base + sint off)"
  have pos: "(if whence = SEEK_SET then Some off
         else if whence = SEEK_CUR then Some (f_pos filp + off)
         else if whence = SEEK_END then Some (BUF_LEN7 + off)
         else None) = Some p"
    using assms(3) unfolding p_def assms(2) SEEK_SET_def SEEK_CUR_def SEEK_END_def
    by (elim insertE emptyE) (simp_all add: BUF_LEN7_def PAGE_SIZE_def)
  have "\<not> negative p \<and> p < 4096 \<longleftrightarrow> 0 \<le> base + sint off \<and> base + sint off < 4096"
  proof (cases "base + sint off < 0")
    case True
    then have "sint p = base + sint off"
      using off base unfolding p_def by (intro sint_word_of_int_small) simp_all
    then show ?thesis using True by (simp add: negative_def)
  next
    case False
    then have u: "uint p = base + sint off"
      using off base unfolding p_def by (intro uint_word_of_int_small) simp_all
    have "\<not> negative p" if "base + sint off < 4096"
    proof -
      have "sint p = base + sint off"
        using that False unfolding p_def by (intro sint_word_of_int_small) simp_all
      with False show ?thesis by (simp add: negative_def)
    qed
    then show ?thesis using False u by (auto simp: word_less_def)
  qed
  then show ?thesis
    unfolding chrdev_llseek_def pos by (auto simp: p_def BUF_LEN7_def PAGE_SIZE_def not_le)
qed

lemma llseek7_law:
  assumes "unat pos \<le> unat BUF_LEN7"
  shows "map_prod id f_pos (chrdev_llseek (filp\<lparr>f_pos := pos\<rparr>) off whence) =
     (case seek_target (unat pos) (unat BUF_LEN7) off whence of
        None \<Rightarrow> (- EINVAL, pos)
      | Some p \<Rightarrow> (of_nat p, of_nat p))"
proof (cases "whence \<in> {SEEK_SET, SEEK_CUR, SEEK_END}")
  case True
  have pos: "unat (f_pos (filp\<lparr>f_pos := pos\<rparr>)) \<le> 4096" using assms by simp
  define base where "base = (if whence = SEEK_SET then 0 else if whence = SEEK_CUR then uint pos else 4096)"
  have base: "seek_base (unat pos) 4096 whence = Some base"
    using True by (auto simp: base_def seek_base_def SEEK_SET_def SEEK_CUR_def SEEK_END_def)
  have moves: "chrdev_llseek (filp\<lparr>f_pos := pos\<rparr>) off whence =
     (if 0 \<le> base + sint off \<and> base + sint off < 4096
      then (word_of_int (base + sint off), filp\<lparr>f_pos := pos, f_pos := word_of_int (base + sint off)\<rparr>)
      else (- EINVAL, filp\<lparr>f_pos := pos\<rparr>))"
    by (rule llseek7_moves [OF pos _ True]) (simp add: base_def)
  show ?thesis
  proof (cases "0 \<le> base + sint off \<and> base + sint off < 4096")
    case True
    then show ?thesis by (simp add: moves seek_target_def base)
  qed (auto simp: moves seek_target_def base)
next
  case False
  then show ?thesis
    by (simp add: chrdev_llseek_def seek_target_def seek_base_def SEEK_SET_def SEEK_CUR_def SEEK_END_def)
qed

interpretation seek7: seekable_buffer
  "\<lambda>f (s, filp) count pos. chrdev_read7 f s filp count pos"
  "\<lambda>f usr (s, filp) count pos.
     map_sum id (\<lambda>(r, p, s'). (r, p, (s', filp))) (chrdev_write7 f usr s filp count pos)"
  contents7 writable7 opened7 BUF_LEN7
  "\<lambda>(s, filp) pos off whence. map_prod id f_pos (chrdev_llseek (filp\<lparr>f_pos := pos\<rparr>) off whence)"
proof (unfold_locales, goal_cases)
  case (1 pos t off whence)
  then show ?case by (cases t) (simp only: prod.case llseek7_law [OF 1])
qed

section \<open>Concrete state for the witnesses\<close>

definition sample_env7 :: reg_env_mem where
  "sample_env7 = \<lparr>cdev_add_ret = 0, device_create_ret = Inr 7, kzalloc_ret = Some 100\<rparr>"

text \<open>Device 0 registered as \<open>"a"\<close>, writable.\<close>

definition sample7 :: drv7 where
  "sample7 = registered_mem (\<lambda>c. c) (\<lambda>_. None) sample_env7 (cstr ''a'') 0 0 1 2 ''a@0'' 100 start7"

definition sample_file7 :: ofile where
  "sample_file7 = \<lparr>private_data = Some 0, f_pos = 0\<rparr>"

lemma start7_free: "i < 8 \<Longrightarrow> slot start7 i = zero_dev7"
  by (simp add: slot_def start7_def)

lemma sample7_inv: "mem_inv sample7"
  unfolding sample7_def
  by (rule registered_mem_inv(1) [OF mem_inv_start7 _ _ _ _ no_extras, of _ _ _ 7])
    (simp_all add: start7_free zero_dev7_def sample_env7_def, simp add: start7_def)

lemma sample7_slot:
  "slot sample7 0 = \<lparr>label = label_array (cstr ''a''), busy = True, read_only = 0, devid = 0,
                     dev = Dev 7 (MKDEV 0 0), bufp = Some 100\<rparr>"
  by (simp add: sample7_def registered_mem_def Let_def start7_free zero_dev7_def opt_call_def
      sample_env7_def device_create_def) (simp add: start7_def zero_dev7_def slot_def upd_slot_def call_def)

lemma sample7_opened: "opened7 (sample7, sample_file7)" and sample7_writable: "writable7 (sample7, sample_file7)"
  using sample7_inv by (simp_all add: opened7_def writable7_def sample_file7_def sample7_slot)

section \<open>Properties of the file methods\<close>

text \<open>What \<open>mmap\<close> does with an area of whole pages.\<close>

lemma mmap7_result:
  assumes "private_data filp = Some i"
    and "4096 dvd unat (vm_end vma - vm_start vma)" and "vm_start vma \<noteq> vm_end vma"
  shows "chrdev_mmap v2p r s filp vma =
     Inr (if vm_pgoff vma = 0 \<and> vm_end vma - vm_start vma = 4096
          then (if r = 0 then 0 else - EAGAIN,
                call (Remap_Pfn_Range i (vm_start vma) (drop_bit 12 (v2p (bufp (slot s i)))) 4096 r) s)
          else (- EINVAL, s))"
proof -
  let ?size = "vm_end vma - vm_start vma" and ?g = "vm_pgoff vma"
  have "unat ?size \<noteq> 0"
    using assms(3) by (metis eq_iff_diff_eq_0 unat_eq_0)
  then have size: "4096 \<le> unat ?size"
    using assms(2) by (auto dest: dvd_imp_le)
  show ?thesis
  proof (cases "?g = 0")
    case True
    have "\<not> 4096 < ?size \<longleftrightarrow> ?size = 4096"
    proof
      assume "\<not> 4096 < ?size"
      then have "unat ?size \<le> 4096" by (simp add: word_le_nat_alt not_less)
      with size have "unat ?size = unat (4096 :: u64)" by simp
      then show "?size = 4096" by (rule word_unat_eq_iff [THEN iffD2])
    qed simp
    with True show ?thesis
      using assms(1) by (auto simp: chrdev_mmap_def PAGE_SHIFT_def BUF_LEN7_def PAGE_SIZE_def Let_def)
  next
    case False
    let ?o = "push_bit 12 ?g :: u64"
    have "4096 < ?o \<or> 4096 - ?o < ?size" if "drop_bit 12 ?o = ?g"
    proof -
      have "unat ?o div 4096 = unat (drop_bit 12 ?o)"
        unfolding unat_drop_bit_eq by (simp add: drop_bit_eq_div)
      also have "\<dots> \<noteq> 0"
        using False by (simp only: that unat_eq_0 not_False_eq_True)
      finally have "4096 \<le> unat ?o"
        by (simp only: div_eq_0_iff) simp
      then consider "4096 < unat ?o" | "unat ?o = unat (4096 :: u64)"
        by fastforce
      then show ?thesis
      proof cases
        case 1
        then show ?thesis by (simp only: word_less_nat_alt) simp
      next
        case 2
        then have "?o = 4096" by (rule word_unat_eq_iff [THEN iffD2])
        moreover have "0 < ?size"
          using assms(3) by (simp add: word_gt_0)
        ultimately show ?thesis by simp
      qed
    qed
    with False show ?thesis
      using assms(1) by (auto simp: chrdev_mmap_def PAGE_SHIFT_def BUF_LEN7_def PAGE_SIZE_def Let_def)
  qed
qed

text \<open>\<open>mmap\<close> of a page-aligned, non-empty area remaps exactly when the area asks for the one page
  at offset 0: then the page frame of the device's buffer, and nothing else, is mapped; every other
  offset or length is refused and nothing is mapped.\<close>

lemma mmap7_one_page:
  assumes "private_data filp = Some i"
    and "4096 dvd unat (vm_end vma - vm_start vma)" and "vm_start vma \<noteq> vm_end vma"
  shows "chrdev_mmap v2p r s filp vma =
     Inr (if vm_pgoff vma = 0 \<and> vm_end vma - vm_start vma = 4096
          then (if r = 0 then 0 else - EAGAIN,
                call (Remap_Pfn_Range i (vm_start vma) (drop_bit 12 (v2p (bufp (slot s i)))) 4096 r) s)
          else (- EINVAL, s))"
  using assms by (rule mmap7_result)

lemma mmap7_one_page_witness:
  "chrdev_mmap (\<lambda>_. 0x80000000) 0 sample7 sample_file7
     \<lparr>vm_start = 0x10000, vm_end = 0x11000, vm_pgoff = 0\<rparr> =
   Inr (0, call (Remap_Pfn_Range 0 0x10000 (drop_bit 12 0x80000000) 4096 0) sample7)"
  using mmap7_one_page [of sample_file7 0 "\<lparr>vm_start = 0x10000, vm_end = 0x11000, vm_pgoff = 0\<rparr>"
      "\<lambda>_. 0x80000000" 0 sample7]
  by (simp add: sample_file7_def)

text \<open>C20: \<open>llseek\<close> from a position inside the buffer moves to the sum of base and offset exactly when
  that sum, as an integer, lies in the buffer, and otherwise answers \<open>-EINVAL\<close> and does not move:
  neither the wrap-around of the addition nor the unsigned comparison lets another position through.\<close>

theorem llseek7_exact:
  assumes "unat (f_pos filp) \<le> 4096"
    and "base = (if whence = SEEK_SET then 0 else if whence = SEEK_CUR then uint (f_pos filp) else 4096)"
    and "whence \<in> {SEEK_SET, SEEK_CUR, SEEK_END}"
  shows "chrdev_llseek filp off whence =
     (if 0 \<le> base + sint off \<and> base + sint off < 4096
      then (word_of_int (base + sint off), filp\<lparr>f_pos := word_of_int (base + sint off)\<rparr>)
      else (- EINVAL, filp))"
  using assms by (rule llseek7_moves)

theorem llseek7_exact_witness:
  "chrdev_llseek \<lparr>private_data = Some 0, f_pos = 4096\<rparr> (- 96) SEEK_CUR =
     (word_of_int 4000, \<lparr>private_data = Some 0, f_pos = word_of_int 4000\<rparr>)"
  using llseek7_exact [of "\<lparr>private_data = Some 0, f_pos = 4096\<rparr>" 4096 SEEK_CUR "- 96"]
  by (simp add: SEEK_SET_def SEEK_CUR_def)

lemma ioctl_codes:
  "CHRDEV_IOC_GETINFO = 0x80244300" "WDIOC_SET_RDONLY = 0x40044301"
  "CHRDEV_IOCTL_BASE = 67"
  by (simp_all add: CHRDEV_IOC_GETINFO_def WDIOC_SET_RDONLY_def IOC_def CHRDEV_IOCTL_BASE_def
      sizeof_chrdev_info_def)

lemma ioctl_types:
  "IOC_TYPE CHRDEV_IOC_GETINFO = CHRDEV_IOCTL_BASE" "IOC_TYPE WDIOC_SET_RDONLY = CHRDEV_IOCTL_BASE"
  "WDIOC_SET_RDONLY \<noteq> CHRDEV_IOC_GETINFO"
  by (simp_all add: ioctl_codes IOC_TYPE_def)

text \<open>How a user program reads the structure back.\<close>

fun bytes_int :: "byte list \<Rightarrow> s32" where
  "bytes_int [b0, b1, b2, b3] =
     or (or (ucast b0) (push_bit 8 (ucast b1))) (or (push_bit 16 (ucast b2)) (push_bit 24 (ucast b3)))"
| "bytes_int _ = 0"

definition info_of_bytes :: "byte list \<Rightarrow> chrdev_info" where
  "info_of_bytes bs = \<lparr>info_label = map (\<lambda>b. char_of (unat b)) (take NAME_LEN bs),
                       info_read_only = bytes_int (drop NAME_LEN bs)\<rparr>"

lemma char_byte: "char_of (unat (of_char c :: byte)) = c"
proof -
  have "unat (of_nat (of_char c) :: byte) = of_char c"
    by (simp only: unsigned_of_nat) (simp add: take_bit_nat_eq_self nat_of_char_less_256)
  then show ?thesis by (simp only: of_nat_of_char char_of_char)
qed

lemma bytes_int_bytes: "bytes_int (int_bytes w) = w"
proof (rule bit_word_eqI)
  fix n
  assume "n < LENGTH(32)"
  then consider "n < 8" | "8 \<le> n" "n < 16" | "16 \<le> n" "n < 24" | "24 \<le> n" "n < 32"
    by fastforce
  then show "bit (bytes_int (int_bytes w)) n \<longleftrightarrow> bit w n"
    by cases (auto simp: int_bytes_def bit_simps)
qed

lemma info_bytes_length: "length (info_label info) = 32 \<Longrightarrow> length (info_bytes info) = 36"
  by (simp add: info_bytes_def int_bytes_def)

lemma info_round_trip: "length (info_label info) = 32 \<Longrightarrow> info_of_bytes (info_bytes info) = info"
  by (simp add: info_of_bytes_def info_bytes_def bytes_int_bytes comp_def char_byte)

lemma str_of_padded: "length (str_of m) \<le> n \<Longrightarrow> str_of (str_of m @ replicate (n - length (str_of m)) NUL) = str_of m"
  by (cases "n - length (str_of m)") (simp_all add: str_of_append_NUL, simp add: str_of_def)

text \<open>Copying a whole label array keeps the string in it, terminated or not.\<close>

lemma strncpy_array:
  "length m = n \<Longrightarrow> strncpy m n = Inr (str_of m @ replicate (n - length (str_of m)) NUL)"
  by (induction m n rule: strncpy.induct) (auto simp: str_of_def)

lemma length_str_of: "length (str_of m) \<le> length m"
  by (simp add: str_of_def length_takeWhile_le)

text \<open>The two requests on an open device.\<close>

definition padded_label :: "nat \<Rightarrow> drv7 \<Rightarrow> char list" where
  "padded_label i s = str_of (label (slot s i)) @ replicate (32 - length (str_of (label (slot s i)))) NUL"

lemma opened7_label:
  assumes "opened7 (s, filp)" and "private_data filp = Some i"
  shows "i < 8" and "length (label (slot s i)) = 32" and "length (chrdev_array s) = 8"
    and "length (padded_label i s) = 32" and "str_of (padded_label i s) = str_of (label (slot s i))"
proof -
  from assms show i: "i < 8" by (auto simp: opened7_def)
  show len: "length (label (slot s i)) = 32" "length (chrdev_array s) = 8"
    using registry_invD(1,2) [of s] i assms by (auto simp: opened7_def mem_inv_def slot_ok_def)
  show "length (padded_label i s) = 32" "str_of (padded_label i s) = str_of (label (slot s i))"
    using length_str_of [of "label (slot s i)"] len(1) by (simp_all add: padded_label_def str_of_padded)
qed

lemma ioctl7_get:
  assumes "opened7 (s, filp)" and "private_data filp = Some i"
  shows "chrdev_ioctl (\<lambda>_. 0) u s filp CHRDEV_IOC_GETINFO =
     Inr (0, info_bytes \<lparr>info_label = padded_label i s, info_read_only = read_only (slot s i)\<rparr>, s)"
proof -
  note l = opened7_label [OF assms]
  let ?info = "\<lparr>info_label = padded_label i s, info_read_only = read_only (slot s i)\<rparr>"
  have "length (info_bytes ?info) = 36"
    using l(4) by (intro info_bytes_length) simp
  then show ?thesis
    using assms(2) ioctl_types(1) strncpy_array [OF l(2)]
    by (simp add: chrdev_ioctl_def Let_def sizeof_chrdev_info_def padded_label_def)
qed

lemma ioctl7_set:
  assumes "opened7 (s, filp)" and "private_data filp = Some i"
    and "t = upd_slot i (\<lambda>c. c\<lparr>read_only := v\<rparr>) s"
  shows "chrdev_ioctl f (Some v) s filp WDIOC_SET_RDONLY = Inr (0, [], t)"
    and "opened7 (t, filp)" and "contents7 (t, filp) = contents7 (s, filp)"
    and "writable7 (t, filp) \<longleftrightarrow> v = 0" and "label (slot t i) = label (slot s i)"
    and "read_only (slot t i) = v"
proof -
  note l = opened7_label [OF assms(1,2)]
  have inv: "mem_inv s" and b: "busy (slot s i)"
    using assms(1,2) by (auto simp: opened7_def)
  show "chrdev_ioctl f (Some v) s filp WDIOC_SET_RDONLY = Inr (0, [], t)"
    using assms(2,3) ioctl_types by (simp add: chrdev_ioctl_def)
  have "registry_inv t" "devices_of t = devices_of s"
    using registry_inv_frame [of s t] l inv assms(3) by (auto simp: mem_inv_def)
  moreover have "heap_inv t"
    using heap_inv_frame [of s t] l inv assms(3) by (auto simp: mem_inv_def)
  ultimately show "opened7 (t, filp)"
    using l(1,3) b assms(2,3) by (auto simp: opened7_def mem_inv_def)
  show "contents7 (t, filp) = contents7 (s, filp)" "writable7 (t, filp) \<longleftrightarrow> v = 0"
    "label (slot t i) = label (slot s i)" "read_only (slot t i) = v"
    using l(1,3) by (simp_all add: assms(2,3) contents7_def writable7_def)
qed

text \<open>After a successful \<open>WDIOC_SET_RDONLY\<close>, \<open>CHRDEV_IOC_GETINFO\<close> hands the user the device's
  label and exactly the value that was set, in a structure of which every byte is written, and a write
  is refused precisely when that value is not zero.\<close>

lemma ioctl7_set_get:
  assumes "opened7 (s, filp)" and "private_data filp = Some i"
    and "io_ok BUF_LEN7 pos count g"
  shows "\<exists>s1 out. chrdev_ioctl f (Some v) s filp WDIOC_SET_RDONLY = Inr (0, [], s1) \<and>
     chrdev_ioctl (\<lambda>_. 0) u s1 filp CHRDEV_IOC_GETINFO = Inr (0, out, s1) \<and>
     length out = sizeof_chrdev_info \<and> info_read_only (info_of_bytes out) = v \<and>
     str_of (info_label (info_of_bytes out)) = str_of (label (slot s i)) \<and>
     ((\<exists>t. chrdev_write7 g usr s1 filp count pos = Inr (- EINVAL, pos, t)) \<longleftrightarrow> v \<noteq> 0)"
proof -
  note set = ioctl7_set [OF assms(1,2) refl, where v = v]
  let ?s = "upd_slot i (\<lambda>c. c\<lparr>read_only := v\<rparr>) s"
  note get = ioctl7_get [OF set(2) assms(2), of u]
  let ?out = "info_bytes \<lparr>info_label = padded_label i ?s, info_read_only = read_only (slot ?s i)\<rparr>"
  note l = opened7_label [OF set(2) assms(2)]
  have out: "length ?out = sizeof_chrdev_info" "info_of_bytes ?out =
      \<lparr>info_label = padded_label i ?s, info_read_only = v\<rparr>"
    using info_bytes_length info_round_trip l(4) set(6) by (simp_all add: sizeof_chrdev_info_def)
  have "(\<exists>t. chrdev_write7 g usr ?s filp count pos = Inr (- EINVAL, pos, t)) \<longleftrightarrow> v \<noteq> 0"
  proof (cases "v = 0")
    case True
    then have "writable7 (?s, filp)" using set(4) by simp
    from write7_result [OF set(2) this assms(3) refl refl] obtain t where
      t: "chrdev_write7 g usr ?s filp count pos =
          Inr (of_nat (moved BUF_LEN7 pos count), pos + of_nat (moved BUF_LEN7 pos count), t)" by blast
    have "(of_nat (moved BUF_LEN7 pos count) :: s64) \<noteq> - EINVAL"
    proof
      assume "(of_nat (moved BUF_LEN7 pos count) :: s64) = - EINVAL"
      then have "moved BUF_LEN7 pos count = unat (- EINVAL :: s64)"
        by (metis unat_of_moved)
      with moved_le(1) [of BUF_LEN7 pos count] show False by simp
    qed
    with t True show ?thesis by simp
  next
    case False
    then show ?thesis
      using assms(2) set(6) by (simp add: chrdev_write7_def)
  qed
  with set(1,5) get l(5) out show ?thesis by auto
qed

lemma ioctl7_set_get_witness:
  "\<exists>s1 out. chrdev_ioctl (\<lambda>_. 0) (Some 1) sample7 sample_file7 WDIOC_SET_RDONLY = Inr (0, [], s1) \<and>
     chrdev_ioctl (\<lambda>_. 0) None s1 sample_file7 CHRDEV_IOC_GETINFO = Inr (0, out, s1) \<and>
     info_read_only (info_of_bytes out) = 1 \<and>
     (\<exists>t. chrdev_write7 (\<lambda>_. 0) [] s1 sample_file7 5 0 = Inr (- EINVAL, 0, t))"
  using ioctl7_set_get [OF sample7_opened, of 0 0 5 "\<lambda>_. 0" "\<lambda>_. 0" 1 None "[]"]
  by (auto simp: sample_file7_def io_ok_def copy_ok_def)

text \<open>\<open>WDIOC_SET_RDONLY\<close> with an unreadable address answers \<open>-EFAULT\<close> but has changed the
  device: \<open>get_user()\<close> zeroes the variable it fails to read, so a read-only device becomes
  writable.\<close>

lemma ioctl7_fault_unlocks:
  assumes "opened7 (s, filp)" and "\<not> writable7 (s, filp)"
  shows "\<exists>s1. chrdev_ioctl f None s filp WDIOC_SET_RDONLY = Inr (- EFAULT, [], s1) \<and>
              writable7 (s1, filp)"
proof -
  from assms(1) obtain i where i: "i < 8" "private_data filp = Some i" and inv: "mem_inv s"
    by (auto simp: opened7_def)
  show ?thesis
    using i mem_inv_length [OF inv] ioctl_types
    by (auto simp: chrdev_ioctl_def writable7_def)
qed

lemma ioctl7_fault_unlocks_witness:
  "\<exists>s s1. \<not> writable7 (s, sample_file7) \<and>
     chrdev_ioctl (\<lambda>_. 0) None s sample_file7 WDIOC_SET_RDONLY = Inr (- EFAULT, [], s1) \<and>
     writable7 (s1, sample_file7)"
proof -
  let ?s = "registered_mem (\<lambda>c. c) (\<lambda>_. None) sample_env7 (cstr ''a'') 0 1 1 2 ''a@0'' 100 start7"
  have inv: "mem_inv ?s"
    by (rule registered_mem_inv(1) [OF mem_inv_start7 _ _ _ _ no_extras, of _ _ _ 7])
      (simp_all add: start7_free zero_dev7_def sample_env7_def, simp add: start7_def)
  have slot: "busy (slot ?s 0)" "read_only (slot ?s 0) = 1"
    using mem_inv_length [OF mem_inv_start7] by (simp_all add: registered_mem_def Let_def opt_call_def)
  have "opened7 (?s, sample_file7)" "\<not> writable7 (?s, sample_file7)"
    using inv slot by (simp_all add: opened7_def writable7_def sample_file7_def)
  from ioctl7_fault_unlocks [OF this, of "\<lambda>_. 0"] this(2) show ?thesis by blast
qed

text \<open>Positioning with \<open>llseek\<close>, writing, and positioning again makes a read return what was
  written, up to the end of the page.\<close>

lemma llseek7_write_read:
  assumes "opened7 (s, filp)" and "writable7 (s, filp)" and "0 \<le> p" and "p < 4096"
    and "unat (f_pos filp) \<le> 4096" and "unat count \<le> length usr" and "unat count < 2 ^ 63"
    and "n = min (unat count) (4096 - nat p)"
  shows "\<exists>f1 s1. chrdev_llseek filp (word_of_int p) SEEK_SET = (word_of_int p, f1) \<and>
     chrdev_write7 (\<lambda>_. 0) usr s f1 count (f_pos f1) = Inr (of_nat n, f_pos f1 + of_nat n, s1) \<and>
     chrdev_llseek (f1\<lparr>f_pos := f_pos f1 + of_nat n\<rparr>) (word_of_int p) SEEK_SET = (word_of_int p, f1) \<and>
     chrdev_read7 (\<lambda>_. 0) s1 f1 count (f_pos f1) = Inr (of_nat n, f_pos f1 + of_nat n, take n usr)"
proof -
  let ?pos = "word_of_int p :: s64" and ?f1 = "filp\<lparr>f_pos := word_of_int p\<rparr>"
  have s: "sint ?pos = p" "uint ?pos = p"
    using assms(3,4) by (auto intro: sint_word_of_int_small uint_word_of_int_small)
  have pos: "unat ?pos = nat p"
    by (simp only: unat_eq_nat_uint s)
  have seek: "chrdev_llseek f ?pos SEEK_SET = (?pos, f\<lparr>f_pos := ?pos\<rparr>)" for f
  proof -
    have "\<not> BUF_LEN7 \<le> ?pos"
      using assms(3,4) by (simp only: word_le_def s) (simp add: BUF_LEN7_def PAGE_SIZE_def)
    moreover have "\<not> negative ?pos"
      using assms(3) by (simp only: negative_def s)
    ultimately show ?thesis by (simp add: chrdev_llseek_def)
  qed
  have fit: "unat ?pos \<le> unat BUF_LEN7" "unat ?pos + unat count < 2 ^ 64"
    unfolding pos using assms(3,4,7) by (simp_all add: nat_le_iff)
  have op: "opened7 (s, ?f1)" "writable7 (s, ?f1)"
    using assms(1,2) by (simp_all add: opened7_def writable7_def)
  have n: "n = moved BUF_LEN7 ?pos count"
    using assms(8) unfolding moved_def pos by simp
  from io7.write_read [OF op fit assms(6)] obtain s1 where
    "chrdev_write7 (\<lambda>_. 0) usr s ?f1 count ?pos = Inr (of_nat n, ?pos + of_nat n, s1)"
    "chrdev_read7 (\<lambda>_. 0) s1 ?f1 count ?pos = Inr (of_nat n, ?pos + of_nat n, take n usr)"
    by (auto simp: map_sum_def n split: sum.splits)
  with seek show ?thesis by (intro exI [of _ ?f1] exI [of _ s1]) simp
qed

lemma llseek7_write_read_witness:
  "\<exists>f1 s1. chrdev_llseek sample_file7 (word_of_int 10) SEEK_SET = (word_of_int 10, f1) \<and>
     chrdev_write7 (\<lambda>_. 0) [1, 2, 3] sample7 f1 3 (f_pos f1) = Inr (of_nat 3, f_pos f1 + of_nat 3, s1) \<and>
     chrdev_read7 (\<lambda>_. 0) s1 f1 3 (f_pos f1) = Inr (of_nat 3, f_pos f1 + of_nat 3, [1, 2, 3])"
proof -
  have h: "(0 :: int) \<le> 10" "(10 :: int) < 4096" "unat (f_pos sample_file7) \<le> 4096"
    "unat (3 :: u64) \<le> length [1, 2, 3 :: byte]" "unat (3 :: u64) < 2 ^ 63"
    "3 = min (unat (3 :: u64)) (4096 - nat 10)"
    by (simp_all add: sample_file7_def)
  have "take 3 [1, 2, 3 :: byte] = [1, 2, 3]" by simp
  with llseek7_write_read [OF sample7_opened sample7_writable h] show ?thesis by metis
qed

section \<open>Properties of the registrations\<close>

text \<open>Unregistering frees the buffer but leaves the pointer to it in the slot.\<close>

lemma unregister7_frees:
  assumes "chrdev_device_unregister7 lbl ident s = Inr (0, s')" and "length (chrdev_array s) = 8"
    and "bufp (slot s (unat ident)) = Some a"
  shows "bufp (slot s' (unat ident)) = Some a" and "heap s' a = None"
    and "read_only (slot s' (unat ident)) = read_only (slot s (unat ident))"
    and "unat ident < 8"
  using assms
  by (auto simp: chrdev_device_unregister7_def MAX_DEVICES_le Let_def kfree_def bindo_Inr_iff
      split: if_splits dev_ptr.splits)

text \<open>Reading through a pointer to a freed page.\<close>

lemma read7_freed:
  assumes "private_data filp = Some i" and "bufp (slot s i) = Some a" and "heap s a = None"
    and "unat pos < 4096" and "0 < unat count" and "unat pos + unat count < 2 ^ 64"
  shows "chrdev_read7 (\<lambda>_. 0) s filp count pos = Inl UseAfterFree"
proof -
  have io: "io_ok BUF_LEN7 pos count (\<lambda>_. 0)"
    using assms by (simp add: io_ok_def copy_ok_def)
  have "moved BUF_LEN7 pos count \<noteq> 0"
    using assms(4,5) by (simp add: moved_def)
  then show ?thesis
    using assms(1-3) clamped [OF io] by (simp add: chrdev_read7_def Let_def load_buf_def)
qed

text \<open>A file that was open when its device was unregistered still reaches the freed page: a read
  that delivers anything, or a write of at least one byte, is a use after free.\<close>

lemma unregister7_use_after_free:
  assumes "opened7 (s, filp)" and "private_data filp = Some (unat ident)"
    and "chrdev_device_unregister7 lbl ident s = Inr (0, s')"
    and "unat pos < 4096" and "0 < unat count" and "unat pos + unat count < 2 ^ 64"
  shows "chrdev_read7 (\<lambda>_. 0) s' filp count pos = Inl UseAfterFree \<and>
     (writable7 (s, filp) \<longrightarrow> chrdev_write7 f usr s' filp count pos = Inl UseAfterFree)"
proof -
  obtain a where a: "bufp (slot s (unat ident)) = Some a" and len: "length (chrdev_array s) = 8"
    using assms(1,2) by (elim opened7_buf) (auto dest: mem_inv_length)
  note gone = unregister7_frees [OF assms(3) len a]
  have io: "io_ok BUF_LEN7 pos count (\<lambda>_. 0)"
    using assms by (simp add: io_ok_def copy_ok_def)
  have n: "moved BUF_LEN7 pos count \<noteq> 0"
    using assms(4,5) by (simp add: moved_def)
  have "chrdev_read7 (\<lambda>_. 0) s' filp count pos = Inl UseAfterFree"
    by (rule read7_freed [OF assms(2) _ _ assms(4-6)]) (use gone in auto)
  moreover have "chrdev_write7 f usr s' filp count pos = Inl UseAfterFree" if "writable7 (s, filp)"
    using that gone assms(2) clamped [OF io] n unat_of_moved_0 [of BUF_LEN7 pos count]
    by (simp add: chrdev_write7_def Let_def load_buf_def writable7_def)
  ultimately show ?thesis by blast
qed

text \<open>The sample device unregistered again.\<close>

lemma sample7_unregister:
  obtains s' where "chrdev_device_unregister7 (cstr ''a'') 0 sample7 = Inr (0, s')"
proof -
  have short: "length (str_of (cstr ''a'')) < 32"
    by (simp add: str_of_cstr NUL_def)
  have view: "devices_of sample7 0 = Some (label_array (cstr ''a''))"
    by (simp add: devices_of_Some sample7_slot)
  then have "names (devices_of sample7) (unat (0 :: u32)) (cstr ''a'')"
    by (simp add: names_def label_array_short(2) [OF short])
  moreover have "\<exists>r s'. chrdev_device_unregister7 (cstr ''a'') 0 sample7 = Inr (r, s') \<and> mem_inv s' \<and>
     (if r = 0
      then names (devices_of sample7) (unat (0 :: u32)) (cstr ''a'') \<and>
           devices_of s' = (devices_of sample7)(unat (0 :: u32) := None)
      else \<not> names (devices_of sample7) (unat (0 :: u32)) (cstr ''a'') \<and> devices_of s' = devices_of sample7)"
    using view label_array_short(1) [OF short]
    by (intro reg7.unregister_returns [OF sample7_inv is_cstr_cstr]) simp
  ultimately show thesis using that by (auto split: if_splits)
qed

lemma unregister7_use_after_free_witness:
  "\<exists>s'. chrdev_device_unregister7 (cstr ''a'') 0 sample7 = Inr (0, s') \<and>
        chrdev_read7 (\<lambda>_. 0) s' sample_file7 1 0 = Inl UseAfterFree \<and>
        chrdev_write7 (\<lambda>_. 0) [65] s' sample_file7 1 0 = Inl UseAfterFree"
proof -
  obtain s' where s': "chrdev_device_unregister7 (cstr ''a'') 0 sample7 = Inr (0, s')"
    by (rule sample7_unregister)
  have "private_data sample_file7 = Some (unat (0 :: u32))"
    by (simp add: sample_file7_def)
  from unregister7_use_after_free [OF sample7_opened this s', of 0 1] s' sample7_writable
  show ?thesis by auto
qed

text \<open>When the device node could not be created, the slot keeps the error pointer; if the next
  registration of that identifier cannot allocate its buffer, printing the error message dereferences
  that pointer.\<close>

lemma register7_error_pointer:
  assumes "mem_inv s" and "is_cstr lbl" and "unat ident < 8" and "devices_of s (unat ident) = None"
    and "kzalloc_ret e = Some a" and "heap s a = None" and "cdev_add_ret e = 0"
    and "device_create_ret e = Inl err" and "kzalloc_ret e' = None"
  shows "\<exists>s1. chrdev_device_register7 e lbl ident ro owner parent s = Inr (err, s1) \<and>
     chrdev_device_register7 e' lbl' ident ro' owner' parent' s1 = Inl BadPointer"
proof -
  have free: "\<not> busy (slot s (unat ident))"
    using assms(3,4) by (simp add: devices_of_busy)
  show ?thesis
    using assms(2,3,5-9) free mem_inv_length [OF assms(1)]
    by (auto simp: chrdev_device_register7_def MAX_DEVICES_le Let_def kfree_fresh node_name_def
        device_create_def dev_print_def)
qed

lemma register7_error_pointer_witness:
  "\<exists>s1. chrdev_device_register7 (sample_env7\<lparr>device_create_ret := Inl (- ENOMEM)\<rparr>) (cstr ''x'') 1 0 1 2 start7
          = Inr (- ENOMEM, s1) \<and>
     chrdev_device_register7 (sample_env7\<lparr>kzalloc_ret := None\<rparr>) (cstr ''x'') 1 0 1 2 s1 = Inl BadPointer"
proof (rule register7_error_pointer [OF mem_inv_start7 is_cstr_cstr])
  show "devices_of start7 (unat (1 :: u32)) = None"
    by (simp add: devices_of_def start7_free zero_dev7_def)
  show "heap start7 100 = None"
    by (simp add: start7_def)
qed (simp_all add: sample_env7_def)



text \<open>The reference a file takes on its device is dropped from whatever device the slot holds when
  the file is closed: after the device was unregistered and its identifier registered again, closing
  the old file takes away the only reference of the new, still registered device.\<close>

lemma release7_wrong_object:
  assumes "mem_inv s" and "unat ident < 8"
    and "chrdev_open7 (unat ident) filp s = Inr (0, f1, s1)"
    and "chrdev_device_unregister7 lbl ident s1 = Inr (0, s2)"
    and "chrdev_device_register7 e lbl' ident ro owner parent s2 = Inr (0, s3)"
    and "device_create_ret e = Inr h"
  shows "object_refs (ktrace s3) h = 1 \<and>
     (\<exists>f2 s4. chrdev_release7 (unat ident) f1 s3 = Inr (0, f2, s4) \<and> object_refs (ktrace s4) h = 0 \<and>
              busy (slot s4 (unat ident)) \<and> dev (slot s4 (unat ident)) = Dev h (MKDEV (MAJOR (chrdev_devt s2)) ident))"
proof -
  have len: "length (chrdev_array s2) = 8"
    using assms(3,4) mem_inv_length [OF assms(1)]
    by (auto simp: chrdev_open7_def chrdev_device_unregister7_def Let_def kfree_def bindo_Inr_iff
        split: if_splits dev_ptr.splits option.splits)
  have "busy (slot s3 (unat ident)) \<and> dev (slot s3 (unat ident)) = Dev h (MKDEV (MAJOR (chrdev_devt s2)) ident) \<and>
        object_refs (ktrace s3) h = 1"
    using assms(2,5,6) len
    by (auto simp: chrdev_device_register7_def MAX_DEVICES_le Let_def bindo_Inr_iff device_create_def
        object_refs_def split_beta node_name_def kfree_def split: if_splits option.splits)
  then show ?thesis
    by (auto simp: chrdev_release7_def object_refs_def split_beta)
qed

lemma release7_wrong_object_witness:
  "\<exists>s1 s2 s3 f1 f2 s4. chrdev_open7 0 sample_file7 sample7 = Inr (0, f1, s1) \<and>
     chrdev_device_unregister7 (cstr ''a'') 0 s1 = Inr (0, s2) \<and>
     chrdev_device_register7 (sample_env7\<lparr>device_create_ret := Inr 8\<rparr>) (cstr ''b'') 0 0 1 2 s2 = Inr (0, s3) \<and>
     chrdev_release7 0 f1 s3 = Inr (0, f2, s4) \<and> object_refs (ktrace s4) 8 = 0"
proof -
  let ?s1 = "call (Kobject_Get 7) sample7" and ?f1 = "sample_file7\<lparr>private_data := Some 0\<rparr>"
  have open1: "chrdev_open7 (unat (0 :: u32)) sample_file7 sample7 = Inr (0, ?f1, ?s1)"
    by (simp add: chrdev_open7_def sample7_slot)
  obtain s2' where "chrdev_device_unregister7 (cstr ''a'') 0 sample7 = Inr (0, s2')"
    by (rule sample7_unregister)
  then have c: "strcmp (label_array (cstr ''a'')) (cstr ''a'') = Inr 0"
    by (auto simp: chrdev_device_unregister7_def MAX_DEVICES_le Let_def sample7_slot bindo_Inr_iff
        split: if_splits)
  have heap: "heap sample7 100 = Some (replicate 4096 0)"
    by (simp add: sample7_def registered_mem_def Let_def opt_call_def)
  obtain s2 where s2: "chrdev_device_unregister7 (cstr ''a'') 0 ?s1 = Inr (0, s2)"
    and free: "\<not> busy (slot s2 0)" "length (chrdev_array s2) = 8"
    using mem_inv_length [OF sample7_inv] c heap
    by (simp add: chrdev_device_unregister7_def MAX_DEVICES_le Let_def sample7_slot kfree_def)
  obtain s3 where s3: "chrdev_device_register7 (sample_env7\<lparr>device_create_ret := Inr 8\<rparr>) (cstr ''b'') 0 0 1 2 s2 = Inr (0, s3)"
    using register_mem_done [of s2 0 "sample_env7\<lparr>device_create_ret := Inr 8\<rparr>" 100 "cstr ''b''" 8
        "\<lambda>c. c" "\<lambda>_. None" 0 1 2] free
    by (auto simp: register7_eq sample_env7_def)
  have "device_create_ret (sample_env7\<lparr>device_create_ret := Inr 8\<rparr>) = Inr 8" by simp
  from release7_wrong_object [OF sample7_inv _ open1 s2 s3 this] open1 s2 s3
  show ?thesis by auto
qed

section \<open>Life cycle and platform driver\<close>

lemma init7_state:
  assumes "chrdev_init7 e s = (r, s')"
  shows "chrdev_array s' = chrdev_array s" and "heap s' = heap s"
    and "live_cdevs (ktrace s') = live_cdevs (ktrace s)"
    and "live_devices (ktrace s') = live_devices (ktrace s)"
    and "live_memory (ktrace s') = live_memory (ktrace s)"
  using assms by (auto simp: chrdev_init7_def Let_def split: if_splits)

text \<open>Starting the module either succeeds with a class and a region of numbers held, or it fails
  with the error of the step that failed and holds neither; stopping it after a start that succeeded
  gives both back.\<close>

lemma init7_exit7_balance:
  assumes "class_create_ret e \<in> insert NullClass (range Class)"
    and "chrdev_init7 e start7 = (r, s)"
  shows "(r = (if class_create_ret e = NullClass then - ENOMEM
               else if negative (alloc_region_ret e) then alloc_region_ret e else 0)) \<and>
     (r \<noteq> 0 \<longrightarrow> live_classes (ktrace s) = {}) \<and>
     (r = 0 \<longrightarrow> (\<exists>c. live_classes (ktrace s) = {c}) \<and>
        live_classes (ktrace (chrdev_exit7 s)) = {} \<and>
        live_regions (ktrace (chrdev_exit7 s)) = {})"
  using assms by (auto simp: chrdev_init7_def chrdev_exit7_def start7_def Let_def live_classes_def live_regions_def
      split: if_splits)

text \<open>
  \<^verbatim>\<open>Chapter07/chrdev/chrdev-req.c\<close> is the text of the chapter-4 file, linked with
  this registry.
\<close>

definition chrdev_req_probe7 ::
  "(nat \<Rightarrow> drv7 \<Rightarrow> reg_env_mem) \<Rightarrow> nat \<Rightarrow> nat \<Rightarrow> fwnode list \<Rightarrow> drv7 \<Rightarrow> fault + (s32 \<times> drv7)" where
  "chrdev_req_probe7 = chrdev_req_probe chrdev_device_register7"

definition chrdev_req_remove7 :: "fwnode list \<Rightarrow> drv7 \<Rightarrow> fault + (s32 \<times> drv7)" where
  "chrdev_req_remove7 = chrdev_req_remove chrdev_device_unregister7"

text \<open>The platform driver on this registry: probing one to eight complete nodes with distinct free
  identifiers registers each of them under its label with a buffer of its own, and the removal frees
  exactly what the probe allocated.\<close>

lemma req7_probe_remove:
  assumes "mem_inv s" and "children \<noteq> []" and "length children \<le> 8"
    and "distinct (map node_id children)"
    and "\<And>c. c \<in> set children \<Longrightarrow>
           readable c \<and> complete c \<and> node_id c < 8 \<and> devices_of s (node_id c) = None \<and>
           length (str_of (node_label c)) < 32"
    and "\<And>i l. devices_of s i = Some l \<Longrightarrow> is_cstr l"
    and "\<And>n s. mem_inv s \<Longrightarrow> mem_env_good (env n s) s \<and> mem_env_success (env n s) s"
  shows "\<exists>s1 s2. chrdev_req_probe7 env owner parent children s = Inr (0, s1) \<and>
     (\<forall>c \<in> set children. devices_of s1 (node_id c) = Some (label_array (node_label c)) \<and>
        (\<exists>a. bufp (slot s1 (node_id c)) = Some a \<and> a \<in> live_memory (ktrace s1))) \<and>
     chrdev_req_remove7 children s1 = Inr (0, s2) \<and>
     devices_of s2 = devices_of s \<and> card (live_memory (ktrace s2)) = card (dom (devices_of s))"
proof -
  have "\<exists>s1 s2. chrdev_req_probe7 env owner parent children s = Inr (0, s1) \<and> mem_inv s1 \<and>
     (\<forall>c \<in> set children. devices_of s1 (node_id c) = Some (label_array (node_label c))) \<and>
     chrdev_req_remove7 children s1 = Inr (0, s2) \<and> mem_inv s2 \<and>
     devices_of s2 = devices_of s"
    unfolding chrdev_req_probe7_def chrdev_req_remove7_def
    by (rule reg7.probe_remove_view [OF assms(1-4)]) (use assms(5-7) in \<open>auto simp: addable_def\<close>)
  then obtain s1 s2 where
    p: "chrdev_req_probe7 env owner parent children s = Inr (0, s1)" "mem_inv s1"
    and v: "\<forall>c \<in> set children. devices_of s1 (node_id c) = Some (label_array (node_label c))"
    and r: "chrdev_req_remove7 children s1 = Inr (0, s2)" "mem_inv s2"
      "devices_of s2 = devices_of s" by blast
  have "\<exists>a. bufp (slot s1 i) = Some a \<and> a \<in> live_memory (ktrace s1)" if "devices_of s1 i = Some l" for i l
  proof -
    have i: "i < 8" "busy (slot s1 i)" using that by (simp_all add: devices_of_Some)
    have h: "heap_inv s1" using p(2) by (simp add: mem_inv_def)
    obtain a b where "bufp (slot s1 i) = Some a" "heap s1 a = Some b"
      using heap_inv_buf [OF h i] by blast
    then show ?thesis using heap_invD(5) [OF h] by auto
  qed
  with p r v mem_inv_card [OF r(2)] show ?thesis by metis
qed

definition sample_envs7 :: "nat \<Rightarrow> drv7 \<Rightarrow> reg_env_mem" where
  "sample_envs7 n s = sample_env7\<lparr>kzalloc_ret := Some (free_address s)\<rparr>"

lemma req7_probe_remove_witness:
  "\<exists>s1 s2. chrdev_req_probe7 sample_envs7 1 2
         [sample_node 2 ''eeprom'', sample_node 4 ''rtc''] start7 = Inr (0, s1) \<and>
     chrdev_req_remove7
         [sample_node 2 ''eeprom'', sample_node 4 ''rtc''] s1 = Inr (0, s2) \<and>
     card (live_memory (ktrace s2)) = 0"
proof -
  have free: "devices_of start7 i = None" for i
    by (simp add: devices_of_def start7_free zero_dev7_def)
  have "str_of (cstr ''eeprom'') = ''eeprom''" "str_of (cstr ''rtc'') = ''rtc''"
    by (simp_all add: str_of_cstr NUL_def)
  then have nodes: "readable c \<and> complete c \<and> node_id c < 8 \<and> devices_of start7 (node_id c) = None \<and>
           length (str_of (node_label c)) < 32"
    if "c \<in> set [sample_node 2 ''eeprom'', sample_node 4 ''rtc'']" for c
    using that by (auto simp: free)
  have env: "mem_env_good (sample_envs7 n s) s \<and> mem_env_success (sample_envs7 n s) s"
    if "mem_inv s" for n s
    using free_address [OF that]
    by (simp add: mem_env_good_def mem_env_success_def env_ok_def env_succeeds_def sample_envs7_def
        sample_env7_def)
  have "\<exists>s1 s2. chrdev_req_probe7 sample_envs7 1 2
         [sample_node 2 ''eeprom'', sample_node 4 ''rtc''] start7 = Inr (0, s1) \<and>
     (\<forall>c \<in> set [sample_node 2 ''eeprom'', sample_node 4 ''rtc''].
        devices_of s1 (node_id c) = Some (label_array (node_label c)) \<and>
        (\<exists>a. bufp (slot s1 (node_id c)) = Some a \<and> a \<in> live_memory (ktrace s1))) \<and>
     chrdev_req_remove7
         [sample_node 2 ''eeprom'', sample_node 4 ''rtc''] s1 = Inr (0, s2) \<and>
     devices_of s2 = devices_of start7 \<and> card (live_memory (ktrace s2)) = card (dom (devices_of start7))"
    by (rule req7_probe_remove [OF mem_inv_start7]) (use nodes env in \<open>simp_all add: free\<close>)
  moreover have "dom (devices_of start7) = {}" by (auto simp: free)
  ultimately show ?thesis by auto
qed

end
