(* ===== verification/File_Refine.thy ===== *)
theory File_Refine
  imports Chrdev4 Chrdev7
begin

text \<open>
  The two buffer drivers as files: each refines the abstract file of \<^verbatim>\<open>File_Spec\<close>, for any
  sequence of calls on an open device, and on the part of the buffer both have they cannot be
  told apart.
\<close>

section \<open>The methods in the form the kernel uses them\<close>

abbreviation rd4 :: "(drv4 \<times> ofile) read_method" where
  "rd4 \<equiv> \<lambda>f (s, filp) count pos. chrdev_read4 f s filp count pos"

abbreviation wr4 :: "(drv4 \<times> ofile) write_method" where
  "wr4 \<equiv> \<lambda>f usr (s, filp) count pos.
     map_sum id (\<lambda>(r, p, s'). (r, p, (s', filp))) (chrdev_write4 f usr s filp count pos)"

abbreviation rd7 :: "(drv7 \<times> ofile) read_method" where
  "rd7 \<equiv> \<lambda>f (s, filp) count pos. chrdev_read7 f s filp count pos"

abbreviation wr7 :: "(drv7 \<times> ofile) write_method" where
  "wr7 \<equiv> \<lambda>f usr (s, filp) count pos.
     map_sum id (\<lambda>(r, p, s'). (r, p, (s', filp))) (chrdev_write7 f usr s filp count pos)"

abbreviation sk7 :: "(drv7 \<times> ofile) seek_method" where
  "sk7 \<equiv> \<lambda>(s, filp) pos off whence.
     map_prod id f_pos (chrdev_llseek (filp\<lparr>f_pos := pos\<rparr>) off whence)"

text \<open>The file an open device stands for.\<close>

definition file4 :: "(drv4 \<times> ofile) \<times> s64 \<Rightarrow> afile" where
  "file4 = (\<lambda>(t, pos). \<lparr>bytes = contents4 t, apos = unat pos, awritable = writable4 t\<rparr>)"

definition file7 :: "(drv7 \<times> ofile) \<times> s64 \<Rightarrow> afile" where
  "file7 = (\<lambda>(t, pos). \<lparr>bytes = contents7 t, apos = unat pos, awritable = writable7 t\<rparr>)"

lemma file4_eq: "io4.abs_file = file4"
  by (simp add: file4_def io4.abs_file_def fun_eq_iff)

lemma file7_eq: "io7.abs_file = file7"
  by (simp add: file7_def io7.abs_file_def fun_eq_iff)

section \<open>The part two files share\<close>

definition agree :: "nat \<Rightarrow> afile \<Rightarrow> afile \<Rightarrow> bool" where
  "agree n a b \<longleftrightarrow> apos a = apos b \<and> awritable a = awritable b \<and>
     n \<le> length (bytes a) \<and> n \<le> length (bytes b) \<and> take n (bytes a) = take n (bytes b)"

lemma take_drop_agree:
  assumes "take n xs = take n ys" and "p + k \<le> n"
  shows "take k (drop p xs) = take k (drop p ys)"
proof -
  have "take k (drop p zs) = take k (drop p (take n zs))" for zs :: "'a list"
    using assms(2) by (simp add: drop_take min_def)
  then show ?thesis using assms(1) by metis
qed

lemma take_splice_agree:
  assumes "take n xs = take n ys" and "p + length ds \<le> n" and "n \<le> length xs" and "n \<le> length ys"
  shows "take n (take p xs @ ds @ drop (p + length ds) xs) =
         take n (take p ys @ ds @ drop (p + length ds) ys)"
proof -
  have "take p xs = take p ys"
    using assms(1,2) by (metis add_leD1 min.absorb1 take_take)
  moreover have "take (n - p - length ds) (drop (p + length ds) xs) =
                 take (n - p - length ds) (drop (p + length ds) ys)"
    using assms by (intro take_drop_agree [OF assms(1)]) simp
  ultimately show ?thesis using assms(2-4) by simp
qed

lemma agree_call:
  assumes ag: "agree n a b" and "\<not> is_Seek c" and fits: "apos a + call_count c \<le> n"
  shows "fst (afile_call c a) = fst (afile_call c b)"
    and "agree n (snd (afile_call c a)) (snd (afile_call c b))"
proof -
  from ag have eq: "apos a = apos b" "awritable a = awritable b" "take n (bytes a) = take n (bytes b)"
    and len: "n \<le> length (bytes a)" "n \<le> length (bytes b)" by (simp_all add: agree_def)
  have room: "room a k = unat k" "room b k = unat k" if "apos a + unat k \<le> n" for k
    using that len eq(1) by (simp_all add: room_def)
  have "fst (afile_call c a) = fst (afile_call c b) \<and>
        agree n (snd (afile_call c a)) (snd (afile_call c b))"
  proof (cases c)
    case (Read f k)
    then show ?thesis
      using fits eq len take_drop_agree [OF eq(3), of "apos b"]
      by (simp add: room Let_def agree_def)
  next
    case (Write f usr k)
    then show ?thesis
      using fits eq len take_splice_agree [OF eq(3) _ len, of "apos b" "from_user usr (unat k) _"]
      by (simp add: room Let_def agree_def)
  qed (use assms(2) in simp)
  then show "fst (afile_call c a) = fst (afile_call c b)"
    "agree n (snd (afile_call c a)) (snd (afile_call c b))" by simp_all
qed

lemma agree_run:
  assumes "agree n a b" and "\<forall>c \<in> set cs. \<not> is_Seek c"
    and "apos a + sum_list (map call_count cs) \<le> n" and "afile_ok a"
  shows "fst (afile_run cs a) = fst (afile_run cs b) \<and> agree n (snd (afile_run cs a)) (snd (afile_run cs b))"
  using assms
proof (induction cs arbitrary: a b)
  case Nil
  then show ?case by simp
next
  case (Cons c cs)
  obtain r a1 where a1: "afile_call c a = (r, a1)" by fastforce
  note keep = afile_call_keeps [OF Cons.prems(4) a1]
  have c: "\<not> is_Seek c" "apos a + call_count c \<le> n" using Cons.prems by simp_all
  from agree_call [OF Cons.prems(1) c] a1 obtain b1 where b1: "afile_call c b = (r, b1)" "agree n a1 b1"
    by (metis fst_conv snd_conv surj_pair)
  have "apos a1 + sum_list (map call_count cs) \<le> n"
    using Cons.prems(3) keep(4) [OF c(1)] by simp
  from Cons.IH [OF b1(2) _ this keep(1)] Cons.prems(2) show ?case
    by (simp add: a1 b1(1) split_beta)
qed

section \<open>Properties\<close>

text \<open>C7: the chapter 4 driver refines a 300-byte file: any sequence of reads and writes on an open device
  never faults, answers exactly what the abstract file answers, and leaves exactly its contents and
  position.\<close>

theorem chrdev4_refines_file:
  assumes "opened4 t" and "unat pos \<le> 300" and "\<forall>c \<in> set cs. call_ok c \<and> \<not> is_Seek c"
  shows "\<exists>t' pos'. dev_run rd4 wr4 sk cs (t, pos) = Inr (fst (afile_run cs (file4 (t, pos))), t', pos') \<and>
     opened4 t' \<and> file4 (t', pos') = snd (afile_run cs (file4 (t, pos)))"
  using io4.run_simulates [of "(t, pos)" cs sk] assms
  by (auto simp: io4.dev_ok_def file4_eq)

theorem chrdev4_refines_file_witness:
  "\<exists>t' pos'. dev_run rd4 wr4 (\<lambda>_ p _ _. (p, p)) [Write (\<lambda>_. 0) [65, 66, 67] 3, Read (\<lambda>_. 0) 5]
       ((sample4, sample_file), 297) = Inr ([(3, []), (0, [])], t', pos') \<and>
     drop 297 (bytes (file4 (t', pos'))) = [65, 66, 67]"
proof -
  let ?cs = "[Write (\<lambda>_. 0) [65, 66, 67] 3, Read (\<lambda>_. 0) 5]"
  note len = io4.contents_length [OF sample4_opened]
  have run: "afile_run ?cs (file4 ((sample4, sample_file), 297)) =
     ([(3, []), (0, [])],
      \<lparr>bytes = take 297 (contents4 (sample4, sample_file)) @ [65, 66, 67], apos = 300, awritable = True\<rparr>)"
    using len sample4_writable
    by (simp add: file4_def room_def from_user_def Let_def)
  have "unat (297 :: s64) \<le> 300" "\<forall>c \<in> set ?cs. call_ok c \<and> \<not> is_Seek c"
    by (simp_all add: copy_ok_def)
  from chrdev4_refines_file [OF sample4_opened this, of "\<lambda>_ p _ _. (p, p)", unfolded run]
  show ?thesis using len by auto
qed

text \<open>C2: the chapter 7 driver refines a one-page file with positioning: any sequence of reads, writes and
  seeks on an open device never faults, answers exactly what the abstract file answers, and leaves
  exactly its contents and position.\<close>

theorem chrdev7_refines_file:
  assumes "opened7 t" and "unat pos \<le> 4096" and "\<forall>c \<in> set cs. call_ok c"
  shows "\<exists>t' pos'. dev_run rd7 wr7 sk7 cs (t, pos) = Inr (fst (afile_run cs (file7 (t, pos))), t', pos') \<and>
     opened7 t' \<and> file7 (t', pos') = snd (afile_run cs (file7 (t, pos)))"
  using seek7.seek_run_simulates [of "(t, pos)" cs] assms
  by (auto simp: io7.dev_ok_def file7_eq)

theorem chrdev7_refines_file_witness:
  "\<exists>t' pos'. dev_run rd7 wr7 sk7 [Write (\<lambda>_. 0) [65, 66] 2, Seek 0 0, Read (\<lambda>_. 0) 2]
       ((sample7, sample_file7), 10) = Inr ([(2, []), (0, []), (2, take 2 (contents7 (sample7, sample_file7)))], t', pos') \<and>
     apos (file7 (t', pos')) = 2"
proof -
  let ?cs = "[Write (\<lambda>_. 0) [65, 66] 2, Seek 0 0, Read (\<lambda>_. 0) 2]"
  note len = io7.contents_length [OF sample7_opened]
  have run: "fst (afile_run ?cs (file7 ((sample7, sample_file7), 10))) =
      [(2, []), (0, []), (2, take 2 (contents7 (sample7, sample_file7)))]"
    "apos (snd (afile_run ?cs (file7 ((sample7, sample_file7), 10)))) = 2"
    using len sample7_writable
    by (simp_all add: file7_def room_def from_user_def Let_def seek_target_def seek_base_def)
  have "unat (10 :: s64) \<le> 4096" "\<forall>c \<in> set ?cs. call_ok c"
    by (simp_all add: copy_ok_def)
  from chrdev7_refines_file [OF sample7_opened this, unfolded run]
  show ?thesis using run(2) by fastforce
qed

text \<open>C9: on the part of the buffer both have, the two drivers are equivalent: if two open devices hold the
  same first 300 bytes, are at the same position and equally writable, then as long as the calls stay
  within these bytes every call gets the same answer from both, and their first 300 bytes stay equal.\<close>

theorem chrdev4_chrdev7_equivalent:
  assumes "opened4 t4" and "opened7 t7" and "writable7 t7 = writable4 t4"
    and "take 300 (contents7 t7) = contents4 t4"
    and "\<forall>c \<in> set cs. call_ok c \<and> \<not> is_Seek c"
    and "unat pos + sum_list (map call_count cs) \<le> 300"
  shows "\<exists>as t4' p4 t7' p7. dev_run rd4 wr4 sk cs (t4, pos) = Inr (as, t4', p4) \<and>
     dev_run rd7 wr7 sk7 cs (t7, pos) = Inr (as, t7', p7) \<and>
     unat p7 = unat p4 \<and> take 300 (contents7 t7') = contents4 t4'"
proof -
  note len = io4.contents_length [OF assms(1)] io7.contents_length [OF assms(2)]
  have pos: "io4.dev_ok (t4, pos)" "io7.dev_ok (t7, pos)"
    using assms(1,2,6) by (simp_all add: io4.dev_ok_def io7.dev_ok_def)
  have "agree 300 (file4 (t4, pos)) (file7 (t7, pos))"
    using assms(3,4) len by (simp add: agree_def file4_def file7_def)
  moreover have "afile_ok (file4 (t4, pos))"
    using assms(6) len by (simp add: afile_ok_def file4_def)
  moreover have "apos (file4 (t4, pos)) + sum_list (map call_count cs) \<le> 300"
    using assms(6) by (simp add: file4_def)
  ultimately have same: "fst (afile_run cs (file4 (t4, pos))) = fst (afile_run cs (file7 (t7, pos)))"
    "agree 300 (snd (afile_run cs (file4 (t4, pos)))) (snd (afile_run cs (file7 (t7, pos))))"
    using agree_run assms(5) by blast+
  from io4.run_simulates [OF pos(1), of cs sk] assms(5) obtain t4' p4 where
    r4: "dev_run rd4 wr4 sk cs (t4, pos) = Inr (fst (afile_run cs (file4 (t4, pos))), t4', p4)"
    "io4.dev_ok (t4', p4)" "file4 (t4', p4) = snd (afile_run cs (file4 (t4, pos)))"
    by (auto simp: file4_eq)
  from seek7.seek_run_simulates [OF pos(2), of cs] assms(5) obtain t7' p7 where
    r7: "dev_run rd7 wr7 sk7 cs (t7, pos) = Inr (fst (afile_run cs (file7 (t7, pos))), t7', p7)"
    "file7 (t7', p7) = snd (afile_run cs (file7 (t7, pos)))"
    by (auto simp: file7_eq)
  have "length (contents4 t4') = 300"
    using r4(2) io4.contents_length by (simp add: io4.dev_ok_def)
  moreover have "agree 300 (file4 (t4', p4)) (file7 (t7', p7))"
    using same(2) by (simp only: r4(3) r7(2))
  ultimately have "unat p7 = unat p4 \<and> take 300 (contents7 t7') = contents4 t4'"
    by (simp add: agree_def file4_def file7_def)
  with r4(1) r7(1) same(1) show ?thesis by auto
qed

lemma sample4_zero: "contents4 (sample4, sample_file) = replicate 300 0"
  by (simp add: contents4_def sample_file_def sample4_slot)

lemma sample7_zero: "contents7 (sample7, sample_file7) = replicate 4096 0"
  by (simp add: contents7_def sample_file7_def sample7_slot)
    (simp add: sample7_def registered_mem_def Let_def BUF_LEN7_def)

theorem chrdev4_chrdev7_equivalent_witness:
  "\<exists>as t4' p4 t7' p7.
     dev_run rd4 wr4 (\<lambda>_ p _ _. (p, p)) [Write (\<lambda>_. 0) [65, 66] 2, Read (\<lambda>_. 0) 3] ((sample4, sample_file), 5) = Inr (as, t4', p4) \<and>
     dev_run rd7 wr7 sk7 [Write (\<lambda>_. 0) [65, 66] 2, Read (\<lambda>_. 0) 3] ((sample7, sample_file7), 5) = Inr (as, t7', p7) \<and>
     take 300 (contents7 t7') = contents4 t4'"
proof -
  have "\<forall>c \<in> set [Write (\<lambda>_. 0) [65, 66] 2, Read (\<lambda>_. 0) 3]. call_ok c \<and> \<not> is_Seek c"
    and "unat (5 :: s64) + sum_list (map call_count [Write (\<lambda>_. 0) [65, 66] 2, Read (\<lambda>_. 0) 3]) \<le> 300"
    and "take 300 (contents7 (sample7, sample_file7)) = contents4 (sample4, sample_file)"
    and "writable7 (sample7, sample_file7) = writable4 (sample4, sample_file)"
    by (simp_all add: copy_ok_def sample4_zero sample7_zero sample4_writable sample7_writable)
  from chrdev4_chrdev7_equivalent [OF sample4_opened sample7_opened this(4,3,1,2), of "\<lambda>_ p _ _. (p, p)"]
  show ?thesis by blast
qed

end
