(* ===== verification/Step_System.thy ===== *)
theory Step_System
  imports Prelude
begin

text \<open>
  Systems driven by a sequence of operations. A step takes an operation and a state and answers,
  with a new state, or faults; a run takes the operations one after the other. The locale
  \<open>step_system\<close> is the contract of a system with well-formed states: an operation that is in order
  in a well-formed state answers and leaves one. What follows for runs is proved here once, for
  the drivers of chapters 4 and 7 and for the whole machine.
\<close>

fun run_steps :: "('p \<Rightarrow> 's \<Rightarrow> fault + ('a \<times> 's)) \<Rightarrow> 'p list \<Rightarrow> 's \<Rightarrow> fault + ('a list \<times> 's)" where
  "run_steps step [] y = Inr ([], y)"
| "run_steps step (p # ps) y =
     bindo (step p y) (\<lambda>(a, y1). bindo (run_steps step ps y1) (\<lambda>(as, y2). Inr (a # as, y2)))"

lemma run_steps_length: "run_steps step ps y = Inr (as, z) \<Longrightarrow> length as = length ps"
  by (induction ps arbitrary: y as) (auto simp: bindo_Inr_iff)

lemma run_steps_Cons:
  "step p y = Inr (a, y1) \<Longrightarrow> run_steps step ps y1 = Inr (as, y2) \<Longrightarrow>
   run_steps step (p # ps) y = Inr (a # as, y2)"
  by simp

locale step_system =
  fixes step :: "'p \<Rightarrow> 's \<Rightarrow> fault + ('a \<times> 's)"
    and ok :: "'s \<Rightarrow> bool"
    and op_ok :: "'s \<Rightarrow> 'p \<Rightarrow> bool"
  assumes step_keeps: "ok y \<Longrightarrow> op_ok y p \<Longrightarrow> \<exists>a y'. step p y = Inr (a, y') \<and> ok y'"
begin

text \<open>A run either ends well, or comes to an operation that is not in order.\<close>

lemma run_outcome:
  assumes "ok y"
  shows "(\<exists>as y'. run_steps step ps y = Inr (as, y') \<and> ok y' \<and> length as = length ps) \<or>
     (\<exists>qs p rs as y'. ps = qs @ p # rs \<and> run_steps step qs y = Inr (as, y') \<and> ok y' \<and> \<not> op_ok y' p)"
  using assms
proof (induction ps arbitrary: y)
  case Nil
  then show ?case by simp
next
  case (Cons p ps)
  show ?case
  proof (cases "op_ok y p")
    case False
    then have "p # ps = [] @ p # ps \<and> run_steps step [] y = Inr ([], y) \<and> ok y \<and> \<not> op_ok y p"
      using Cons.prems by simp
    then show ?thesis by blast
  next
    case True
    from step_keeps [OF Cons.prems True] obtain a y1 where y1: "step p y = Inr (a, y1)" "ok y1" by blast
    from Cons.IH [OF y1(2)] show ?thesis
    proof (elim disjE exE conjE)
      fix as y'
      assume "run_steps step ps y1 = Inr (as, y')" "ok y'" "length as = length ps"
      with run_steps_Cons [of step p y a y1 ps, OF y1(1)] show ?thesis by fastforce
    next
      fix qs q rs as y'
      assume "ps = qs @ q # rs" "run_steps step qs y1 = Inr (as, y')" "ok y'" "\<not> op_ok y' q"
      with run_steps_Cons [of step p y a y1 qs, OF y1(1)] have
        "p # ps = (p # qs) @ q # rs \<and> run_steps step (p # qs) y = Inr (a # as, y') \<and> ok y' \<and> \<not> op_ok y' q"
        by simp
      then show ?thesis by blast
    qed
  qed
qed

text \<open>Operations that are in order in every state run to the end.\<close>

lemma run_keeps:
  assumes "ok y" and "\<And>p y. p \<in> set ps \<Longrightarrow> op_ok y p"
  shows "\<exists>as y'. run_steps step ps y = Inr (as, y') \<and> ok y' \<and> length as = length ps"
  using run_outcome [OF assms(1), of ps] assms(2) by fastforce

end

section \<open>Threads that take turns\<close>

text \<open>
  Threads over one shared state, each at a program point of its own. A function cut into parts
  gives the step of a thread; \<open>live\<close> says at which points it has parts left.
\<close>

inductive interleaved ::
  "('t \<Rightarrow> 'p \<Rightarrow> 's \<Rightarrow> fault + ('p \<times> 's)) \<Rightarrow> ('p \<Rightarrow> bool) \<Rightarrow> 's \<times> ('t \<Rightarrow> 'p) \<Rightarrow> 's \<times> ('t \<Rightarrow> 'p) \<Rightarrow> bool"
  for step live where
    part: "live (pcs t) \<Longrightarrow> step t (pcs t) s = Inr (p, s') \<Longrightarrow>
      interleaved step live (s, pcs) (s', pcs(t := p))"

text \<open>An invariant of the state together with a condition on each thread's program point.\<close>

lemma interleaved_invariant:
  assumes "(interleaved step live)\<^sup>*\<^sup>* (s, pcs) (s', pcs')" and "I s" and "\<And>t. J t (pcs t) s"
    and keeps: "\<And>t p s p' s'. I s \<Longrightarrow> J t p s \<Longrightarrow> step t p s = Inr (p', s') \<Longrightarrow> I s' \<and> J t p' s'"
    and others: "\<And>t u p q s p' s'. I s \<Longrightarrow> J t p s \<Longrightarrow> J u q s \<Longrightarrow> step t p s = Inr (p', s') \<Longrightarrow> J u q s'"
  shows "I s' \<and> (\<forall>t. J t (pcs' t) s')"
proof -
  have "I (fst y) \<and> (\<forall>t. J t (snd y t) (fst y))" if "(interleaved step live)\<^sup>*\<^sup>* (s, pcs) y" for y
    using that
  proof (induction rule: rtranclp_induct)
    case base
    then show ?case using assms(2,3) by simp
  next
    case (step y z)
    from step(2) show ?case
    proof cases
      case (part qs t k q k')
      with step.IH have i: "I k" and j: "\<And>u. J u (qs u) k" by simp_all
      from keeps [OF i j part(4)] others [OF i j j part(4)] part(2) show ?thesis by simp
    qed
  qed
  from this [OF assms(1)] show ?thesis by simp
qed

end
