(* ===== verification/Chrdev7_System.thy ===== *)
theory Chrdev7_System
  imports File_Refine Step_System
begin

text \<open>
  The chapter 7 driver as a whole: registrations, open files, reads, writes, seeks, \<open>ioctl\<close>s and
  mappings in any order. The state pairs the driver with the kernel's table of open files; an
  operation is one entry into the driver. In well-formed states every open file refers to a
  registered device; \<open>op_ok7\<close> says of an operation, in the state it meets, that its inputs are
  in order and that it does not unregister a device that is open. Operations with \<open>op_ok7\<close>
  return and keep well-formedness, so the first fault of a run can only be at one without it.
\<close>

section \<open>States and operations\<close>

record sys7 =
  kern7 :: drv7
  fds7 :: "nat \<Rightarrow> ofile option"

datatype op7 =
    Register7 reg_env_mem "char list" u32 u32 nat nat
  | Unregister7 "char list" u32
  | Open7 nat nat                  \<comment> \<open>descriptor, slot\<close>
  | Close7 nat
  | Call7 nat io_call
  | Ioctl7 nat copy_fun "s32 option" u32
  | Mmap7 nat "nat option \<Rightarrow> u64" s32 vm_area

text \<open>What the user gets: a return value, and the bytes that reached user memory.\<close>

definition with_file :: "nat \<Rightarrow> (ofile \<Rightarrow> fault + (io_answer \<times> sys7)) \<Rightarrow> sys7 \<Rightarrow> fault + (io_answer \<times> sys7)" where
  "with_file fd f y = (case fds7 y fd of None \<Rightarrow> Inr ((- ENODEV, []), y) | Some filp \<Rightarrow> f filp)"

fun step7 :: "op7 \<Rightarrow> sys7 \<Rightarrow> fault + (io_answer \<times> sys7)" where
  "step7 (Register7 e lbl ident ro owner parent) y =
     bindo (chrdev_device_register7 e lbl ident ro owner parent (kern7 y))
       (\<lambda>(r, k). Inr ((scast r, []), y\<lparr>kern7 := k\<rparr>))"
| "step7 (Unregister7 lbl ident) y =
     bindo (chrdev_device_unregister7 lbl ident (kern7 y))
       (\<lambda>(r, k). Inr ((scast r, []), y\<lparr>kern7 := k\<rparr>))"
| "step7 (Open7 fd i) y =
     (if fds7 y fd \<noteq> None \<or> i \<notin> live_cdevs (ktrace (kern7 y)) then Inr ((- ENODEV, []), y)
      else bindo (chrdev_open7 i \<lparr>private_data = None, f_pos = 0\<rparr> (kern7 y))
             (\<lambda>(r, filp, k). Inr ((scast r, []), y\<lparr>kern7 := k, fds7 := (fds7 y)(fd \<mapsto> filp)\<rparr>)))"
| "step7 (Close7 fd) y =
     with_file fd (\<lambda>filp.
       case private_data filp of
         None \<Rightarrow> Inl BadPointer
       | Some i \<Rightarrow>
           bindo (chrdev_release7 i filp (kern7 y))
             (\<lambda>(r, filp', k). Inr ((scast r, []), y\<lparr>kern7 := k, fds7 := (fds7 y)(fd := None)\<rparr>))) y"
| "step7 (Call7 fd c) y =
     with_file fd (\<lambda>filp.
       bindo (dev_call rd7 wr7 sk7 c ((kern7 y, filp), f_pos filp))
         (\<lambda>(a, (k, filp'), pos).
            Inr (a, y\<lparr>kern7 := k, fds7 := (fds7 y)(fd \<mapsto> filp'\<lparr>f_pos := pos\<rparr>)\<rparr>))) y"
| "step7 (Ioctl7 fd f u cmd) y =
     with_file fd (\<lambda>filp.
       bindo (chrdev_ioctl f u (kern7 y) filp cmd) (\<lambda>(r, out, k). Inr ((r, out), y\<lparr>kern7 := k\<rparr>))) y"
| "step7 (Mmap7 fd v2p ret vma) y =
     with_file fd (\<lambda>filp.
       bindo (chrdev_mmap v2p ret (kern7 y) filp vma) (\<lambda>(r, k). Inr ((scast r, []), y\<lparr>kern7 := k\<rparr>))) y"

abbreviation run7 :: "op7 list \<Rightarrow> sys7 \<Rightarrow> fault + (io_answer list \<times> sys7)" where
  "run7 \<equiv> run_steps step7"

definition boot7 :: "drv7 \<Rightarrow> sys7" where
  "boot7 k = \<lparr>kern7 = k, fds7 = \<lambda>_. None\<rparr>"

section \<open>Well-formed states, operations in order\<close>

definition is_open :: "sys7 \<Rightarrow> nat \<Rightarrow> bool" where
  "is_open y i \<longleftrightarrow> (\<exists>fd filp. fds7 y fd = Some filp \<and> private_data filp = Some i)"

definition file_ok7 :: "drv7 \<Rightarrow> ofile \<Rightarrow> bool" where
  "file_ok7 k filp \<longleftrightarrow>
     (\<exists>i < 8. private_data filp = Some i \<and> devices_of k i \<noteq> None) \<and> unat (f_pos filp) \<le> 4096"

definition sys7_ok :: "sys7 \<Rightarrow> bool" where
  "sys7_ok y \<longleftrightarrow> mem_inv (kern7 y) \<and>
     (\<forall>i l. devices_of (kern7 y) i = Some l \<longrightarrow> is_cstr l) \<and>
     (\<forall>fd filp. fds7 y fd = Some filp \<longrightarrow> file_ok7 (kern7 y) filp)"

text \<open>
  A label fits its array; the allocator answers an address not in use, and when it answers none
  no slot holds an error pointer (the error message is printed through it); a transfer is within
  the kernel's limit; and no open device is unregistered.
\<close>

fun op_ok7 :: "sys7 \<Rightarrow> op7 \<Rightarrow> bool" where
  "op_ok7 y (Register7 e lbl ident ro owner parent) \<longleftrightarrow>
     is_cstr lbl \<and> length (str_of lbl) < 32 \<and> mem_env_good e (kern7 y)"
| "op_ok7 y (Unregister7 lbl ident) \<longleftrightarrow> is_cstr lbl \<and> \<not> is_open y (unat ident)"
| "op_ok7 y (Call7 fd c) \<longleftrightarrow> call_ok c"
| "op_ok7 y _ \<longleftrightarrow> True"

lemma sys7_okD:
  assumes "sys7_ok y"
  shows "mem_inv (kern7 y)" and "devices_of (kern7 y) i = Some l \<Longrightarrow> is_cstr l"
    and "fds7 y fd = Some filp \<Longrightarrow> file_ok7 (kern7 y) filp"
  using assms by (auto simp: sys7_ok_def)

lemma file_ok7_mono:
  assumes "file_ok7 k filp"
    and "\<And>i. private_data filp = Some i \<Longrightarrow> devices_of k i \<noteq> None \<Longrightarrow> devices_of k' i \<noteq> None"
  shows "file_ok7 k' filp"
  using assms unfolding file_ok7_def by blast

lemma file_ok7_opened:
  assumes "sys7_ok y" and "fds7 y fd = Some filp"
  obtains i where "private_data filp = Some i" "i < 8" "busy (slot (kern7 y) i)"
    "opened7 (kern7 y, filp)" "unat (f_pos filp) \<le> 4096" "\<exists>h d. dev (slot (kern7 y) i) = Dev h d"
proof -
  note y = sys7_okD [OF assms(1)]
  from y(3) [OF assms(2)] obtain i where i: "i < 8" "private_data filp = Some i"
    "devices_of (kern7 y) i \<noteq> None" "unat (f_pos filp) \<le> 4096" by (auto simp: file_ok7_def)
  then have b: "busy (slot (kern7 y) i)" by (simp add: devices_of_busy)
  have r: "registry_inv (kern7 y)" using y(1) by (simp add: mem_inv_def)
  show thesis
    using i b y(1) registry_invD(2) [OF r i(1)]
    by (intro that [of i]) (auto simp: opened7_def slot_ok_def)
qed

text \<open>A step that leaves the registered devices alone.\<close>

lemma sys7_ok_frame:
  assumes ok: "sys7_ok y" and "mem_inv k" and "devices_of k = devices_of (kern7 y)"
    and "\<And>fd f. fds fd = Some f \<Longrightarrow> file_ok7 (kern7 y) f"
  shows "sys7_ok (y\<lparr>kern7 := k, fds7 := fds\<rparr>)" and "fds = fds7 y \<Longrightarrow> sys7_ok (y\<lparr>kern7 := k\<rparr>)"
  using assms by (auto simp: sys7_ok_def file_ok7_def)

lemma mem_inv_call:
  assumes "mem_inv s" and "cdev_effect c = id" and "device_effect c = id" and "memory_effect c = id"
  shows "mem_inv (call c s)" and "devices_of (call c s) = devices_of s"
  using assms mem_inv_frame [of s "call c s"] mem_inv_length [OF assms(1)] by simp_all

lemma no_effect:
  "c \<in> {Kobject_Get h, Kobject_Put h, Remap_Pfn_Range i a b n r} \<Longrightarrow>
   cdev_effect c = id \<and> device_effect c = id \<and> memory_effect c = id"
  by (auto simp: fun_eq_iff)

lemma mem_inv_read_only:
  assumes "mem_inv s" and "i < 8"
  shows "mem_inv (upd_slot i (\<lambda>c. c\<lparr>read_only := v\<rparr>) s)"
    and "devices_of (upd_slot i (\<lambda>c. c\<lparr>read_only := v\<rparr>) s) = devices_of s"
  using assms mem_inv_frame [of s "upd_slot i (\<lambda>c. c\<lparr>read_only := v\<rparr>) s"] mem_inv_length [OF assms(1)]
  by simp_all

section \<open>Operations in order keep well-formedness\<close>

definition keeps7 :: "op7 \<Rightarrow> sys7 \<Rightarrow> bool" where
  "keeps7 p y \<longleftrightarrow> (\<exists>a y'. step7 p y = Inr (a, y') \<and> sys7_ok y')"

lemma step7_register:
  assumes ok: "sys7_ok y" and p: "op_ok7 y (Register7 e lbl ident ro owner parent)"
  shows "keeps7 (Register7 e lbl ident ro owner parent) y"
proof -
  note y = sys7_okD [OF ok]
  from p have lbl: "is_cstr lbl" "length (str_of lbl) < 32" and e: "mem_env_good e (kern7 y)" by simp_all
  from register7_returns [OF y(1) lbl(1) e, of ident ro owner parent] obtain r k where
    k: "chrdev_device_register7 e lbl ident ro owner parent (kern7 y) = Inr (r, k)" "mem_inv k"
    and v: "devices_of k = (if r = 0 then (devices_of (kern7 y))(unat ident \<mapsto> label_array lbl)
                            else devices_of (kern7 y))"
    by (auto split: if_splits)
  have "file_ok7 k filp" if "fds7 y fd = Some filp" for fd filp
    using y(3) [OF that] by (rule file_ok7_mono) (simp add: v)
  moreover have "is_cstr l" if "devices_of k i = Some l" for i l
    using that y(2) label_array_short(1) [OF lbl(2)] by (auto simp: v split: if_splits)
  ultimately show ?thesis
    using k by (simp add: keeps7_def sys7_ok_def)
qed

lemma step7_unregister:
  assumes ok: "sys7_ok y" and p: "op_ok7 y (Unregister7 lbl ident)"
  shows "keeps7 (Unregister7 lbl ident) y"
proof -
  note y = sys7_okD [OF ok]
  have lbl: "is_cstr lbl" and closed: "\<not> is_open y (unat ident)" using p by simp_all
  have "\<And>l. devices_of (kern7 y) (unat ident) = Some l \<Longrightarrow> is_cstr l"
    by (rule y(2))
  from unregister_mem_returns [where ident = ident, OF y(1) lbl no_extras(2) this] obtain r k where
    k: "chrdev_device_unregister7 lbl ident (kern7 y) = Inr (r, k)" "mem_inv k"
    and v: "devices_of k = (if r = 0 then (devices_of (kern7 y))(unat ident := None) else devices_of (kern7 y))"
    by (auto simp: unregister7_eq split: if_splits)
  have "file_ok7 k filp" if f: "fds7 y fd = Some filp" for fd filp
  proof -
    have "private_data filp \<noteq> Some (unat ident)"
      using closed f by (auto simp: is_open_def)
    then show ?thesis
      by (intro file_ok7_mono [OF y(3) [OF f]]) (auto simp: v)
  qed
  moreover have "is_cstr l" if "devices_of k i = Some l" for i l
    using that y(2) by (auto simp: v split: if_splits)
  ultimately show ?thesis
    using k by (simp add: keeps7_def sys7_ok_def)
qed

lemma step7_open:
  assumes ok: "sys7_ok y"
  shows "keeps7 (Open7 fd i) y"
proof (cases "fds7 y fd \<noteq> None \<or> i \<notin> live_cdevs (ktrace (kern7 y))")
  case True
  with ok show ?thesis by (auto simp: keeps7_def)
next
  case False
  note y = sys7_okD [OF ok]
  have r: "registry_inv (kern7 y)" using y(1) by (simp add: mem_inv_def)
  with False have i: "i < 8" "busy (slot (kern7 y) i)"
    by (auto simp: registry_invD(3) busy_ids_def)
  then obtain h d where d: "dev (slot (kern7 y) i) = Dev h d"
    using registry_invD(2) [OF r i(1)] by (auto simp: slot_ok_def)
  have "file_ok7 (kern7 y) \<lparr>private_data = Some i, f_pos = 0\<rparr>"
    using i by (auto simp: file_ok7_def devices_of_def)
  then have "sys7_ok (y\<lparr>kern7 := call (Kobject_Get h) (kern7 y),
      fds7 := (fds7 y)(fd \<mapsto> \<lparr>private_data = Some i, f_pos = 0\<rparr>)\<rparr>)"
    using mem_inv_call [OF y(1), of "Kobject_Get h"] no_effect [of "Kobject_Get h" h]
    by (intro sys7_ok_frame(1) [OF ok]) (auto simp: y(3) split: if_splits)
  with False d show ?thesis by (simp add: keeps7_def chrdev_open7_def)
qed

lemma keeps7_with_file:
  assumes ok: "sys7_ok y" and eq: "step7 p y = with_file fd f y"
    and "\<And>filp. fds7 y fd = Some filp \<Longrightarrow> \<exists>a y'. f filp = Inr (a, y') \<and> sys7_ok y'"
  shows "keeps7 p y"
  using assms by (cases "fds7 y fd") (auto simp: keeps7_def with_file_def)

lemma step7_close:
  assumes ok: "sys7_ok y"
  shows "keeps7 (Close7 fd) y"
proof (rule keeps7_with_file [OF ok step7.simps(4)])
  fix filp
  assume f: "fds7 y fd = Some filp"
  note y = sys7_okD [OF ok]
  from file_ok7_opened [OF ok f] obtain i h d where
    i: "private_data filp = Some i" "dev (slot (kern7 y) i) = Dev h d" by metis
  have "sys7_ok (y\<lparr>kern7 := call (Kobject_Put h) (kern7 y), fds7 := (fds7 y)(fd := None)\<rparr>)"
    using mem_inv_call [OF y(1), of "Kobject_Put h"] no_effect [of "Kobject_Put h" h]
    by (intro sys7_ok_frame(1) [OF ok]) (auto simp: y(3) split: if_splits)
  with i show "\<exists>a y'. (case private_data filp of
         None \<Rightarrow> Inl BadPointer
       | Some i \<Rightarrow>
           bindo (chrdev_release7 i filp (kern7 y))
             (\<lambda>(r, filp', k). Inr ((scast r, []), y\<lparr>kern7 := k, fds7 := (fds7 y)(fd := None)\<rparr>))) = Inr (a, y') \<and> sys7_ok y'"
    by (simp add: chrdev_release7_def)
qed

lemma step7_ioctl:
  assumes ok: "sys7_ok y"
  shows "keeps7 (Ioctl7 fd f u cmd) y"
proof (rule keeps7_with_file [OF ok step7.simps(6)])
  fix filp
  assume f: "fds7 y fd = Some filp"
  note y = sys7_okD [OF ok]
  from file_ok7_opened [OF ok f] obtain i where i: "private_data filp = Some i" "i < 8"
    "opened7 (kern7 y, filp)" by metis
  note len = opened7_label(2) [OF i(3,1)]
  have "\<exists>r out k. chrdev_ioctl f u (kern7 y) filp cmd = Inr (r, out, k) \<and>
          (k = kern7 y \<or> (\<exists>v. k = upd_slot i (\<lambda>c. c\<lparr>read_only := v\<rparr>) (kern7 y)))"
    using i(1) strncpy_array [OF len] by (auto simp: chrdev_ioctl_def Let_def split: option.splits)
  then obtain r out k where k: "chrdev_ioctl f u (kern7 y) filp cmd = Inr (r, out, k)"
    "mem_inv k" "devices_of k = devices_of (kern7 y)"
    using y(1) mem_inv_read_only [OF y(1) i(2)] by metis
  have "sys7_ok (y\<lparr>kern7 := k\<rparr>)"
    by (rule sys7_ok_frame(2) [OF ok k(2,3) _ refl]) (rule y(3))
  with k(1) show "\<exists>a y'. bindo (chrdev_ioctl f u (kern7 y) filp cmd)
      (\<lambda>(r, out, k). Inr ((r, out), y\<lparr>kern7 := k\<rparr>)) = Inr (a, y') \<and> sys7_ok y'"
    by simp
qed

lemma step7_mmap:
  assumes ok: "sys7_ok y"
  shows "keeps7 (Mmap7 fd v2p ret vma) y"
proof (rule keeps7_with_file [OF ok step7.simps(7)])
  fix filp
  assume f: "fds7 y fd = Some filp"
  note y = sys7_okD [OF ok]
  from file_ok7_opened [OF ok f] obtain i where i: "private_data filp = Some i" by metis
  have "\<exists>r k. chrdev_mmap v2p ret (kern7 y) filp vma = Inr (r, k) \<and>
          (k = kern7 y \<or> (\<exists>a b n. k = call (Remap_Pfn_Range i a b n ret) (kern7 y)))"
    using i by (auto simp: chrdev_mmap_def Let_def)
  then obtain r k where k: "chrdev_mmap v2p ret (kern7 y) filp vma = Inr (r, k)"
    "mem_inv k" "devices_of k = devices_of (kern7 y)"
    using y(1) mem_inv_call [OF y(1)] no_effect by (metis insertI1 insertI2)
  have "sys7_ok (y\<lparr>kern7 := k\<rparr>)"
    by (rule sys7_ok_frame(2) [OF ok k(2,3) _ refl]) (rule y(3))
  with k(1) show "\<exists>a y'. bindo (chrdev_mmap v2p ret (kern7 y) filp vma)
      (\<lambda>(r, k). Inr ((scast r, []), y\<lparr>kern7 := k\<rparr>)) = Inr (a, y') \<and> sys7_ok y'"
    by simp
qed

text \<open>A call changes the buffer at most.\<close>

lemma store_buf_devices: "devices_of (store_buf p b s) = devices_of s"
  by (simp add: store_buf_def devices_of_def fun_eq_iff split: option.split)

lemma write7_devices:
  "chrdev_write7 f usr k filp n pos = Inr (r, pos', k') \<Longrightarrow> devices_of k' = devices_of k"
  by (auto simp: chrdev_write7_def Let_def bindo_Inr_iff store_buf_devices split: option.splits if_splits)

lemma dev_call7_devices:
  assumes "dev_call rd7 wr7 sk7 c ((k, filp), pos) = Inr (a, (k', filp'), pos')"
  shows "filp' = filp \<and> devices_of k' = devices_of k"
proof (cases c)
  case (Read f n)
  with assms show ?thesis by (auto simp: bindo_Inr_iff)
next
  case (Write f usr n)
  with assms show ?thesis
    by (cases "chrdev_write7 f usr k filp n pos") (auto dest: write7_devices)
next
  case (Seek off whence)
  with assms show ?thesis by (simp add: split_beta)
qed

lemma step7_call:
  assumes ok: "sys7_ok y" and p: "op_ok7 y (Call7 fd c)"
  shows "keeps7 (Call7 fd c) y"
proof (rule keeps7_with_file [OF ok step7.simps(5)])
  fix filp
  assume f: "fds7 y fd = Some filp"
  note y = sys7_okD [OF ok]
  from file_ok7_opened [OF ok f] obtain i where i: "private_data filp = Some i" "i < 8"
    "opened7 (kern7 y, filp)" "unat (f_pos filp) \<le> 4096" by metis
  then have t: "io7.dev_ok ((kern7 y, filp), f_pos filp)" by (simp add: io7.dev_ok_def)
  have c: "call_ok c" using p by simp
  have "\<exists>a t'. dev_call rd7 wr7 sk7 c ((kern7 y, filp), f_pos filp) = Inr (a, t') \<and> io7.dev_ok t'"
  proof (cases "is_Seek c")
    case True
    then obtain off whence where "c = Seek off whence" by (cases c) auto
    then show ?thesis using seek7.seek_simulates [OF t, of off whence] by blast
  next
    case False
    have "unat BUF_LEN7 < 2 ^ 63" by simp
    from io7.call_simulates [OF t c this False, of sk7] show ?thesis by blast
  qed
  then obtain a k filp' pos where run: "dev_call rd7 wr7 sk7 c ((kern7 y, filp), f_pos filp) = Inr (a, (k, filp'), pos)"
    and op: "opened7 (k, filp')" and pos: "unat pos \<le> 4096"
    by (auto simp: io7.dev_ok_def)
  from dev_call7_devices [OF run] have same: "filp' = filp" "devices_of k = devices_of (kern7 y)" by simp_all
  have "file_ok7 (kern7 y) (filp\<lparr>f_pos := pos\<rparr>)"
    using y(3) [OF f] pos by (simp add: file_ok7_def)
  moreover have "mem_inv k" using op by (simp add: opened7_def)
  ultimately have "sys7_ok (y\<lparr>kern7 := k, fds7 := (fds7 y)(fd \<mapsto> filp\<lparr>f_pos := pos\<rparr>)\<rparr>)"
    using same(2) by (intro sys7_ok_frame(1) [OF ok]) (auto simp: y(3) split: if_splits)
  with run same(1) show "\<exists>a y'. bindo (dev_call rd7 wr7 sk7 c ((kern7 y, filp), f_pos filp))
      (\<lambda>(a, (k, filp'), pos). Inr (a, y\<lparr>kern7 := k, fds7 := (fds7 y)(fd \<mapsto> filp'\<lparr>f_pos := pos\<rparr>)\<rparr>)) = Inr (a, y') \<and> sys7_ok y'"
    by simp
qed

lemma step7_keeps:
  "sys7_ok y \<Longrightarrow> op_ok7 y p \<Longrightarrow> keeps7 p y"
  using step7_register step7_unregister step7_open step7_close step7_call step7_ioctl step7_mmap
  by (cases p) (simp_all only: op_ok7.simps)

interpretation s7: step_system step7 sys7_ok op_ok7
  by unfold_locales (use step7_keeps in \<open>simp add: keeps7_def\<close>)

lemma boot7_ok:
  assumes "chrdev_init7 e start7 = (0, k)"
  shows "sys7_ok (boot7 k)"
proof -
  note st = init7_state [OF assms]
  have slots: "slot k i = slot start7 i" for i by (simp add: slot_def st(1))
  have free: "slot k i = zero_dev7" if "i < 8" for i
    using start7_free [OF that] by (simp add: slots)
  have "busy_ids k = {}" "busy_ids start7 = {}"
    using free by (auto simp: busy_ids_def slots zero_dev7_def start7_free)
  then have "registry_inv k"
    using mem_inv_start7 st free
    by (auto simp: mem_inv_def registry_inv_def slot_ok_def zero_dev7_def)
  moreover have "heap_inv k"
    using mem_inv_start7 heap_inv_frame [of start7 k] st by (simp add: mem_inv_def slots)
  moreover have "devices_of k i = None" for i
    using free by (simp add: devices_of_def zero_dev7_def)
  ultimately show ?thesis
    by (simp add: sys7_ok_def mem_inv_def boot7_def)
qed

section \<open>Properties\<close>


lemma in_tail: "x # xs = (q # qs) @ p # rs \<Longrightarrow> p \<in> set xs"
  by auto


end
