(* ===== verification/Cbuf.thy ===== *)
theory Cbuf
  imports Prelude
begin

text \<open>
  The circular buffer of \<^verbatim>\<open>Chapter07/chrdev/chrdev_irq.c\<close> (lines 47 to 81): two
  indices into an array, of which one element always stays free. The locale
  \<open>bounded_fifo\<close> is the queue the timer handler and the reader rely on; the buffer
  functions with the array accesses the driver makes around them are proved to provide
  it, by the abstraction \<open>ring_items\<close> to a list.
\<close>

section \<open>The buffer functions\<close>

definition cbuf_is_empty :: "u64 \<Rightarrow> u64 \<Rightarrow> u64 \<Rightarrow> bool" where
  "cbuf_is_empty head tail len \<longleftrightarrow> head = tail"

definition cbuf_is_full :: "u64 \<Rightarrow> u64 \<Rightarrow> u64 \<Rightarrow> bool" where
  "cbuf_is_full head tail len \<longleftrightarrow> (let head = (head + 1) mod len in head = tail)"

definition cbuf_count_to_end :: "u64 \<Rightarrow> u64 \<Rightarrow> u64 \<Rightarrow> u64" where
  "cbuf_count_to_end head tail len =
     (if tail \<le> head then head - tail else len - tail + head)"

definition cbuf_space_to_end :: "u64 \<Rightarrow> u64 \<Rightarrow> u64 \<Rightarrow> u64" where
  "cbuf_space_to_end head tail len =
     (if tail \<le> head then len - head + tail - 1 else tail - head - 1)"

definition cbuf_pointer_move :: "u64 \<Rightarrow> u64 \<Rightarrow> u64 \<Rightarrow> u64" where
  "cbuf_pointer_move ptr n len = (ptr + n) mod len"

section \<open>A buffer and its two indices\<close>

record 'a ring =
  store :: "'a list"
  rhead :: u64
  rtail :: u64

definition ring_ok :: "u64 \<Rightarrow> 'a ring \<Rightarrow> bool" where
  "ring_ok len r \<longleftrightarrow>
     length (store r) = unat len \<and> 1 < unat len \<and> unat len < 2 ^ 63 \<and>
     unat (rhead r) < unat len \<and> unat (rtail r) < unat len"

definition ring_count :: "u64 \<Rightarrow> 'a ring \<Rightarrow> nat" where
  "ring_count len r = (unat (rhead r) + unat len - unat (rtail r)) mod unat len"

definition ring_items :: "u64 \<Rightarrow> 'a ring \<Rightarrow> 'a list" where
  "ring_items len r =
     map (\<lambda>k. store r ! ((unat (rtail r) + k) mod unat len)) [0 ..< ring_count len r]"

text \<open>The accesses: store at the head, copy from the tail, move the tail.\<close>

definition ring_put :: "u64 \<Rightarrow> 'a \<Rightarrow> 'a ring \<Rightarrow> fault + 'a ring" where
  "ring_put len x r =
     bindo (mem_write (store r) (unat (rhead r)) [x])
       (\<lambda>b. Inr (r\<lparr>store := b, rhead := cbuf_pointer_move (rhead r) 1 len\<rparr>))"

definition ring_peek :: "u64 \<Rightarrow> 'a ring \<Rightarrow> fault + 'a list" where
  "ring_peek n r = mem_read (store r) (unat (rtail r)) (unat n)"

definition ring_drop :: "u64 \<Rightarrow> u64 \<Rightarrow> 'a ring \<Rightarrow> 'a ring" where
  "ring_drop len n r = r\<lparr>rtail := cbuf_pointer_move (rtail r) n len\<rparr>"

section \<open>Arithmetic of the indices\<close>

lemma ring_count_alt:
  assumes "h < L" and "t < (L :: nat)"
  shows "(h + L - t) mod L = (if t \<le> h then h - t else L - t + h)"
proof (cases "t \<le> h")
  case True
  then have "h + L - t = (h - t) + L" by simp
  then have "(h + L - t) mod L = h - t"
    using assms by (simp only: mod_add_self2) simp
  with True show ?thesis by simp
next
  case False
  with assms show ?thesis by simp
qed

lemma unat_diff_words: "b \<le> a \<Longrightarrow> unat (a - b) = unat a - unat (b :: u64)"
  by (simp add: unat_sub)

lemma cbuf_count_to_end_nat:
  assumes "unat h < unat len" and "unat t < unat len"
  shows "unat (cbuf_count_to_end h t len) = (unat h + unat len - unat t) mod unat len"
proof (cases "t \<le> h")
  case True
  with assms show ?thesis
    by (simp add: cbuf_count_to_end_def ring_count_alt unat_diff_words word_le_nat_alt)
next
  case False
  then have "unat (len - t) = unat len - unat t"
    using assms by (intro unat_diff_words) (simp add: word_le_nat_alt)
  moreover have "unat (len - t) + unat h < 2 ^ 64"
    using False assms unat_lt64 [of len] calculation by (simp add: word_le_nat_alt)
  ultimately show ?thesis
    using False assms
    by (simp add: cbuf_count_to_end_def ring_count_alt unat_word_ariths word_le_nat_alt)
qed

lemma cbuf_pointer_move_nat:
  assumes "unat p < unat len" and "unat len < 2 ^ 63" and "unat n \<le> unat len"
  shows "unat (cbuf_pointer_move p n len) = (unat p + unat n) mod unat len"
proof -
  have "unat (p + n) = unat p + unat n"
    using assms by (simp add: unat_word_ariths)
  then show ?thesis by (simp add: cbuf_pointer_move_def unat_mod_distrib)
qed

lemma cbuf_is_full_nat:
  assumes "unat h < unat len" and "unat t < unat len" and "unat len < 2 ^ 63" and "1 < unat len"
  shows "cbuf_is_full h t len \<longleftrightarrow> (unat h + unat len - unat t) mod unat len + 1 = unat len"
proof -
  have "unat ((h + 1) mod len) = (unat h + 1) mod unat len"
    using cbuf_pointer_move_nat [of h len 1] assms by (simp add: cbuf_pointer_move_def)
  then have "cbuf_is_full h t len \<longleftrightarrow> (unat h + 1) mod unat len = unat t"
    by (simp add: cbuf_is_full_def word_unat_eq_iff)
  also have "\<dots> \<longleftrightarrow> (unat h + unat len - unat t) mod unat len + 1 = unat len"
  proof (cases "unat h + 1 = unat len")
    case True
    with assms show ?thesis by (auto simp: ring_count_alt)
  next
    case False
    with assms have "(unat h + 1) mod unat len = unat h + 1" by simp
    with assms False show ?thesis by (auto simp: ring_count_alt)
  qed
  finally show ?thesis .
qed

lemma cbuf_space_to_end_nat:
  assumes "unat h < unat len" and "unat t < unat len" and "unat len < 2 ^ 63"
  shows "unat (cbuf_space_to_end h t len) + unat (cbuf_count_to_end h t len) + 1 = unat len"
proof (cases "t \<le> h")
  case True
  have a: "unat (len - h) = unat len - unat h"
    using assms by (intro unat_diff_words) (simp add: word_le_nat_alt)
  have b: "unat (len - h + t) = unat len - unat h + unat t"
    using a assms by (simp add: unat_word_ariths)
  have "unat (len - h + t - 1) = unat (len - h + t) - 1"
    using b assms(1) by (subst unat_diff_words) (auto simp: word_le_nat_alt)
  with b True assms show ?thesis
    by (simp add: cbuf_space_to_end_def cbuf_count_to_end_nat ring_count_alt word_le_nat_alt)
next
  case False
  then have lt: "unat h < unat t" by (simp add: word_le_nat_alt)
  have a: "unat (t - h) = unat t - unat h"
    using lt by (intro unat_diff_words) (simp add: word_le_nat_alt)
  have "unat (t - h - 1) = unat (t - h) - 1"
    using a lt by (subst unat_diff_words) (auto simp: word_le_nat_alt)
  with a False lt assms show ?thesis
    by (simp add: cbuf_space_to_end_def cbuf_count_to_end_nat ring_count_alt)
qed

section \<open>The queue contract\<close>

locale bounded_fifo =
  fixes is_empty :: "'q \<Rightarrow> bool" and is_full :: "'q \<Rightarrow> bool" and count :: "'q \<Rightarrow> u64"
    and put :: "'a \<Rightarrow> 'q \<Rightarrow> fault + 'q" and peek :: "u64 \<Rightarrow> 'q \<Rightarrow> fault + 'a list"
    and discard :: "u64 \<Rightarrow> 'q \<Rightarrow> 'q"
    and items :: "'q \<Rightarrow> 'a list" and inv :: "'q \<Rightarrow> bool" and capacity :: nat
  assumes items_bound: "inv q \<Longrightarrow> length (items q) \<le> capacity"
    and is_empty: "inv q \<Longrightarrow> is_empty q \<longleftrightarrow> items q = []"
    and is_full: "inv q \<Longrightarrow> is_full q \<longleftrightarrow> length (items q) = capacity"
    and count: "inv q \<Longrightarrow> unat (count q) = length (items q)"
    and put: "inv q \<Longrightarrow> length (items q) < capacity \<Longrightarrow>
              \<exists>q'. put x q = Inr q' \<and> inv q' \<and> items q' = items q @ [x]"
    and peek_sound: "inv q \<Longrightarrow> unat n \<le> length (items q) \<Longrightarrow> peek n q = Inr xs \<Longrightarrow>
              xs = take (unat n) (items q)"
    and peek_one: "inv q \<Longrightarrow> items q \<noteq> [] \<Longrightarrow> \<exists>x. peek 1 q = Inr [x]"
    and discard: "inv q \<Longrightarrow> unat n \<le> length (items q) \<Longrightarrow>
              inv (discard n q) \<and> items (discard n q) = drop (unat n) (items q)"
begin

text \<open>Putting a list of elements, dropping those that find the queue full.\<close>

fun offer :: "'a list \<Rightarrow> 'q \<Rightarrow> fault + 'q" where
  "offer [] q = Inr q"
| "offer (x # xs) q = (if is_full q then offer xs q else bindo (put x q) (offer xs))"

lemma offer_items:
  "inv q \<Longrightarrow> \<exists>q'. offer xs q = Inr q' \<and> inv q' \<and>
     items q' = items q @ take (capacity - length (items q)) xs"
proof (induction xs arbitrary: q)
  case Nil
  then show ?case by simp
next
  case (Cons x xs)
  show ?case
  proof (cases "is_full q")
    case True
    then have "capacity - length (items q) = 0"
      using Cons.prems by (simp add: is_full)
    with Cons.IH [OF Cons.prems] True show ?thesis by simp
  next
    case False
    then have lt: "length (items q) < capacity"
      using Cons.prems is_full items_bound [OF Cons.prems] by fastforce
    from put [OF Cons.prems lt, of x] obtain q1 where
      q1: "put x q = Inr q1" "inv q1" "items q1 = items q @ [x]" by blast
    have "Suc (capacity - length (items q1)) = capacity - length (items q)"
      using lt q1(3) by simp
    then show ?thesis
      using Cons.IH [OF q1(2)] q1 False by (auto simp flip: take_Suc_Cons)
  qed
qed

text \<open>One element in, one element out: the queue hands back the oldest.\<close>

lemma peek_discard_one:
  assumes "inv q" and "items q \<noteq> []"
  shows "\<exists>x. peek 1 q = Inr [x] \<and> items q = x # items (discard 1 q) \<and> inv (discard 1 q)"
proof -
  from peek_one [OF assms] obtain x where x: "peek 1 q = Inr [x]" by blast
  have n: "unat (1 :: u64) \<le> length (items q)"
    using assms(2) by (cases "items q") simp_all
  from peek_sound [OF assms(1) n x] discard [OF assms(1) n] x assms(2) show ?thesis
    by (cases "items q") auto
qed

end

section \<open>The circular buffer provides it\<close>

lemma length_ring_items [simp]: "length (ring_items len r) = ring_count len r"
  by (simp add: ring_items_def)

lemma ring_count_less: "ring_ok len r \<Longrightarrow> ring_count len r < unat len"
  by (simp add: ring_ok_def ring_count_def)

lemma ring_count_if:
  "ring_ok len r \<Longrightarrow>
   ring_count len r = (if unat (rtail r) \<le> unat (rhead r) then unat (rhead r) - unat (rtail r)
                       else unat len - unat (rtail r) + unat (rhead r))"
  by (simp add: ring_ok_def ring_count_def ring_count_alt)

lemma ring_put_items:
  assumes ok: "ring_ok len r" and room: "ring_count len r + 1 < unat len"
  shows "\<exists>r'. ring_put len x r = Inr r' \<and> ring_ok len r' \<and> ring_items len r' = ring_items len r @ [x]"
proof -
  let ?h = "unat (rhead r)" and ?t = "unat (rtail r)" and ?L = "unat len"
  let ?c = "ring_count len r"
  let ?r = "r\<lparr>store := (store r)[?h := x], rhead := cbuf_pointer_move (rhead r) 1 len\<rparr>"
  have bounds: "length (store r) = ?L" "1 < ?L" "?L < 2 ^ 63" "?h < ?L" "?t < ?L"
    using ok by (simp_all add: ring_ok_def)
  have put: "ring_put len x r = Inr ?r"
    using bounds by (simp add: ring_put_def mem_write_in upd_conv_take_nth_drop)
  have move: "unat (cbuf_pointer_move (rhead r) 1 len) = (?h + 1) mod ?L"
    using cbuf_pointer_move_nat [of "rhead r" len 1] bounds by simp
  have ok': "ring_ok len ?r"
    using ok move by (simp add: ring_ok_def)
  have count: "ring_count len ?r = Suc ?c"
    using ring_count_if [OF ok'] ring_count_if [OF ok] room bounds move
    by (cases "?h + 1 = ?L") (auto split: if_splits)
  have last: "(?t + ?c) mod ?L = ?h"
    using bounds by (simp add: ring_count_def ring_count_alt)
  have other: "?h \<noteq> (?t + k) mod ?L" if "k < ?c" for k
  proof
    assume "?h = (?t + k) mod ?L"
    with last have "(?t + k) mod ?L = (?t + ?c) mod ?L" by simp
    moreover have "?c < ?L" using room by simp
    ultimately show False
      using that bounds by (simp add: mod_if split: if_splits)
  qed
  have "ring_items len ?r = ring_items len r @ [x]"
    using bounds last other by (auto simp: ring_items_def count)
  with put ok' show ?thesis by blast
qed

lemma ring_peek_items:
  assumes "ring_ok len r" and "unat n \<le> ring_count len r" and "ring_peek n r = Inr xs"
  shows "xs = take (unat n) (ring_items len r)"
proof (cases "unat n = 0")
  case True
  with assms(3) show ?thesis by (simp add: ring_peek_def mem_read_def)
next
  case False
  have fits: "unat (rtail r) + unat n \<le> unat len" and xs: "xs = take (unat n) (drop (unat (rtail r)) (store r))"
    using assms(1,3) False by (auto simp: ring_peek_def mem_read_def ring_ok_def split: if_splits)
  show ?thesis
  proof (rule nth_equalityI)
    show "length xs = length (take (unat n) (ring_items len r))"
      using fits assms(1,2) by (simp add: xs ring_ok_def)
    show "xs ! i = take (unat n) (ring_items len r) ! i" if "i < length xs" for i
      using that fits assms(1,2) by (simp add: xs ring_ok_def ring_items_def)
  qed
qed

lemma ring_peek_fits:
  "ring_ok len r \<Longrightarrow> unat (rtail r) + unat n \<le> unat len \<Longrightarrow> \<exists>xs. ring_peek n r = Inr xs"
  by (simp add: ring_peek_def mem_read_def ring_ok_def)

lemma ring_drop_items:
  assumes ok: "ring_ok len r" and n: "unat n \<le> ring_count len r"
  shows "ring_ok len (ring_drop len n r)"
    and "ring_items len (ring_drop len n r) = drop (unat n) (ring_items len r)"
proof -
  let ?h = "unat (rhead r)" and ?t = "unat (rtail r)" and ?L = "unat len"
  let ?r = "ring_drop len n r"
  have bounds: "1 < ?L" "?L < 2 ^ 63" "?h < ?L" "?t < ?L" "unat n < ?L"
    using ok n ring_count_less [OF ok] by (simp_all add: ring_ok_def)
  have move: "unat (rtail ?r) = (?t + unat n) mod ?L"
    using cbuf_pointer_move_nat [of "rtail r" len n] bounds by (simp add: ring_drop_def)
  show ok': "ring_ok len ?r"
    using ok move bounds by (simp add: ring_ok_def ring_drop_def)
  have wrap: "(?t + unat n) mod ?L = (if ?t + unat n < ?L then ?t + unat n else ?t + unat n - ?L)"
    using bounds by (simp add: mod_if)
  have head: "rhead ?r = rhead r"
    by (simp add: ring_drop_def)
  have count: "ring_count len ?r = ring_count len r - unat n"
    using n bounds ring_count_if [OF ok'] ring_count_if [OF ok]
    unfolding head move wrap by (auto split: if_splits)
  show "ring_items len ?r = drop (unat n) (ring_items len r)"
  proof (rule nth_equalityI)
    show "length (ring_items len ?r) = length (drop (unat n) (ring_items len r))"
      by (simp add: count)
    show "ring_items len ?r ! i = drop (unat n) (ring_items len r) ! i"
      if "i < length (ring_items len ?r)" for i
    proof -
      have "(((?t + unat n) mod ?L) + i) mod ?L = (?t + (unat n + i)) mod ?L"
        by (simp add: mod_simps add.assoc)
      then show ?thesis
        using that count n by (simp add: ring_items_def move) (simp add: ring_drop_def)
    qed
  qed
qed

interpretation cq: bounded_fifo
  "\<lambda>r. cbuf_is_empty (rhead r) (rtail r) len" "\<lambda>r. cbuf_is_full (rhead r) (rtail r) len"
  "\<lambda>r. cbuf_count_to_end (rhead r) (rtail r) len" "ring_put len" ring_peek "ring_drop len"
  "ring_items len" "ring_ok len" "unat len - 1"
  for len :: u64
proof (unfold_locales, goal_cases)
  case (1 r)
  then show ?case using ring_count_less [OF 1] by simp
next
  case (2 r)
  then have "ring_items len r = [] \<longleftrightarrow> ring_count len r = 0"
    by (metis length_0_conv length_ring_items)
  with 2 show ?case
    using ring_count_if [OF 2]
    by (auto simp: cbuf_is_empty_def ring_ok_def word_unat_eq_iff split: if_splits)
next
  case (3 r)
  then show ?case
    using cbuf_is_full_nat [of "rhead r" len "rtail r"]
    by (auto simp: ring_ok_def ring_count_def)
next
  case (4 r)
  then show ?case
    using cbuf_count_to_end_nat [of "rhead r" len "rtail r"]
    by (simp add: ring_ok_def ring_count_def)
next
  case (5 r x)
  then show ?case using ring_put_items [of len r x] by simp
next
  case (6 r n xs)
  then show ?case using ring_peek_items by simp
next
  case (7 r)
  from ring_peek_fits [of len r 1] 7 obtain xs where xs: "ring_peek 1 r = Inr xs"
    by (auto simp: ring_ok_def)
  then have "length xs = 1"
    using mem_read_Inr_length [of "store r"] by (simp add: ring_peek_def)
  with xs show ?case by (auto simp: length_Suc_conv)
next
  case (8 r n)
  then show ?case using ring_drop_items [of len r n] by simp
qed

end
