(* ===== verification/Chrdev_Irq.thy ===== *)
theory Chrdev_Irq
  imports Registry_Mem Buffer_IO Cbuf
begin

text \<open>
  \<^verbatim>\<open>Chapter07/chrdev/chrdev_irq.c\<close>: devices whose page is a circular buffer that a
  timer fills with characters and \<open>read\<close> empties. Here are the state, the timer handler,
  the file methods (the phases of \<open>chrdev_read\<close> between two lock operations as
  definitions of their own, and their sequential composition), the exported functions and
  the module's start and stop, with the invariant \<open>irq_inv\<close> and the correspondence with
  the queue of theory \<open>Cbuf\<close>. Theory \<open>Irq_Concurrent\<close> interleaves the phases.
\<close>

section \<open>State\<close>

definition BUF_LEN_irq :: u64 where "BUF_LEN_irq = PAGE_SIZE"

record chrdev_irq = chrdev_mem +
  head :: u64
  tail :: u64
  fasync_queue :: "s32 list"       \<comment> \<open>the descriptors to be signalled\<close>

record drv_irq = "chrdev_irq drv_mem" +
  gen_d :: byte                    \<comment> \<open>the \<open>static char d\<close> of \<open>get_new_char()\<close>\<close>
  delay_ns :: s32

record ofile_irq = ofile +
  f_flags :: u32

definition O_NONBLOCK :: u32 where "O_NONBLOCK = 0x800"

definition zero_irq :: chrdev_irq where
  "zero_irq = \<lparr>label = replicate NAME_LEN NUL, busy = False, read_only = 0, devid = 0,
               dev = NullDev, bufp = None, head = 0, tail = 0, fasync_queue = []\<rparr>"

definition start_irq :: drv_irq where
  "start_irq = \<lparr>chrdev_devt = MKDEV 0 0, chrdev_class = NullClass,
             chrdev_array = replicate (unat MAX_DEVICES) zero_irq, ktrace = [],
             heap = (\<lambda>_. None), gen_d = 64, delay_ns = 1000000000\<rparr>"

section \<open>The timer\<close>

definition get_new_char :: "byte \<Rightarrow> byte \<times> byte" where
  "get_new_char d = (let d = d + 1; d = (if d = 91 then 65 else d) in (d, d))"

text \<open>The first part of the handler runs under the spin lock.\<close>

definition timer_produce :: "nat \<Rightarrow> drv_irq \<Rightarrow> fault + drv_irq" where
  "timer_produce i s =
     (let chrdev = slot s i in
      if cbuf_is_full (head chrdev) (tail chrdev) BUF_LEN_irq then Inr s
      else
        let (c, d) = get_new_char (gen_d s); s = s\<lparr>gen_d := d\<rparr>
        in bindo (load_buf s (bufp chrdev)) (\<lambda>b.
           bindo (mem_write b (unat (head chrdev)) [c]) (\<lambda>b'.
             Inr (upd_slot i (\<lambda>x. x\<lparr>head := cbuf_pointer_move (head x) 1 BUF_LEN_irq\<rparr>)
                   (store_buf (bufp chrdev) b' s)))))"

definition chrdev_timer_handler :: "nat \<Rightarrow> drv_irq \<Rightarrow> fault + (hrtimer_restart \<times> drv_irq)" where
  "chrdev_timer_handler i s =
     bindo (timer_produce i s) (\<lambda>s.
       Inr (HRTIMER_RESTART,
            call (Timer_Forward i (sint (delay_ns s))) (call (Kill_Fasync i) (call (Wake_Up i) s))))"

section \<open>File methods\<close>

text \<open>\<open>fasync_helper()\<close> is the kernel's; it answers a result and the new queue.\<close>

definition chrdev_fasync ::
  "(s32 \<Rightarrow> ofile_irq \<Rightarrow> s32 \<Rightarrow> s32 list \<Rightarrow> s32 \<times> s32 list) \<Rightarrow> s32 \<Rightarrow> ofile_irq \<Rightarrow> s32 \<Rightarrow> drv_irq \<Rightarrow>
   fault + (s32 \<times> drv_irq)" where
  "chrdev_fasync fasync_helper fd filp on s =
     (case private_data filp of
        None \<Rightarrow> Inl BadPointer
      | Some i \<Rightarrow>
          let (ret, q) = fasync_helper fd filp on (fasync_queue (slot s i))
          in Inr (ret, upd_slot i (\<lambda>c. c\<lparr>fasync_queue := q\<rparr>) s))"

definition EPOLLIN :: u32 where "EPOLLIN = 0x1"
definition EPOLLRDNORM :: u32 where "EPOLLRDNORM = 0x40"

definition empty_irq :: "nat \<Rightarrow> drv_irq \<Rightarrow> bool" where
  "empty_irq i s = cbuf_is_empty (head (slot s i)) (tail (slot s i)) BUF_LEN_irq"

definition chrdev_poll :: "drv_irq \<Rightarrow> ofile_irq \<Rightarrow> fault + u32" where
  "chrdev_poll s filp =
     (case private_data filp of
        None \<Rightarrow> Inl BadPointer
      | Some i \<Rightarrow> Inr (if \<not> empty_irq i s then or EPOLLIN EPOLLRDNORM else 0))"

text \<open>
  The phases of \<open>chrdev_read()\<close>. \<open>read_fetch\<close> runs under the spin lock: it clips the
  count and copies to \<open>char tmp[256]\<close>; \<open>read_copy\<close> copies to the user and says whether the
  (signed) answer was taken for an error; \<open>read_move\<close> moves the tail.
\<close>

definition TMP_LEN :: nat where "TMP_LEN = 256"

definition read_fetch :: "nat \<Rightarrow> u64 \<Rightarrow> drv_irq \<Rightarrow> fault + (u64 \<times> byte list)" where
  "read_fetch i count s =
     (let chrdev = slot s i;
          n = cbuf_count_to_end (head chrdev) (tail chrdev) BUF_LEN_irq;
          count = min count n
      in bindo (if count = 0 then Inr []
                else bindo (load_buf s (bufp chrdev)) (\<lambda>b.
                  mem_read b (unat (tail chrdev)) (unat count)))
           (\<lambda>x. bindo (mem_write (replicate TMP_LEN 0) 0 x) (\<lambda>tmp. Inr (count, tmp))))"

definition read_copy :: "copy_fun \<Rightarrow> u64 \<Rightarrow> byte list \<Rightarrow> byte list \<times> bool" where
  "read_copy copy_to_user count tmp =
     (let left = copy_to_user count; ret = (ucast left :: s32)
      in (take (unat count - unat left) tmp, negative ret))"

definition read_move :: "nat \<Rightarrow> u64 \<Rightarrow> drv_irq \<Rightarrow> drv_irq" where
  "read_move i count s = upd_slot i (\<lambda>c. c\<lparr>tail := cbuf_pointer_move (tail c) count BUF_LEN_irq\<rparr>) s"

text \<open>
  A whole read with nothing in between: it returns a value, delivers bytes and leaves a
  state, or it sleeps (blocking mode, no data, no signal). \<open>-EAGAIN\<close> and \<open>-EFAULT\<close> are put
  in a variable the function does not return.
\<close>

datatype read_result = Sleeps | Returns s64 "byte list" drv_irq

definition chrdev_read_irq ::
  "copy_fun \<Rightarrow> bool \<Rightarrow> drv_irq \<Rightarrow> ofile_irq \<Rightarrow> u64 \<Rightarrow> fault + read_result" where
  "chrdev_read_irq copy_to_user signal s filp count =
     (case private_data filp of
        None \<Rightarrow> Inl BadPointer
      | Some i \<Rightarrow>
          if and (f_flags filp) O_NONBLOCK \<noteq> 0 \<and> empty_irq i s then Inr (Returns count [] s)
          else if and (f_flags filp) O_NONBLOCK = 0 \<and> empty_irq i s
          then Inr (if signal then Returns (- ERESTARTSYS) [] s else Sleeps)
          else bindo (read_fetch i count s) (\<lambda>(count, tmp).
            let (out, failed) = read_copy copy_to_user count tmp
            in if failed then Inr (Returns count out s)
               else Inr (Returns count out (read_move i count s))))"

definition chrdev_open_irq :: "nat \<Rightarrow> ofile_irq \<Rightarrow> drv_irq \<Rightarrow> fault + (s32 \<times> ofile_irq \<times> drv_irq)" where
  "chrdev_open_irq i filp s =
     (case dev (slot s i) of
        Dev h devt \<Rightarrow> Inr (0, filp\<lparr>private_data := Some i\<rparr>, call (Kobject_Get h) s)
      | _ \<Rightarrow> Inl BadPointer)"

definition chrdev_release_irq :: "nat \<Rightarrow> ofile_irq \<Rightarrow> drv_irq \<Rightarrow> fault + (s32 \<times> ofile_irq \<times> drv_irq)" where
  "chrdev_release_irq i filp s =
     (case dev (slot s i) of
        Dev h devt \<Rightarrow> Inr (0, filp\<lparr>private_data := None\<rparr>, call (Kobject_Put h) s)
      | _ \<Rightarrow> Inl BadPointer)"

section \<open>Exported functions\<close>

definition chrdev_device_register_irq :: "(reg_env_mem, drv_irq) register_fun" where
  "chrdev_device_register_irq e lbl ident ro owner parent s =
     (if MAX_DEVICES \<le> ident then Inr (- EINVAL, s)
      else let i = unat ident in
      if busy (slot s i) then Inr (- EBUSY, s)
      else
        let p = kzalloc_ret e;
            s = call (Kzalloc (unat BUF_LEN_irq) p) (upd_slot i (\<lambda>c. c\<lparr>bufp := p\<rparr>) s)
        in case p of
          None \<Rightarrow> bindo (dev_print (ktrace s) (dev (slot s i))) (\<lambda>_. Inr (- ENOMEM, s))
        | Some a \<Rightarrow>
          let s = s\<lparr>heap := (heap s)(a \<mapsto> replicate (unat BUF_LEN_irq) 0)\<rparr>;
              s = call (Cdev_Init i owner) s;
              devt = MKDEV (MAJOR (chrdev_devt s)) ident;
              ret = cdev_add_ret e;
              s = call (Cdev_Add i devt ret) s
          in if ret \<noteq> 0 then bindo (kfree (bufp (slot s i)) s) (\<lambda>s. Inr (ret, s))
          else bindo (node_name lbl ident) (\<lambda>name.
            let d = device_create e devt;
                s = call (Device_Create parent devt name d) (upd_slot i (\<lambda>c. c\<lparr>dev := d\<rparr>) s)
            in case d of
                 ErrDev err \<Rightarrow>
                   bindo (kfree (bufp (slot s i)) (call (Cdev_Del i) s)) (\<lambda>s. Inr (err, s))
               | _ \<Rightarrow> bindo (strncpy lbl NAME_LEN) (\<lambda>l.
                   Inr (0, call (Timer_Start i)
                     (upd_slot i (\<lambda>c. (c\<lparr>devid := ident, read_only := ro, busy := True, label := l\<rparr>)
                                        \<lparr>head := 0, tail := 0, fasync_queue := []\<rparr>) s)))))"

definition chrdev_device_unregister_irq :: "drv_irq unregister_fun" where
  "chrdev_device_unregister_irq lbl ident s =
     (if MAX_DEVICES \<le> ident then Inr (- EINVAL, s)
      else let i = unat ident in
      if \<not> busy (slot s i) then Inr (- EINVAL, s)
      else bindo (strcmp (label (slot s i)) lbl) (\<lambda>c.
        if c \<noteq> 0 then Inr (- EINVAL, s)
        else
          let s = call (Timer_Cancel i) s;
              s = upd_slot i (\<lambda>d. d\<lparr>devid := 0, busy := False\<rparr>) s
          in bindo (kfree (bufp (slot s i)) s) (\<lambda>s.
            case dev (slot s i) of
              Dev h devt \<Rightarrow> Inr (0, call (Cdev_Del i) (call (Device_Destroy devt) s))
            | _ \<Rightarrow> Inl BadPointer)))"

section \<open>Module start and stop\<close>

definition chrdev_init_irq :: "init_env \<Rightarrow> drv_irq \<Rightarrow> s32 \<times> drv_irq" where
  "chrdev_init_irq e s =
     (let c = class_create_ret e;
          s = call (Class_Create c) (s\<lparr>chrdev_class := c\<rparr>)
      in if c = NullClass then (- ENOMEM, s)
      else
        let ret = alloc_region_ret e;
            s = call (Alloc_Chrdev_Region (alloc_region_devt e) (unat MAX_DEVICES) ret) s
        in if negative ret then (ret, call (Class_Destroy (chrdev_class s)) s)
           else (0, s\<lparr>chrdev_devt := alloc_region_devt e\<rparr>))"

definition chrdev_exit_irq :: "drv_irq \<Rightarrow> drv_irq" where
  "chrdev_exit_irq s =
     call (Class_Destroy (chrdev_class s))
       (call (Unregister_Chrdev_Region (chrdev_devt s) (unat MAX_DEVICES)) s)"

section \<open>The registrations are the shared ones\<close>

definition reset_queue :: "'a chrdev_irq_scheme \<Rightarrow> 'a chrdev_irq_scheme" where
  "reset_queue c = c\<lparr>head := 0, tail := 0, fasync_queue := []\<rparr>"

lemma BUF_LEN_irq_nat [simp]: "unat BUF_LEN_irq = 4096"
  by (simp add: BUF_LEN_irq_def)

lemma register_irq_eq:
  "chrdev_device_register_irq = register_mem reset_queue (\<lambda>i. Some (Timer_Start i))"
  by (intro ext)
    (simp only: chrdev_device_register_irq_def register_mem_def BUF_LEN_irq_def Let_def option.case
      reset_queue_def)

lemma unregister_irq_eq: "chrdev_device_unregister_irq = unregister_mem (\<lambda>i. Some (Timer_Cancel i))"
  by (intro ext) (simp only: chrdev_device_unregister_irq_def unregister_mem_def Let_def option.case)

lemma irq_extras: "own_fields reset_queue" "timer_call (\<lambda>i. Some (Timer_Start i))"
  "timer_call (\<lambda>i. Some (Timer_Cancel i))"
  by (simp_all add: own_fields_def timer_call_def reset_queue_def chrdev_mem.truncate_def)

section \<open>Invariant and abstraction to a queue\<close>

text \<open>
  Beyond \<open>mem_inv\<close>: the indices of a registered device are inside its page, and the
  timers that are armed are those of the registered devices.
\<close>

definition irq_inv :: "drv_irq \<Rightarrow> bool" where
  "irq_inv s \<longleftrightarrow> mem_inv s \<and>
     (\<forall>i < 8. busy (slot s i) \<longrightarrow> unat (head (slot s i)) < 4096 \<and> unat (tail (slot s i)) < 4096) \<and>
     live_timers (ktrace s) = busy_ids s"

definition ring_of :: "nat \<Rightarrow> drv_irq \<Rightarrow> byte ring" where
  "ring_of i s = \<lparr>store = the (heap s (the (bufp (slot s i)))),
                  rhead = head (slot s i), rtail = tail (slot s i)\<rparr>"

definition items :: "nat \<Rightarrow> drv_irq \<Rightarrow> byte list" where
  "items i s = ring_items BUF_LEN_irq (ring_of i s)"

lemma irq_invD:
  assumes "irq_inv s"
  shows "mem_inv s" and "registry_inv s" and "heap_inv s" and "length (chrdev_array s) = 8"
    and "live_timers (ktrace s) = busy_ids s"
  using assms by (auto simp: irq_inv_def mem_inv_def registry_inv_def)

lemma ring_of_simps [simp]:
  "rhead (ring_of i s) = head (slot s i)" "rtail (ring_of i s) = tail (slot s i)"
  by (simp_all add: ring_of_def)

text \<open>The buffer of a registered device, with the facts every proof below needs.\<close>

lemma irq_buf:
  assumes "irq_inv s" and "i < 8" and "busy (slot s i)"
  obtains a b where "bufp (slot s i) = Some a" and "heap s a = Some b" and "length b = 4096"
    and "store (ring_of i s) = b" and "ring_ok BUF_LEN_irq (ring_of i s)"
proof -
  obtain a b where ab: "bufp (slot s i) = Some a" "heap s a = Some b" "length b = 4096"
    using heap_inv_buf [OF irq_invD(3) [OF assms(1)] assms(2,3)] by blast
  moreover from ab have st: "store (ring_of i s) = b" by (simp add: ring_of_def)
  moreover have "ring_ok BUF_LEN_irq (ring_of i s)"
    using assms ab st by (simp add: ring_ok_def irq_inv_def)
  ultimately show thesis by (rule that)
qed

lemma irq_ring_ok: "irq_inv s \<Longrightarrow> i < 8 \<Longrightarrow> busy (slot s i) \<Longrightarrow> ring_ok BUF_LEN_irq (ring_of i s)"
  by (rule irq_buf)

lemma items_bound: "irq_inv s \<Longrightarrow> i < 8 \<Longrightarrow> busy (slot s i) \<Longrightarrow> length (items i s) < 4096"
  using cq.items_bound [OF irq_ring_ok] by (fastforce simp: items_def)

lemma empty_irq_items: "irq_inv s \<Longrightarrow> i < 8 \<Longrightarrow> busy (slot s i) \<Longrightarrow> empty_irq i s \<longleftrightarrow> items i s = []"
  using cq.is_empty [OF irq_ring_ok] by (simp add: empty_irq_def items_def)

text \<open>No two registered devices share a buffer, so a store to one leaves the others alone.\<close>

lemma bufs_differ:
  assumes "irq_inv s" and "i < 8" "busy (slot s i)" and "j < 8" "busy (slot s j)" and "i \<noteq> j"
  shows "bufp (slot s i) \<noteq> bufp (slot s j)"
proof
  assume eq: "bufp (slot s i) = bufp (slot s j)"
  obtain a where "bufp (slot s i) = Some a"
    by (rule irq_buf [OF assms(1-3)])
  with assms eq have "buf_owner s a i" "buf_owner s a j" by (simp_all add: buf_owner_def)
  with assms(6) show False
    using heap_invD(3) [OF irq_invD(3) [OF assms(1)]] by blast
qed

text \<open>A change of the indices and of the contents of one registered device's buffer.\<close>

definition queue_update :: "nat \<Rightarrow> byte list \<Rightarrow> u64 \<Rightarrow> u64 \<Rightarrow> drv_irq \<Rightarrow> drv_irq" where
  "queue_update i b h t s =
     (upd_slot i (\<lambda>c. c\<lparr>head := h, tail := t\<rparr>) s)\<lparr>heap := (heap s)(the (bufp (slot s i)) \<mapsto> b)\<rparr>"

lemma queue_update:
  assumes "irq_inv s" and "i < 8" and "busy (slot s i)" and "length b = 4096"
    and "unat h < 4096" and "unat t < 4096"
  shows "irq_inv (queue_update i b h t s)"
    and "ring_of i (queue_update i b h t s) = \<lparr>store = b, rhead = h, rtail = t\<rparr>"
    and "j < 8 \<Longrightarrow> j \<noteq> i \<Longrightarrow> busy (slot s j) \<Longrightarrow> items j (queue_update i b h t s) = items j s"
    and "j < 8 \<Longrightarrow> busy (slot (queue_update i b h t s) j) = busy (slot s j)"
    and "devices_of (queue_update i b h t s) = devices_of s"
proof -
  let ?t = "queue_update i b h t s"
  obtain a where a: "bufp (slot s i) = Some a" "heap s a \<noteq> None"
    using irq_buf [OF assms(1-3)] by (metis option.distinct(1))
  note len = irq_invD(4) [OF assms(1)]
  have same: "slot ?t j = (if j = i then (slot s i)\<lparr>head := h, tail := t\<rparr> else slot s j)" if "j < 8" for j
    using that len assms(2) by (simp add: queue_update_def)
  have frame: "busy (slot ?t j) = busy (slot s j) \<and> label (slot ?t j) = label (slot s j) \<and>
      devid (slot ?t j) = devid (slot s j) \<and> (busy (slot s j) \<longrightarrow> dev (slot ?t j) = dev (slot s j))"
    "busy (slot ?t j) = busy (slot s j) \<and> bufp (slot ?t j) = bufp (slot s j)" if "j < 8" for j
    using same [OF that] by auto
  have "registry_inv ?t" and v: "devices_of ?t = devices_of s"
    using registry_inv_frame [OF irq_invD(2) [OF assms(1)] _ _ frame(1)] len
    by (simp_all add: queue_update_def)
  moreover have "heap_inv ?t"
    using heap_inv_store [OF irq_invD(3) [OF assms(1)] a(2) assms(4) _ _ frame(2)] a
    by (simp add: queue_update_def)
  moreover have "busy_ids ?t = busy_ids s"
    using frame(2) by (auto simp: busy_ids_def)
  moreover have "ktrace ?t = ktrace s" by (simp add: queue_update_def)
  moreover have "unat (head (slot ?t j)) < 4096 \<and> unat (tail (slot ?t j)) < 4096"
    if "j < 8" "busy (slot ?t j)" for j
    using that assms same [OF that(1)] by (auto simp: irq_inv_def split: if_splits)
  ultimately show "irq_inv ?t"
    using irq_invD(5) [OF assms(1)] by (auto simp: irq_inv_def mem_inv_def)
  show "devices_of ?t = devices_of s" by (rule v)
  show "ring_of i ?t = \<lparr>store = b, rhead = h, rtail = t\<rparr>"
    using same [OF assms(2)] a by (simp add: ring_of_def) (simp add: queue_update_def)
  show "busy (slot ?t j) = busy (slot s j)" if "j < 8"
    using frame(2) [OF that] by simp
  show "items j ?t = items j s" if j: "j < 8" "j \<noteq> i" "busy (slot s j)"
  proof -
    obtain c where c: "bufp (slot s j) = Some c" by (rule irq_buf [OF assms(1) j(1,3)])
    then have "c \<noteq> a"
      using bufs_differ [OF assms(1-3) j(1,3)] j(2) a(1) by auto
    then have "ring_of j ?t = ring_of j s"
      using same [OF j(1)] j(2) c a(1) by (simp add: ring_of_def) (simp add: queue_update_def)
    then show ?thesis by (simp add: items_def)
  qed
qed

text \<open>The driver's other variables do not matter for the invariant and the queues.\<close>

lemma gen_d_frame:
  "irq_inv (s\<lparr>gen_d := d\<rparr>) = irq_inv s" "items i (s\<lparr>gen_d := d\<rparr>) = items i s"
  "devices_of (s\<lparr>gen_d := d\<rparr>) = devices_of s" "slot (s\<lparr>gen_d := d\<rparr>) j = slot s j"
  by (simp_all add: irq_inv_def mem_inv_def registry_inv_def heap_inv_def buf_owner_def slot_def
      busy_ids_def items_def ring_of_def devices_of_def fun_eq_iff)

section \<open>The handler puts, the reader takes\<close>

text \<open>The new state of the handler's first part: a character at the end of the queue, or nothing.\<close>

lemma timer_produce_items:
  assumes inv: "irq_inv s" and i: "i < 8" "busy (slot s i)"
  shows "\<exists>s'. timer_produce i s = Inr s' \<and> irq_inv s' \<and> devices_of s' = devices_of s \<and>
     (if length (items i s) = 4095 then s' = s
      else items i s' = items i s @ [snd (get_new_char (gen_d s))] \<and> gen_d s' = snd (get_new_char (gen_d s))) \<and>
     (\<forall>j < 8. j \<noteq> i \<longrightarrow> busy (slot s j) \<longrightarrow> items j s' = items j s)"
proof (cases "cbuf_is_full (head (slot s i)) (tail (slot s i)) BUF_LEN_irq")
  case True
  then have "length (items i s) = 4095"
    using cq.is_full [OF irq_ring_ok [OF assms]] by (simp add: items_def)
  then show ?thesis using True inv by (simp add: timer_produce_def)
next
  case False
  then have full: "length (items i s) \<noteq> 4095"
    using cq.is_full [OF irq_ring_ok [OF assms]] by (simp add: items_def)
  with items_bound [OF assms] have room: "length (items i s) < unat BUF_LEN_irq - 1" by simp
  obtain a b where ab: "bufp (slot s i) = Some a" "heap s a = Some b" "length b = 4096"
    "store (ring_of i s) = b" by (rule irq_buf [OF assms])
  define c where "c = snd (get_new_char (gen_d s))"
  have gen: "get_new_char (gen_d s) = (c, c)"
    by (simp add: c_def get_new_char_def Let_def)
  from cq.put [OF irq_ring_ok [OF assms] room [unfolded items_def], of c] obtain r where
    r: "ring_put BUF_LEN_irq c (ring_of i s) = Inr r" "ring_ok BUF_LEN_irq r"
      "ring_items BUF_LEN_irq r = items i s @ [c]" by (auto simp: items_def)
  then obtain b' where b': "mem_write b (unat (head (slot s i))) [c] = Inr b'"
    and req: "r = \<lparr>store = b', rhead = cbuf_pointer_move (head (slot s i)) 1 BUF_LEN_irq,
                  rtail = tail (slot s i)\<rparr>"
    by (auto simp: ring_put_def bindo_Inr_iff ring_of_def ab)
  let ?q = "queue_update i b' (rhead r) (tail (slot s i)) (s\<lparr>gen_d := c\<rparr>)"
  have len: "length b' = 4096" "unat (rhead r) < 4096" "unat (tail (slot s i)) < 4096"
    using r(2) by (simp_all add: ring_ok_def req)
  have "timer_produce i s =
      Inr ((upd_slot i (\<lambda>x. x\<lparr>head := cbuf_pointer_move (head x) 1 BUF_LEN_irq\<rparr>) (s\<lparr>gen_d := c\<rparr>))
            \<lparr>heap := (heap s)(a \<mapsto> b')\<rparr>)"
    using False ab b' gen by (simp add: timer_produce_def Let_def store_buf_def load_buf_def)
  also have "\<dots> = Inr ?q"
    using ab(1) by (simp add: queue_update_def req gen_d_frame upd_slot_def slot_def)
  finally have eq: "timer_produce i s = Inr ?q" .
  have pre: "irq_inv (s\<lparr>gen_d := c\<rparr>)" "busy (slot (s\<lparr>gen_d := c\<rparr>) i)"
    using inv i by (simp_all add: gen_d_frame)
  note q = queue_update [OF pre(1) i(1) pre(2) len]
  have "items i ?q = items i s @ [c]"
    unfolding items_def q(2) using r(3) by (simp add: req items_def)
  moreover have "gen_d ?q = c" by (simp add: queue_update_def upd_slot_def)
  ultimately show ?thesis
    using eq q(1,3,5) full by (auto simp: gen_d_frame c_def)
qed

text \<open>The calls the handler makes after the spin lock do not matter for the invariant.\<close>

lemma irq_inv_calls:
  assumes "irq_inv s"
    and "c \<in> {Timer_Forward i n, Kill_Fasync i, Wake_Up i}"
  shows "irq_inv (call c s)" and "items j (call c s) = items j s" and "devices_of (call c s) = devices_of s"
proof -
  note len = irq_invD(4) [OF assms(1)]
  have eff: "live_cdevs (ktrace (call c s)) = live_cdevs (ktrace s)"
    "live_devices (ktrace (call c s)) = live_devices (ktrace s)"
    "live_memory (ktrace (call c s)) = live_memory (ktrace s)"
    "live_timers (ktrace (call c s)) = live_timers (ktrace s)"
    using assms(2) by auto
  have "registry_inv (call c s)" "devices_of (call c s) = devices_of s"
    using registry_inv_frame [OF irq_invD(2) [OF assms(1)], of "call c s"] len eff by simp_all
  moreover have "heap_inv (call c s)"
    using heap_inv_frame [OF irq_invD(3) [OF assms(1)], of "call c s"] eff by simp
  moreover have "busy_ids (call c s) = busy_ids s" by (simp add: busy_ids_def)
  ultimately show "irq_inv (call c s)" "devices_of (call c s) = devices_of s"
    using assms(1) eff(4) by (simp_all add: irq_inv_def mem_inv_def)
  show "items j (call c s) = items j s"
    by (simp add: items_def ring_of_def)
qed

lemma timer_handler_items:
  assumes inv: "irq_inv s" and i: "i < 8" "busy (slot s i)"
  shows "\<exists>s'. chrdev_timer_handler i s = Inr (HRTIMER_RESTART, s') \<and> irq_inv s' \<and>
     devices_of s' = devices_of s \<and>
     (if length (items i s) = 4095 then items i s' = items i s \<and> gen_d s' = gen_d s
      else items i s' = items i s @ [snd (get_new_char (gen_d s))] \<and> gen_d s' = snd (get_new_char (gen_d s))) \<and>
     (\<forall>j < 8. j \<noteq> i \<longrightarrow> busy (slot s j) \<longrightarrow> items j s' = items j s)"
proof -
  from timer_produce_items [OF assms] obtain t where
    t: "timer_produce i s = Inr t" "irq_inv t" "devices_of t = devices_of s"
      "if length (items i s) = 4095 then t = s
       else items i t = items i s @ [snd (get_new_char (gen_d s))] \<and> gen_d t = snd (get_new_char (gen_d s))"
      "\<forall>j < 8. j \<noteq> i \<longrightarrow> busy (slot s j) \<longrightarrow> items j t = items j s" by blast
  let ?t1 = "call (Wake_Up i) t" let ?t2 = "call (Kill_Fasync i) ?t1"
  let ?t3 = "call (Timer_Forward i (sint (delay_ns t))) ?t2"
  note c1 = irq_inv_calls [OF t(2), of "Wake_Up i" i 0]
  note c2 = irq_inv_calls [OF c1(1), of "Kill_Fasync i" i 0, simplified]
  note c3 = irq_inv_calls [OF c2(1), of "Timer_Forward i (sint (delay_ns t))" i "sint (delay_ns t)", simplified]
  have eq: "chrdev_timer_handler i s = Inr (HRTIMER_RESTART, ?t3)"
    using t(1) by (simp add: chrdev_timer_handler_def)
  have gen: "gen_d ?t3 = gen_d t" by (simp add: call_def)
  have "irq_inv ?t3" "devices_of ?t3 = devices_of s" "items j ?t3 = items j t" for j
    using c1 c2 c3 t(3) by simp_all
  then show ?thesis using eq t(4,5) gen by (auto split: if_splits)
qed

section \<open>The phases of a read\<close>

lemma unat_min_words: "unat (min a b) = min (unat a) (unat (b :: u64))"
  by (simp add: min_def word_le_nat_alt)

text \<open>The clipped count.\<close>

definition clip :: "nat \<Rightarrow> u64 \<Rightarrow> drv_irq \<Rightarrow> u64" where
  "clip i count s = min count (cbuf_count_to_end (head (slot s i)) (tail (slot s i)) BUF_LEN_irq)"

lemma unat_clip:
  "irq_inv s \<Longrightarrow> i < 8 \<Longrightarrow> busy (slot s i) \<Longrightarrow> unat (clip i count s) = min (unat count) (length (items i s))"
  using cq.count [OF irq_ring_ok] by (simp add: clip_def unat_min_words items_def)

lemma read_fetch_peek:
  assumes "irq_inv s" and "i < 8" and "busy (slot s i)"
  shows "read_fetch i count s =
     bindo (ring_peek (clip i count s) (ring_of i s)) (\<lambda>x.
       bindo (mem_write (replicate TMP_LEN 0) 0 x) (\<lambda>tmp. Inr (clip i count s, tmp)))"
proof -
  obtain a b where ab: "bufp (slot s i) = Some a" "heap s a = Some b" "store (ring_of i s) = b"
    by (rule irq_buf [OF assms])
  show ?thesis
  proof (cases "clip i count s = 0")
    case True
    then have "ring_peek (clip i count s) (ring_of i s) = Inr []"
      by (simp add: ring_peek_def mem_read_def)
    with True show ?thesis by (simp add: read_fetch_def Let_def flip: clip_def)
  next
    case False
    then show ?thesis
      using ab by (simp add: read_fetch_def Let_def ring_peek_def load_buf_def flip: clip_def)
  qed
qed

lemma mem_write_start: "mem_write m 0 x = Inr m' \<Longrightarrow> take (length x) m' = x \<and> length x \<le> length m"
  by (auto simp: mem_write_def split: if_splits)

text \<open>A fetch that returns has copied the oldest characters, and one that does not left an array.\<close>

lemma read_fetch_sound:
  assumes "irq_inv s" and "i < 8" and "busy (slot s i)" and "read_fetch i count s = Inr (n, tmp)"
  shows "unat n = min (unat count) (length (items i s))"
    and "take (unat n) tmp = take (unat n) (items i s)" and "unat n \<le> length (items i s)"
proof -
  from assms(4) obtain x where x: "ring_peek (clip i count s) (ring_of i s) = Inr x"
    "mem_write (replicate TMP_LEN 0) 0 x = Inr tmp" and n: "n = clip i count s"
    unfolding read_fetch_peek [OF assms(1-3)] by (auto simp: bindo_Inr_iff)
  show len: "unat n = min (unat count) (length (items i s))"
    unfolding n by (rule unat_clip [OF assms(1-3)])
  then show le: "unat n \<le> length (items i s)" by simp
  have "x = take (unat n) (items i s)"
    using cq.peek_sound [OF irq_ring_ok [OF assms(1-3)] _ x(1)] le by (simp add: n items_def)
  moreover from this have "length x = unat n" using le by simp
  ultimately show "take (unat n) tmp = take (unat n) (items i s)"
    using mem_write_start [OF x(2)] by simp
qed

lemma read_fetch_returns:
  assumes "irq_inv s" and "i < 8" and "busy (slot s i)"
  shows "(\<exists>n tmp. read_fetch i count s = Inr (n, tmp)) \<longleftrightarrow>
     unat (clip i count s) = 0 \<or>
     unat (tail (slot s i)) + unat (clip i count s) \<le> 4096 \<and> unat (clip i count s) \<le> 256"
    and "\<nexists>n tmp. read_fetch i count s = Inr (n, tmp) \<Longrightarrow> read_fetch i count s = Inl OutOfBounds"
proof -
  have len: "length (store (ring_of i s)) = 4096"
    by (rule irq_buf [OF assms]) simp
  show "(\<exists>n tmp. read_fetch i count s = Inr (n, tmp)) \<longleftrightarrow>
     unat (clip i count s) = 0 \<or>
     unat (tail (slot s i)) + unat (clip i count s) \<le> 4096 \<and> unat (clip i count s) \<le> 256"
    using len unfolding read_fetch_peek [OF assms] ring_peek_def mem_read_def mem_write_def TMP_LEN_def
    by (auto split: if_splits)
  show "read_fetch i count s = Inl OutOfBounds" if "\<nexists>n tmp. read_fetch i count s = Inr (n, tmp)"
    using that unfolding read_fetch_peek [OF assms] ring_peek_def mem_read_def mem_write_def
    by (auto split: if_splits)
qed

lemma read_move_items:
  assumes "irq_inv s" and "i < 8" and "busy (slot s i)" and "unat n \<le> length (items i s)"
  shows "irq_inv (read_move i n s)" and "items i (read_move i n s) = drop (unat n) (items i s)"
    and "j < 8 \<Longrightarrow> j \<noteq> i \<Longrightarrow> busy (slot s j) \<Longrightarrow> items j (read_move i n s) = items j s"
    and "devices_of (read_move i n s) = devices_of s" and "gen_d (read_move i n s) = gen_d s"
    and "ktrace (read_move i n s) = ktrace s"
proof -
  obtain a b where ab: "bufp (slot s i) = Some a" "heap s a = Some b" "length b = 4096"
    "store (ring_of i s) = b" by (rule irq_buf [OF assms(1-3)])
  let ?t = "cbuf_pointer_move (tail (slot s i)) n BUF_LEN_irq"
  have d: "ring_ok BUF_LEN_irq (ring_drop BUF_LEN_irq n (ring_of i s))"
    "ring_items BUF_LEN_irq (ring_drop BUF_LEN_irq n (ring_of i s)) = drop (unat n) (items i s)"
    using cq.discard [OF irq_ring_ok [OF assms(1-3)]] assms(4) by (simp_all add: items_def)
  have eq: "ring_drop BUF_LEN_irq n (ring_of i s) = \<lparr>store = b, rhead = head (slot s i), rtail = ?t\<rparr>"
    using ab by (simp add: ring_drop_def ring_of_def)
  have "unat (head (slot s i)) < 4096" "unat ?t < 4096"
    using d(1) by (simp_all add: eq ring_ok_def)
  note q = queue_update [OF assms(1-3) ab(3) this]
  have "(heap s)(a \<mapsto> b) = heap s" using ab(2) by auto
  then have move: "read_move i n s = queue_update i b (head (slot s i)) ?t s"
    using ab(1) by (simp add: read_move_def queue_update_def upd_slot_def slot_def)
  show "irq_inv (read_move i n s)" "devices_of (read_move i n s) = devices_of s"
    unfolding move using q(1,5) by simp_all
  show "items i (read_move i n s) = drop (unat n) (items i s)"
    unfolding move items_def q(2) using d(2) by (simp add: eq items_def)
  show "items j (read_move i n s) = items j s" if "j < 8" "j \<noteq> i" "busy (slot s j)"
    unfolding move by (rule q(3) [OF that])
  show "gen_d (read_move i n s) = gen_d s" "ktrace (read_move i n s) = ktrace s"
    by (simp_all add: read_move_def upd_slot_def)
qed

section \<open>Registration\<close>

lemma busy_ids_dom: "busy_ids s = dom (devices_of s)"
  by (auto simp: busy_ids_def devices_of_def split: if_splits)

lemma register_irq_effect:
  assumes "chrdev_device_register_irq e lbl ident ro owner parent s = Inr (r, s')"
    and "length (chrdev_array s) = 8" and "env_ok e"
  shows "live_timers (ktrace s') =
      (if r = 0 then insert (unat ident) (live_timers (ktrace s)) else live_timers (ktrace s))"
    and "j < 8 \<Longrightarrow> busy (slot s' j) \<Longrightarrow>
      busy (slot s j) \<and> head (slot s' j) = head (slot s j) \<and> tail (slot s' j) = tail (slot s j) \<or>
      head (slot s' j) = 0 \<and> tail (slot s' j) = 0"
  using assms
  by (auto simp: chrdev_device_register_irq_def MAX_DEVICES_le Let_def bindo_Inr_iff kfree_def
      device_create_def env_ok_def split: if_splits option.splits sum.splits)

lemma register_irq_returns:
  assumes inv: "irq_inv s" and lbl: "is_cstr lbl" and env: "mem_env_good e s"
  shows "\<exists>r s'. chrdev_device_register_irq e lbl ident ro owner parent s = Inr (r, s') \<and> irq_inv s' \<and>
           (if r = 0 then unat ident < 8 \<and> devices_of s (unat ident) = None \<and>
               devices_of s' = (devices_of s)(unat ident \<mapsto> label_array lbl)
            else devices_of s' = devices_of s)"
proof -
  from register_mem_returns [OF irq_invD(1) [OF inv] lbl env irq_extras(1,2), of ident ro owner parent]
  obtain r s' where r: "chrdev_device_register_irq e lbl ident ro owner parent s = Inr (r, s')"
    and m: "mem_inv s'"
    and v: "if r = 0 then unat ident < 8 \<and> devices_of s (unat ident) = None \<and>
               devices_of s' = (devices_of s)(unat ident \<mapsto> label_array lbl)
            else devices_of s' = devices_of s"
    unfolding register_irq_eq by blast
  have e: "env_ok e" using env by (simp add: mem_env_good_def)
  note eff = register_irq_effect [OF r irq_invD(4) [OF inv] e]
  have "unat (head (slot s' j)) < 4096 \<and> unat (tail (slot s' j)) < 4096" if "j < 8" "busy (slot s' j)" for j
    using eff(2) [OF that] inv that(1) by (auto simp: irq_inv_def)
  moreover have "live_timers (ktrace s') = busy_ids s'"
    using eff(1) v irq_invD(5) [OF inv] by (auto simp: busy_ids_dom split: if_splits)
  ultimately have "irq_inv s'" using m by (simp add: irq_inv_def)
  with r v show ?thesis by blast
qed

lemma unregister_irq_effect:
  assumes "chrdev_device_unregister_irq lbl ident s = Inr (r, s')"
    and "length (chrdev_array s) = 8"
  shows "live_timers (ktrace s') =
      (if r = 0 then live_timers (ktrace s) - {unat ident} else live_timers (ktrace s))"
    and "j < 8 \<Longrightarrow> head (slot s' j) = head (slot s j) \<and> tail (slot s' j) = tail (slot s j) \<and>
           (busy (slot s' j) \<longrightarrow> busy (slot s j))"
    and "r = 0 \<Longrightarrow> \<exists>rest. ktrace s' = ktrace s @ Timer_Cancel (unat ident) # rest"
  using assms
  by (auto simp: chrdev_device_unregister_irq_def MAX_DEVICES_le Let_def bindo_Inr_iff kfree_def
      split: if_splits option.splits dev_ptr.splits)

lemma unregister_irq_returns:
  assumes inv: "irq_inv s" and lbl: "is_cstr lbl"
    and known: "\<And>l. devices_of s (unat ident) = Some l \<Longrightarrow> is_cstr l"
  shows "\<exists>r s'. chrdev_device_unregister_irq lbl ident s = Inr (r, s') \<and> irq_inv s' \<and>
           (if r = 0 then names (devices_of s) (unat ident) lbl \<and>
                          devices_of s' = (devices_of s)(unat ident := None)
            else \<not> names (devices_of s) (unat ident) lbl \<and> devices_of s' = devices_of s)"
proof -
  from unregister_mem_returns [OF irq_invD(1) [OF inv] lbl irq_extras(3) known]
  obtain r s' where r: "chrdev_device_unregister_irq lbl ident s = Inr (r, s')"
    and m: "mem_inv s'"
    and v: "if r = 0 then names (devices_of s) (unat ident) lbl \<and>
                          devices_of s' = (devices_of s)(unat ident := None)
            else \<not> names (devices_of s) (unat ident) lbl \<and> devices_of s' = devices_of s"
    unfolding unregister_irq_eq by blast
  note eff = unregister_irq_effect [OF r irq_invD(4) [OF inv]]
  have "unat (head (slot s' j)) < 4096 \<and> unat (tail (slot s' j)) < 4096" if "j < 8" "busy (slot s' j)" for j
    using eff(2) [OF that(1)] inv that by (auto simp: irq_inv_def)
  moreover have "live_timers (ktrace s') = busy_ids s'"
    using eff(1) v irq_invD(5) [OF inv] by (auto simp: busy_ids_dom split: if_splits)
  ultimately have "irq_inv s'" using m by (simp add: irq_inv_def)
  with r v show ?thesis by blast
qed

interpretation reg_irq: chrdev_registry chrdev_device_register_irq chrdev_device_unregister_irq irq_inv
  devices_of mem_env_good mem_env_success
proof (unfold_locales, goal_cases)
  case (1 s m e ident ro owner parent)
  then show ?case by (rule register_irq_returns)
next
  case (2 s m e ident ro owner parent)
  from 2(4) obtain a h where e: "kzalloc_ret e = Some a" "cdev_add_ret e = 0" "device_create_ret e = Inr h"
    by (auto simp: mem_env_success_def env_succeeds_def)
  have "\<not> busy (slot s (unat ident))"
    using 2(5,6) by (simp add: devices_of_busy)
  from register_mem_done [OF irq_invD(4) [OF 2(1)] 2(5) this e(1) 2(2) e(2,3)]
  show ?case unfolding register_irq_eq by blast
next
  case (3 s m ident)
  then show ?case by (rule unregister_irq_returns)
qed

section \<open>Concrete state for the witnesses\<close>

lemma irq_inv_start: "irq_inv start_irq"
proof -
  have free: "slot start_irq i = zero_irq" if "i < 8" for i
    using that by (simp add: slot_def start_irq_def)
  have "busy_ids start_irq = {}" "\<not> buf_owner start_irq a i" for a i
    by (auto simp: busy_ids_def buf_owner_def free zero_irq_def)
  then show ?thesis
    by (simp add: irq_inv_def mem_inv_def heap_inv_def registry_inv_def slot_ok_def free)
      (simp add: start_irq_def zero_irq_def)
qed

definition sample_env_irq :: reg_env_mem where
  "sample_env_irq = \<lparr>cdev_add_ret = 0, device_create_ret = Inr 7, kzalloc_ret = Some 100\<rparr>"

text \<open>Device 0 registered as \<open>"a"\<close>: its queue is empty and its timer runs.\<close>

definition sample_irq :: drv_irq where
  "sample_irq = registered_mem reset_queue (\<lambda>i. Some (Timer_Start i)) sample_env_irq (cstr ''a'') 0 0 1 2
     ''a@0'' 100 start_irq"

definition sample_file_irq :: ofile_irq where
  "sample_file_irq = \<lparr>private_data = Some 0, f_pos = 0, f_flags = 0\<rparr>"

lemma sample_irq_registered:
  "\<exists>name. chrdev_device_register_irq sample_env_irq (cstr ''a'') 0 0 1 2 start_irq =
     Inr (0, registered_mem reset_queue (\<lambda>i. Some (Timer_Start i)) sample_env_irq (cstr ''a'') 0 0 1 2
               name 100 start_irq)"
  unfolding register_irq_eq
  by (rule register_mem_done) (simp_all add: sample_env_irq_def start_irq_def slot_def zero_irq_def)

lemma sample_irq_simps:
  "irq_inv sample_irq" "busy (slot sample_irq 0)" "items 0 sample_irq = []"
  "head (slot sample_irq 0) = 0" "tail (slot sample_irq 0) = 0" "gen_d sample_irq = 64"
  "busy_ids sample_irq = {0}"
proof -
  have len: "length (chrdev_array start_irq) = 8" by (simp add: start_irq_def)
  have free: "\<not> busy (slot start_irq i)" if "i < 8" for i
    using that by (simp add: slot_def start_irq_def zero_irq_def)
  have s: "slot sample_irq 0 = reset_queue ((slot start_irq 0)\<lparr>bufp := Some 100, dev := Dev 7 (MKDEV 0 0),
      devid := 0, read_only := 0, busy := True, label := label_array (cstr ''a'')\<rparr>)"
    using len by (simp add: sample_irq_def registered_mem_def Let_def opt_call_def sample_env_irq_def
        device_create_def) (simp add: start_irq_def)
  have others: "slot sample_irq i = slot start_irq i" if "i < 8" "i \<noteq> 0" for i
    using len that by (simp add: sample_irq_def registered_mem_def Let_def opt_call_def)
  show b: "busy (slot sample_irq 0)" and h: "head (slot sample_irq 0) = 0" and t: "tail (slot sample_irq 0) = 0"
    by (simp_all add: s reset_queue_def)
  have only: "i = 0" if "i < 8" "busy (slot sample_irq i)" for i
    using others [OF that(1)] free [OF that(1)] that(2) by (cases "i = 0") simp_all
  show ids: "busy_ids sample_irq = {0}"
    using b only by (auto simp: busy_ids_def)
  have m: "mem_inv sample_irq"
    unfolding sample_irq_def
    by (rule registered_mem_inv(1) [OF irq_invD(1) [OF irq_inv_start] _ _ _ _ irq_extras(1,2), of _ _ _ 7])
      (simp_all add: sample_env_irq_def, simp_all add: start_irq_def zero_irq_def slot_def)
  have "live_timers (ktrace sample_irq) = {0}"
    by (simp add: sample_irq_def registered_mem_def Let_def opt_call_def) (simp add: start_irq_def)
  moreover have "unat (head (slot sample_irq i)) < 4096 \<and> unat (tail (slot sample_irq i)) < 4096"
    if "i < 8" "busy (slot sample_irq i)" for i
    using only [OF that] h t by simp
  ultimately show inv: "irq_inv sample_irq"
    using m ids by (simp add: irq_inv_def)
  show "items 0 sample_irq = []"
    using empty_irq_items [OF inv _ b] h t by (simp add: empty_irq_def cbuf_is_empty_def)
  show "gen_d sample_irq = 64"
    by (simp add: sample_irq_def registered_mem_def Let_def opt_call_def call_def upd_slot_def start_irq_def)
qed

section \<open>Properties\<close>

text \<open>The timer handler of a registered device never faults and always asks to be restarted; it
  appends exactly one character, the successor in the alphabet of the last one generated, unless the
  queue holds 4095 characters: then nothing is stored and the generator does not advance, so no
  character is lost. No other device's queue is touched.\<close>

lemma irq_handler_appends:
  assumes "irq_inv s" and "i < 8" and "busy (slot s i)"
  shows "\<exists>s'. chrdev_timer_handler i s = Inr (HRTIMER_RESTART, s') \<and> irq_inv s' \<and>
     items i s' = items i s @ (if length (items i s) = 4095 then []
                               else [if gen_d s = 90 then 65 else gen_d s + 1]) \<and>
     gen_d s' = last (gen_d s # drop (length (items i s)) (items i s')) \<and>
     (\<forall>j < 8. j \<noteq> i \<longrightarrow> busy (slot s j) \<longrightarrow> items j s' = items j s)"
proof -
  have "gen_d s + 1 = 91 \<longleftrightarrow> gen_d s = 90"
    using add_right_cancel [of "gen_d s" 1 90] by simp
  then have "snd (get_new_char (gen_d s)) = (if gen_d s = 90 then 65 else gen_d s + 1)"
    by (simp add: get_new_char_def Let_def)
  with timer_handler_items [OF assms] show ?thesis
    by (auto split: if_splits)
qed

lemma irq_handler_appends_witness:
  "\<exists>s'. chrdev_timer_handler 0 sample_irq = Inr (HRTIMER_RESTART, s') \<and> items 0 s' = [65] \<and> gen_d s' = 65"
  using irq_handler_appends [OF sample_irq_simps(1) _ sample_irq_simps(2)]
  by (auto simp: sample_irq_simps)

text \<open>A read that stays inside both arrays.\<close>

lemma read_irq_result:
  assumes "irq_inv s" and "private_data filp = Some i" and "i < 8" and "busy (slot s i)"
    and "items i s \<noteq> []" and "n = min (unat count) (length (items i s))"
    and "unat (tail (slot s i)) + n \<le> 4096 \<and> n \<le> 256 \<or> n \<le> 1"
    and "copy_ok f"
  shows "\<exists>s'. chrdev_read_irq f sig s filp count =
       Inr (Returns (of_nat n) (take (n - unat (f (of_nat n))) (items i s)) s') \<and> irq_inv s' \<and>
     items i s' = drop n (items i s)"
proof -
  have c: "unat (clip i count s) = n"
    using unat_clip [OF assms(1,3,4)] assms(6) by simp
  have "unat (tail (slot s i)) < 4096"
    using assms(1,3,4) by (simp add: irq_inv_def)
  then have "unat (tail (slot s i)) + n \<le> 4096 \<and> n \<le> 256"
    using assms(7) by auto
  then have small: "n \<le> 256" by simp
  obtain m tmp where f: "read_fetch i count s = Inr (m, tmp)"
    using read_fetch_returns(1) [OF assms(1,3,4), of count] c \<open>_ \<and> n \<le> 256\<close> by metis
  note r = read_fetch_sound [OF assms(1,3,4) f]
  have m: "unat m = n" using r(1) assms(6) by simp
  then have mw: "m = of_nat n" by auto
  have left: "unat (f m) \<le> n"
    using assms(8) m by (metis copy_ok_def word_le_nat_alt)
  have "take (n - unat (f m)) tmp = take (n - unat (f m)) (take n tmp)"
    by simp
  also have "\<dots> = take (n - unat (f m)) (items i s)"
    using r(2) m by (simp only: take_take) simp
  finally have "read_copy f m tmp = (take (n - unat (f m)) (items i s), False)"
    using left small m not_negative_small [of "f m"] by (simp add: read_copy_def)
  with mw have "read_copy f m tmp = (take (n - unat (f (of_nat n))) (items i s), False)" by simp
  moreover have "\<not> empty_irq i s"
    using empty_irq_items [OF assms(1,3,4)] assms(5) by simp
  ultimately have "chrdev_read_irq f sig s filp count =
      Inr (Returns (of_nat n) (take (n - unat (f (of_nat n))) (items i s)) (read_move i m s))"
    using f mw assms(2) by (simp add: chrdev_read_irq_def)
  with read_move_items(1,2) [OF assms(1,3,4) r(3)] m show ?thesis by auto
qed

text \<open>A read on a device with data takes the oldest characters off the queue, at most \<open>count\<close> of
  them, and hands them to the user in order, provided they do not run over the end of the page and are
  at most 256; a one-character read always satisfies this. If only part could be copied to the user,
  the read still reports all of them and the rest is lost.\<close>

lemma read_irq_takes_oldest:
  assumes "irq_inv s" and "private_data filp = Some i" and "i < 8" and "busy (slot s i)"
    and "items i s \<noteq> []" and "n = min (unat count) (length (items i s))"
    and "unat (tail (slot s i)) + n \<le> 4096 \<and> n \<le> 256 \<or> n \<le> 1"
    and "copy_ok f"
  shows "\<exists>s'. chrdev_read_irq f sig s filp count =
       Inr (Returns (of_nat n) (take (n - unat (f (of_nat n))) (items i s)) s') \<and> irq_inv s' \<and>
     items i s' = drop n (items i s)"
  using assms by (rule read_irq_result)

lemma read_irq_takes_oldest_witness:
  "\<exists>s1 s2. chrdev_timer_handler 0 sample_irq = Inr (HRTIMER_RESTART, s1) \<and>
     chrdev_read_irq (\<lambda>_. 0) False s1 sample_file_irq 10 = Inr (Returns 1 [65] s2) \<and> items 0 s2 = []"
proof -
  from timer_handler_items [OF sample_irq_simps(1) _ sample_irq_simps(2)] obtain s1 where
    s1: "chrdev_timer_handler 0 sample_irq = Inr (HRTIMER_RESTART, s1)" "irq_inv s1"
      "devices_of s1 = devices_of sample_irq" "items 0 s1 = [65]"
    by (auto simp: sample_irq_simps get_new_char_def)
  have b: "busy (slot s1 0)"
    using s1(3) sample_irq_simps(2) by (metis devices_of_busy zero_less_numeral)
  have "\<exists>s'. chrdev_read_irq (\<lambda>_. 0) False s1 sample_file_irq 10 =
       Inr (Returns (of_nat 1) (take (1 - unat ((\<lambda>_. 0) (of_nat 1) :: u64)) (items 0 s1)) s') \<and> irq_inv s' \<and> items 0 s' = drop 1 (items 0 s1)"
    by (rule read_irq_takes_oldest [OF s1(2) _ _ b]) (simp_all add: s1(4) sample_file_irq_def copy_ok_def)
  with s1 show ?thesis by auto
qed

text \<open>C25: a read of characters that run over the end of the page, or of more than 256 characters, does
  not stop at the boundary: the copy to \<open>tmp\<close> leaves the page, or \<open>tmp\<close> itself.\<close>

theorem read_irq_overruns:
  assumes "irq_inv s" and "private_data filp = Some i" and "i < 8" and "busy (slot s i)"
    and "items i s \<noteq> []" and "n = min (unat count) (length (items i s))"
    and "n \<noteq> 0" and "4096 < unat (tail (slot s i)) + n \<or> 256 < n"
  shows "chrdev_read_irq f sig s filp count = Inl OutOfBounds"
proof -
  have "unat (clip i count s) = n"
    using unat_clip [OF assms(1,3,4)] assms(6) by simp
  then have "read_fetch i count s = Inl OutOfBounds"
    using read_fetch_returns [OF assms(1,3,4), of count] assms(7,8) by auto
  moreover have "\<not> empty_irq i s"
    using empty_irq_items [OF assms(1,3,4)] assms(5) by simp
  ultimately show ?thesis
    using assms(2) by (simp add: chrdev_read_irq_def)
qed

theorem read_irq_overruns_witness:
  "chrdev_read_irq (\<lambda>_. 0) False (queue_update 0 (replicate 4096 65) 2 4095 sample_irq) sample_file_irq 3 =
     Inl OutOfBounds"
proof -
  let ?s = "queue_update 0 (replicate 4096 65) 2 4095 sample_irq"
  have i: "(0 :: nat) < 8" by simp
  have u: "unat (2 :: u64) < 4096" "unat (4095 :: u64) < 4096" "length (replicate 4096 (65 :: byte)) = 4096"
    by simp_all
  note q = queue_update [OF sample_irq_simps(1) i sample_irq_simps(2) u(3,1,2)]
  have b: "busy (slot ?s 0)" using q(4) [OF i] sample_irq_simps(2) by simp
  have len: "length (items 0 ?s) = 3"
    unfolding items_def q(2) by (simp add: ring_count_def)
  have tl: "tail (slot ?s 0) = 4095"
    using arg_cong [OF q(2), of rtail] by simp
  show ?thesis
    by (rule read_irq_overruns [OF q(1) _ i b _ refl]) (use len tl in \<open>auto simp: sample_file_irq_def\<close>)
qed

text \<open>A non-blocking read of an empty queue returns the requested count as if everything had been
  read, without delivering a byte; \<open>-EAGAIN\<close> never reaches the caller.\<close>

lemma read_irq_nonblock_empty:
  assumes "private_data filp = Some i" and "and (f_flags filp) O_NONBLOCK \<noteq> 0"
    and "head (slot s i) = tail (slot s i)"
  shows "chrdev_read_irq f sig s filp count = Inr (Returns count [] s)"
  using assms by (simp add: chrdev_read_irq_def empty_irq_def cbuf_is_empty_def)

lemma read_irq_nonblock_empty_witness:
  "chrdev_read_irq (\<lambda>_. 0) False sample_irq (sample_file_irq\<lparr>f_flags := 0x800\<rparr>) 100 =
     Inr (Returns 100 [] sample_irq)"
  by (rule read_irq_nonblock_empty [of _ 0])
    (simp_all add: sample_file_irq_def O_NONBLOCK_def sample_irq_simps)

text \<open>C12: in every state that registrations and unregistrations lead to, the armed timers are those of
  the registered devices, and when any of them expires its handler runs without a fault: no timer
  outlives the page it writes to, because unregistering cancels it first.\<close>

theorem irq_timers_safe:
  assumes "reg_reach chrdev_device_register_irq chrdev_device_unregister_irq mem_env_good start_irq s"
  shows "live_timers (ktrace s) = {i. i < 8 \<and> busy (slot s i)} \<and>
     (\<forall>i \<in> live_timers (ktrace s). \<exists>s'. chrdev_timer_handler i s = Inr (HRTIMER_RESTART, s')) \<and>
     (\<forall>lbl ident s'. chrdev_device_unregister_irq lbl ident s = Inr (0, s') \<longrightarrow>
        (\<exists>rest. ktrace s' = ktrace s @ Timer_Cancel (unat ident) # rest \<and>
                unat ident \<notin> live_timers (ktrace s')))"
proof -
  have "devices_of start_irq i = None" for i
    by (simp add: devices_of_def start_irq_def slot_def zero_irq_def)
  with reg_irq.reach_inv [OF assms irq_inv_start] have inv: "irq_inv s" by simp
  have ids: "live_timers (ktrace s) = {i. i < 8 \<and> busy (slot s i)}"
    using irq_invD(5) [OF inv] by (simp add: busy_ids_def)
  moreover have "\<exists>s'. chrdev_timer_handler i s = Inr (HRTIMER_RESTART, s')"
    if "i \<in> live_timers (ktrace s)" for i
    using timer_handler_items [OF inv, of i] that ids by blast
  moreover have "(\<exists>rest. ktrace s' = ktrace s @ Timer_Cancel (unat ident) # rest) \<and>
      unat ident \<notin> live_timers (ktrace s')"
    if "chrdev_device_unregister_irq lbl ident s = Inr (0, s')" for lbl ident s'
    using unregister_irq_effect(1,3) [OF that irq_invD(4) [OF inv]] by auto
  ultimately show ?thesis by blast
qed

theorem irq_timers_safe_witness:
  "\<exists>s. chrdev_device_register_irq sample_env_irq (cstr ''a'') 0 0 1 2 start_irq = Inr (0, s) \<and>
     (\<forall>i \<in> live_timers (ktrace s). \<exists>s'. chrdev_timer_handler i s = Inr (HRTIMER_RESTART, s'))"
proof -
  obtain s where s: "chrdev_device_register_irq sample_env_irq (cstr ''a'') 0 0 1 2 start_irq = Inr (0, s)"
    using sample_irq_registered by blast
  have "reg_reach chrdev_device_register_irq chrdev_device_unregister_irq mem_env_good start_irq s"
    by (rule reach_register [where reg = chrdev_device_register_irq and e = sample_env_irq and
          m = "cstr ''a''" and ident = 0 and ro = 0 and owner = 1 and parent = 2 and s = start_irq,
          OF _ _ _ _ s])
      (simp_all add: reach_start str_of_cstr NUL_def mem_env_good_def env_ok_def sample_env_irq_def start_irq_def)
  from irq_timers_safe [OF this] s show ?thesis by blast
qed

end
