(* ===== verification/Modules.thy ===== *)
theory Modules
  imports Prelude
begin

text \<open>
  Small modules: \<^verbatim>\<open>Chapter05/notifier/notifier.c\<close> (two notifiers registered together),
  \<^verbatim>\<open>Chapter03/chrdev_legacy/chrdev_legacy.c\<close> (a device without a buffer) and
  \<^verbatim>\<open>Chapter06/helper_funcs/helper_funcs.c\<close> (a string parameter copied to an array).
\<close>

section \<open>notifier.c\<close>

datatype notifier = Netdevice_Nb | Reboot_Nb

record notifier_sys =
  registered :: "(notifier \<times> s32) list"    \<comment> \<open>with the priority\<close>
  ndata :: u32

definition NOTIFY_DONE :: s32 where "NOTIFY_DONE = 0"

definition netdevice_notifier :: "u64 \<Rightarrow> notifier_sys \<Rightarrow> s32 \<times> notifier_sys" where
  "netdevice_notifier code s = (NOTIFY_DONE, s\<lparr>ndata := ndata s + 1\<rparr>)"

definition reboot_notifier :: "u64 \<Rightarrow> notifier_sys \<Rightarrow> s32 \<times> notifier_sys" where
  "reboot_notifier code s = (NOTIFY_DONE, s\<lparr>ndata := ndata s + 1\<rparr>)"

text \<open>
  The kernel's answers to the two registrations are the arguments; one that answers 0 holds
  the notifier until it is unregistered.
\<close>

definition nb_register :: "notifier \<Rightarrow> s32 \<Rightarrow> s32 \<Rightarrow> notifier_sys \<Rightarrow> notifier_sys" where
  "nb_register nb prio ret s = (if ret = 0 then s\<lparr>registered := registered s @ [(nb, prio)]\<rparr> else s)"

definition nb_unregister :: "notifier \<Rightarrow> notifier_sys \<Rightarrow> notifier_sys" where
  "nb_unregister nb s = s\<lparr>registered := filter (\<lambda>(n, p). n \<noteq> nb) (registered s)\<rparr>"

definition notifier_init :: "s32 \<Rightarrow> s32 \<Rightarrow> notifier_sys \<Rightarrow> s32 \<times> notifier_sys" where
  "notifier_init net_ret reboot_ret s =
     (let ret = net_ret; s = nb_register Netdevice_Nb 10 ret s
      in if ret \<noteq> 0 then (ret, s)
      else
        let ret = reboot_ret; s = nb_register Reboot_Nb 10 ret s
        in if ret \<noteq> 0 then (ret, nb_unregister Netdevice_Nb s) else (0, s))"

definition notifier_exit :: "notifier_sys \<Rightarrow> notifier_sys" where
  "notifier_exit s = nb_unregister Reboot_Nb (nb_unregister Netdevice_Nb s)"

section \<open>chrdev_legacy.c\<close>

definition legacy_read :: "u64 \<Rightarrow> s64 \<Rightarrow> s64 \<times> s64" where
  "legacy_read count ppos = (0, ppos)"

definition legacy_write :: "u64 \<Rightarrow> s64 \<Rightarrow> s64 \<times> s64" where
  "legacy_write count ppos = (count, ppos + count)"

definition legacy_open :: s32 where "legacy_open = 0"

definition legacy_release :: s32 where "legacy_release = 0"

text \<open>\<open>register_chrdev(0, ...)\<close> answers an error or the major number it chose.\<close>

record legacy_sys =
  major :: s32
  majors_held :: "s32 list"

definition legacy_init :: "s32 \<Rightarrow> legacy_sys \<Rightarrow> s32 \<times> legacy_sys" where
  "legacy_init ret s =
     (let s = (if negative ret then s else s\<lparr>majors_held := ret # majors_held s\<rparr>)
      in if negative ret then (ret, s) else (0, s\<lparr>major := ret\<rparr>))"

definition legacy_exit :: "legacy_sys \<Rightarrow> legacy_sys" where
  "legacy_exit s = s\<lparr>majors_held := remove1 (major s) (majors_held s)\<rparr>"

lemma legacy_balance:
  "snd (legacy_init ret s) = t \<Longrightarrow>
   (if negative ret then majors_held t else majors_held (legacy_exit t)) = majors_held s"
  by (auto simp: legacy_init_def legacy_exit_def Let_def)

section \<open>helper_funcs.c\<close>

definition STR2_LEN :: nat where "STR2_LEN = 32"

text \<open>The result, and the strings and lengths printed; \<open>%s\<close> and \<open>strlen\<close> read up to the terminator.\<close>

definition helper_funcs_init :: "char list \<Rightarrow> fault + (s32 \<times> (string \<times> nat) list)" where
  "helper_funcs_init str =
     bindo (strlen str) (\<lambda>n1.
     bindo (strncpy str STR2_LEN) (\<lambda>str2.
     bindo (strlen str2) (\<lambda>n2.
       Inr (- EINVAL, [(str_of str, n1), (str_of str2, n2)]))))"

definition helper_funcs_str :: "char list" where
  "helper_funcs_str = cstr ''default string''"

definition helper_funcs_exit :: "string list" where
  "helper_funcs_exit = [''unloaded'' @ [CHR 0x0A]]"

lemma strlen_unterminated: "\<not> is_cstr m \<Longrightarrow> strlen m = Inl OutOfBounds"
  by (induction m) (auto simp: is_cstr_def)

section \<open>Properties\<close>

text \<open>Loading \<^verbatim>\<open>notifier.c\<close> registers both notifiers, with priority 10, or none, whichever of the two
  registrations fails, and answers that registration's error; unloading takes both away.\<close>

lemma notifier_both_or_none:
  assumes "registered s = []" and "notifier_init net_ret reboot_ret s = (r, t)"
  shows "r = (if net_ret \<noteq> 0 then net_ret else reboot_ret) \<and>
     registered t = (if r = 0 then [(Netdevice_Nb, 10), (Reboot_Nb, 10)] else []) \<and>
     registered (notifier_exit t) = []"
  using assms
  by (auto simp: notifier_init_def notifier_exit_def nb_register_def nb_unregister_def Let_def
      split: if_splits)

text \<open>A string parameter of fewer than 32 characters is copied whole and both lengths agree; one of 32
  or more leaves the copy without a terminator, and printing it reads past the array.\<close>

lemma helper_funcs_truncation:
  assumes "is_cstr str"
  shows "helper_funcs_init str =
     (if length (str_of str) < 32
      then Inr (- EINVAL, [(str_of str, length (str_of str)), (str_of str, length (str_of str))])
      else Inl OutOfBounds)"
proof -
  let ?s = "str_of str" and ?c = "take 32 (str_of str) @ replicate (32 - length (str_of str)) NUL"
  have copy: "strncpy str 32 = Inr ?c"
    using assms by (rule strncpy_cstr)
  show ?thesis
  proof (cases "length ?s < 32")
    case True
    then obtain k where k: "32 - length ?s = Suc k" by (metis Suc_diff_Suc)
    with True have c: "?c = ?s @ NUL # replicate k NUL" by simp
    have "str_of ?c = ?s" and "is_cstr ?c"
      unfolding c by (simp_all add: str_of_append_NUL is_cstr_def)
    with True assms copy show ?thesis
      by (simp add: helper_funcs_init_def strlen_cstr STR2_LEN_def del: append_take_drop_id)
  next
    case False
    then have "\<not> is_cstr ?c"
      using NUL_notin_str_of [of str] by (auto simp: is_cstr_def dest: in_set_takeD)
    with False assms copy show ?thesis
      by (simp add: helper_funcs_init_def strlen_cstr STR2_LEN_def strlen_unterminated)
  qed
qed

lemma helper_funcs_truncation_witness:
  "helper_funcs_init (cstr (replicate 40 (CHR ''x''))) = Inl OutOfBounds"
proof -
  have "str_of (cstr (replicate 40 (CHR ''x''))) = replicate 40 (CHR ''x'')"
    by (rule str_of_cstr) (simp add: NUL_def)
  then show ?thesis
    using helper_funcs_truncation [OF is_cstr_cstr, of "replicate 40 (CHR ''x'')"] by simp
qed

end
