(* ===== verification/Fops.thy ===== *)
theory Fops
  imports File_Refine Chrdev_Irq Modules
begin

text \<open>
  The tables \<^verbatim>\<open>chrdev_fops\<close> of the four character drivers: which function of the driver answers
  which system call, and which module the table belongs to. The kernel calls through the table;
  what it does where an entry is missing is its own affair and an argument here. The lemmas show
  that the tables connect the calls of an open file to the methods the other theories study.
\<close>

section \<open>The structure\<close>

text \<open>
  A null entry is \<open>None\<close>. The types of \<open>read\<close> and \<open>fasync\<close> are the driver's: the timer-fed
  device may put the reader to sleep.
\<close>

record ('r, 'k, 'f, 'a) file_operations =
  fop_owner :: "nat option"
  fop_llseek :: "('f \<Rightarrow> s64 \<Rightarrow> s32 \<Rightarrow> s64 \<times> 'f) option"
  fop_read :: "'r option"
  fop_write :: "(copy_fun \<Rightarrow> byte list \<Rightarrow> 'k \<Rightarrow> 'f \<Rightarrow> u64 \<Rightarrow> s64 \<Rightarrow> fault + (s64 \<times> s64 \<times> 'k)) option"
  fop_poll :: "('k \<Rightarrow> 'f \<Rightarrow> fault + u32) option"
  fop_unlocked_ioctl :: "(copy_fun \<Rightarrow> s32 option \<Rightarrow> 'k \<Rightarrow> 'f \<Rightarrow> u32 \<Rightarrow> fault + (s64 \<times> byte list \<times> 'k)) option"
  fop_mmap :: "((nat option \<Rightarrow> u64) \<Rightarrow> s32 \<Rightarrow> 'k \<Rightarrow> 'f \<Rightarrow> vm_area \<Rightarrow> fault + (s32 \<times> 'k)) option"
  fop_open :: "(nat \<Rightarrow> 'f \<Rightarrow> 'k \<Rightarrow> fault + (s32 \<times> 'f \<times> 'k)) option"
  fop_release :: "(nat \<Rightarrow> 'f \<Rightarrow> 'k \<Rightarrow> fault + (s32 \<times> 'f \<times> 'k)) option"
  fop_fasync :: "'a option"

definition no_fops :: "('r, 'k, 'f, 'a) file_operations" where
  "no_fops = \<lparr>fop_owner = None, fop_llseek = None, fop_read = None, fop_write = None, fop_poll = None,
     fop_unlocked_ioctl = None, fop_mmap = None, fop_open = None, fop_release = None, fop_fasync = None\<rparr>"

type_synonym ('k, 'f) read_at =
  "copy_fun \<Rightarrow> 'k \<Rightarrow> 'f \<Rightarrow> u64 \<Rightarrow> s64 \<Rightarrow> fault + (s64 \<times> s64 \<times> byte list)"

section \<open>The four tables\<close>

text \<open>\<open>THIS_MODULE\<close> is the number of the module the table is in.\<close>

definition chrdev_fops3 :: "nat \<Rightarrow> ((legacy_sys, ofile) read_at, legacy_sys, ofile, unit) file_operations" where
  "chrdev_fops3 this_module = no_fops
     \<lparr>fop_owner := Some this_module,
      fop_read := Some (\<lambda>f s filp count ppos. let (r, pos) = legacy_read count ppos in Inr (r, pos, [])),
      fop_write := Some (\<lambda>f usr s filp count ppos. let (r, pos) = legacy_write count ppos in Inr (r, pos, s)),
      fop_open := Some (\<lambda>i filp s. Inr (legacy_open, filp, s)),
      fop_release := Some (\<lambda>i filp s. Inr (legacy_release, filp, s))\<rparr>"

definition chrdev_fops4 :: "nat \<Rightarrow> ((drv4, ofile) read_at, drv4, ofile, unit) file_operations" where
  "chrdev_fops4 this_module = no_fops
     \<lparr>fop_owner := Some this_module,
      fop_read := Some chrdev_read4,
      fop_write := Some chrdev_write4,
      fop_open := Some chrdev_open4,
      fop_release := Some chrdev_release4\<rparr>"

definition chrdev_fops7 :: "nat \<Rightarrow> ((drv7, ofile) read_at, drv7, ofile, unit) file_operations" where
  "chrdev_fops7 this_module = no_fops
     \<lparr>fop_owner := Some this_module,
      fop_mmap := Some chrdev_mmap,
      fop_unlocked_ioctl := Some chrdev_ioctl,
      fop_llseek := Some chrdev_llseek,
      fop_read := Some chrdev_read7,
      fop_write := Some chrdev_write7,
      fop_open := Some chrdev_open7,
      fop_release := Some chrdev_release7\<rparr>"

text \<open>\<open>no_llseek()\<close> and \<open>fasync_helper()\<close> are the kernel's.\<close>

definition chrdev_fops_irq ::
  "(ofile_irq \<Rightarrow> s64 \<Rightarrow> s32 \<Rightarrow> s64 \<times> ofile_irq) \<Rightarrow>
   (s32 \<Rightarrow> ofile_irq \<Rightarrow> s32 \<Rightarrow> s32 list \<Rightarrow> s32 \<times> s32 list) \<Rightarrow> nat \<Rightarrow>
   (copy_fun \<Rightarrow> bool \<Rightarrow> drv_irq \<Rightarrow> ofile_irq \<Rightarrow> u64 \<Rightarrow> fault + read_result, drv_irq, ofile_irq,
    s32 \<Rightarrow> ofile_irq \<Rightarrow> s32 \<Rightarrow> drv_irq \<Rightarrow> fault + (s32 \<times> drv_irq)) file_operations" where
  "chrdev_fops_irq no_llseek fasync_helper this_module = no_fops
     \<lparr>fop_owner := Some this_module,
      fop_fasync := Some (chrdev_fasync fasync_helper),
      fop_poll := Some chrdev_poll,
      fop_llseek := Some no_llseek,
      fop_read := Some chrdev_read_irq,
      fop_open := Some chrdev_open_irq,
      fop_release := Some chrdev_release_irq\<rparr>"

lemmas fops_defs = chrdev_fops3_def chrdev_fops4_def chrdev_fops7_def chrdev_fops_irq_def no_fops_def

section \<open>Calls through a table\<close>

text \<open>
  Reading, writing and seeking on an open file at its position; \<open>absent\<close> is what the kernel
  answers to a call without a method, which leaves the file as it is.
\<close>

definition through :: "'m option \<Rightarrow> ('m \<Rightarrow> fault + 'a) \<Rightarrow> 'a \<Rightarrow> fault + 'a" where
  "through m f a = (case m of None \<Rightarrow> Inr a | Some g \<Rightarrow> f g)"

lemma through_simps [simp]: "through None f a = Inr a" "through (Some g) f a = f g"
  by (simp_all add: through_def)

fun fops_call ::
  "(io_call \<Rightarrow> s64) \<Rightarrow> (('k, 'r ofile_scheme) read_at, 'k, 'r ofile_scheme, 'a) file_operations \<Rightarrow> io_call \<Rightarrow>
   ('k \<times> 'r ofile_scheme) \<times> s64 \<Rightarrow> fault + (io_answer \<times> ('k \<times> 'r ofile_scheme) \<times> s64)" where
  "fops_call absent ops (Read f n) ((k, filp), pos) =
     through (fop_read ops)
       (\<lambda>rd. bindo (rd f k filp n pos) (\<lambda>(r, pos', out). Inr ((r, out), (k, filp), pos')))
       ((absent (Read f n), []), (k, filp), pos)"
| "fops_call absent ops (Write f usr n) ((k, filp), pos) =
     through (fop_write ops)
       (\<lambda>wr. bindo (wr f usr k filp n pos) (\<lambda>(r, pos', k'). Inr ((r, []), (k', filp), pos')))
       ((absent (Write f usr n), []), (k, filp), pos)"
| "fops_call absent ops (Seek off whence) ((k, filp), pos) =
     through (fop_llseek ops)
       (\<lambda>sk. let (r, filp') = sk (filp\<lparr>f_pos := pos\<rparr>) off whence in Inr ((r, []), (k, filp), f_pos filp'))
       ((absent (Seek off whence), []), (k, filp), pos)"

lemma bindo_map_sum: "bindo (map_sum id f m) g = bindo m (\<lambda>x. g (f x))"
  by (cases m) simp_all

lemma fops7_call: "fops_call absent (chrdev_fops7 m) c t = dev_call rd7 wr7 sk7 c t"
proof (cases t)
  case (Pair s pos)
  then show ?thesis
    by (cases s; cases c) (simp_all add: fops_defs bindo_map_sum case_prod_unfold Let_def)
qed

text \<open>The driver of chapter 4 has no \<open>llseek\<close>: the answer is the kernel's, and the file stays where it is.\<close>

lemma fops4_call:
  "fops_call absent (chrdev_fops4 m) c t =
   dev_call rd4 wr4 (\<lambda>s pos off whence. (absent (Seek off whence), pos)) c t"
proof (cases t)
  case (Pair s pos)
  then show ?thesis
    by (cases s; cases c) (simp_all add: fops_defs bindo_map_sum case_prod_unfold Let_def)
qed

text \<open>The legacy device takes whatever is written, and is always at its end.\<close>

lemma fops3_call:
  "fops_call absent (chrdev_fops3 m) (Read f n) ((k, filp), pos) = Inr ((0, []), (k, filp), pos)"
  "fops_call absent (chrdev_fops3 m) (Write f usr n) ((k, filp), pos) = Inr ((n, []), (k, filp), pos + n)"
  by (simp_all add: fops_defs legacy_read_def legacy_write_def)

end
