(* ===== verification/Module_Life.thy ===== *)
theory Module_Life
  imports Chrdev7_System Fops Platform
begin

text \<open>
  The two modules of chapter 7 in a running system: \<^verbatim>\<open>chrdev.ko\<close>, which holds the devices, and
  \<^verbatim>\<open>chrdev-req.ko\<close>, which registers and unregisters them for the device tree. Modules are loaded and
  unloaded, platform devices bound and unbound, and programs open and use the devices, in any
  order. The kernel counts references to modules: an open file holds one on the owner of its
  \<open>cdev\<close>, which is the module that registered the device, and one on the owner of its table of
  methods; a module with references, or with another module linked to it, cannot be unloaded. That
  is what keeps an open device registered; unbinding it through \<open>sysfs\<close> asks no module.
\<close>

section \<open>States\<close>

definition chrdev_ko :: nat where "chrdev_ko = 1"
definition chrdev_req_ko :: nat where "chrdev_req_ko = 2"

record host7 =
  hsys :: sys7
  core_in :: bool                   \<comment> \<open>\<open>chrdev.ko\<close> is loaded\<close>
  bus :: "nat list option"          \<comment> \<open>\<open>chrdev-req.ko\<close> is loaded, with these devices bound\<close>
  refs :: "nat \<Rightarrow> int"               \<comment> \<open>references to each module\<close>

definition host_start :: host7 where
  "host_start = \<lparr>hsys = boot7 start7, core_in = False, bus = None, refs = \<lambda>_. 0\<rparr>"

text \<open>The owner of a \<open>cdev\<close> is the one of its last initialisation.\<close>

fun owner_effect :: "kcall \<Rightarrow> (nat \<Rightarrow> nat option) \<Rightarrow> nat \<Rightarrow> nat option" where
  "owner_effect (Cdev_Init i owner) m = m(i \<mapsto> owner)"
| "owner_effect _ m = m"

definition cdev_owner :: "kcall list \<Rightarrow> nat \<Rightarrow> nat option" where
  "cdev_owner t = fold owner_effect t (\<lambda>_. None)"

lemma cdev_owner_append [simp]: "cdev_owner (t @ cs) = fold owner_effect cs (cdev_owner t)"
  by (simp add: cdev_owner_def)

section \<open>System calls\<close>

text \<open>
  The kernel reaches the driver through its table. An open of a used descriptor or of a number
  without a \<open>cdev\<close>, and a call on an unused descriptor, it answers itself.
\<close>

fun is_syscall :: "op7 \<Rightarrow> bool" where
  "is_syscall (Register7 e lbl ident ro owner parent) = False"
| "is_syscall (Unregister7 lbl ident) = False"
| "is_syscall _ = True"

record absent7 =
  absent_io :: "io_call \<Rightarrow> s64"
  absent_ioctl :: s64
  absent_mmap :: s32

fun syscall7 ::
  "absent7 \<Rightarrow> ((drv7, ofile) read_at, drv7, ofile, unit) file_operations \<Rightarrow> op7 \<Rightarrow> sys7 \<Rightarrow>
   fault + (io_answer \<times> sys7)" where
  "syscall7 ab ops (Open7 fd i) y =
     (if fds7 y fd \<noteq> None \<or> i \<notin> live_cdevs (ktrace (kern7 y)) then Inr ((- ENODEV, []), y)
      else bindo (through (fop_open ops) (\<lambda>m. m i \<lparr>private_data = None, f_pos = 0\<rparr> (kern7 y))
                   (0, \<lparr>private_data = None, f_pos = 0\<rparr>, kern7 y))
             (\<lambda>(r, filp, k). Inr ((scast r, []), y\<lparr>kern7 := k, fds7 := (fds7 y)(fd \<mapsto> filp)\<rparr>)))"
| "syscall7 ab ops (Close7 fd) y =
     with_file fd (\<lambda>filp.
       case private_data filp of
         None \<Rightarrow> Inl BadPointer
       | Some i \<Rightarrow>
           bindo (through (fop_release ops) (\<lambda>m. m i filp (kern7 y)) (0, filp, kern7 y))
             (\<lambda>(r, filp', k). Inr ((scast r, []), y\<lparr>kern7 := k, fds7 := (fds7 y)(fd := None)\<rparr>))) y"
| "syscall7 ab ops (Call7 fd c) y =
     with_file fd (\<lambda>filp.
       bindo (fops_call (absent_io ab) ops c ((kern7 y, filp), f_pos filp))
         (\<lambda>(a, (k, filp'), pos).
            Inr (a, y\<lparr>kern7 := k, fds7 := (fds7 y)(fd \<mapsto> filp'\<lparr>f_pos := pos\<rparr>)\<rparr>))) y"
| "syscall7 ab ops (Ioctl7 fd f u cmd) y =
     with_file fd (\<lambda>filp.
       bindo (through (fop_unlocked_ioctl ops) (\<lambda>m. m f u (kern7 y) filp cmd) (absent_ioctl ab, [], kern7 y))
         (\<lambda>(r, out, k). Inr ((r, out), y\<lparr>kern7 := k\<rparr>))) y"
| "syscall7 ab ops (Mmap7 fd v2p ret vma) y =
     with_file fd (\<lambda>filp.
       bindo (through (fop_mmap ops) (\<lambda>m. m v2p ret (kern7 y) filp vma) (absent_mmap ab, kern7 y))
         (\<lambda>(r, k). Inr ((scast r, []), y\<lparr>kern7 := k\<rparr>))) y"
| "syscall7 ab ops _ y = Inr ((- EINVAL, []), y)"

lemma chrdev_fops7_entries:
  "fop_owner (chrdev_fops7 m) = Some m" "fop_open (chrdev_fops7 m) = Some chrdev_open7"
  "fop_release (chrdev_fops7 m) = Some chrdev_release7"
  "fop_unlocked_ioctl (chrdev_fops7 m) = Some chrdev_ioctl" "fop_mmap (chrdev_fops7 m) = Some chrdev_mmap"
  by (simp_all add: chrdev_fops7_def)

lemma syscall7_step7: "is_syscall p \<Longrightarrow> syscall7 ab (chrdev_fops7 m) p y = step7 p y"
  unfolding atomize_imp
  by (cases p; hypsubst; unfold syscall7.simps step7.simps chrdev_fops7_entries through_simps fops7_call) simp_all

text \<open>The modules an open file of slot \<open>i\<close> holds.\<close>

definition pins :: "('r, 'k, 'f, 'a) file_operations \<Rightarrow> kcall list \<Rightarrow> nat \<Rightarrow> nat list" where
  "pins ops t i = (case cdev_owner t i of None \<Rightarrow> [] | Some m \<Rightarrow> [m]) @
                  (case fop_owner ops of None \<Rightarrow> [] | Some m \<Rightarrow> [m])"

definition adjust :: "int \<Rightarrow> nat list \<Rightarrow> (nat \<Rightarrow> int) \<Rightarrow> nat \<Rightarrow> int" where
  "adjust n ms = fold (\<lambda>m r. r(m := r m + n)) ms"

fun module_refs ::
  "('r, 'k, 'f, 'a) file_operations \<Rightarrow> op7 \<Rightarrow> sys7 \<Rightarrow> (nat \<Rightarrow> int) \<Rightarrow> nat \<Rightarrow> int" where
  "module_refs ops (Open7 fd i) y r =
     (if fds7 y fd \<noteq> None \<or> i \<notin> live_cdevs (ktrace (kern7 y)) then r
      else adjust 1 (pins ops (ktrace (kern7 y)) i) r)"
| "module_refs ops (Close7 fd) y r =
     (case fds7 y fd of
        None \<Rightarrow> r
      | Some filp \<Rightarrow> (case private_data filp of None \<Rightarrow> r | Some i \<Rightarrow> adjust (- 1) (pins ops (ktrace (kern7 y)) i) r))"
| "module_refs ops _ y r = r"

section \<open>Steps of the system\<close>

datatype host_op =
    Insmod_Core init_env
  | Rmmod_Core
  | Insmod_Req "nat \<Rightarrow> nat \<Rightarrow> drv7 \<Rightarrow> reg_env_mem"
  | Rmmod_Req
  | Bind nat "nat \<Rightarrow> nat \<Rightarrow> drv7 \<Rightarrow> reg_env_mem"
  | is_Unbind: Unbind nat
  | Sys op7

abbreviation EEXIST :: "'a::len word" where "EEXIST \<equiv> 17"
abbreviation ENOENT :: "'a::len word" where "ENOENT \<equiv> 2"

text \<open>The static variables of a module that is loaded are fresh.\<close>

definition fresh7 :: "drv7 \<Rightarrow> drv7" where
  "fresh7 k = start7\<lparr>ktrace := ktrace k, heap := heap k\<rparr>"

definition req_driver7 :: "((reg_env_mem, drv7) probe_fun, drv7 remove_fun) platform_driver" where
  "req_driver7 = chrdev_req_driver chrdev_device_register7 chrdev_device_unregister7"

definition set_kern :: "drv7 \<Rightarrow> host7 \<Rightarrow> host7" where
  "set_kern k y = y\<lparr>hsys := (hsys y)\<lparr>kern7 := k\<rparr>\<rparr>"

fun step_host :: "absent7 \<Rightarrow> platform_device list \<Rightarrow> host_op \<Rightarrow> host7 \<Rightarrow> fault + (io_answer \<times> host7)" where
  "step_host ab tree (Insmod_Core e) y =
     (if core_in y then Inr ((- EEXIST, []), y)
      else let (ret, k) = chrdev_init7 e (fresh7 (kern7 (hsys y)))
           in Inr ((scast ret, []), (set_kern k y)\<lparr>core_in := \<not> negative ret\<rparr>))"
| "step_host ab tree Rmmod_Core y =
     (if \<not> core_in y then Inr ((- ENOENT, []), y)
      else if bus y \<noteq> None \<or> refs y chrdev_ko \<noteq> 0 then Inr ((- EAGAIN, []), y)
      else Inr ((0, []), (set_kern (chrdev_exit7 (kern7 (hsys y))) y)\<lparr>core_in := False\<rparr>))"
| "step_host ab tree (Insmod_Req env) y =
     (if bus y \<noteq> None then Inr ((- EEXIST, []), y)
      else if \<not> core_in y then Inr ((- ENOENT, []), y)
      else bindo (platform_driver_register req_driver7 tree env chrdev_req_ko (kern7 (hsys y)))
             (\<lambda>(k, b). Inr ((0, []), (set_kern k y)\<lparr>bus := Some b\<rparr>)))"
| "step_host ab tree Rmmod_Req y =
     (case bus y of
        None \<Rightarrow> Inr ((- ENOENT, []), y)
      | Some b \<Rightarrow>
          if refs y chrdev_req_ko \<noteq> 0 then Inr ((- EAGAIN, []), y)
          else bindo (platform_driver_unregister req_driver7 tree (kern7 (hsys y), b))
                 (\<lambda>k. Inr ((0, []), (set_kern k y)\<lparr>bus := None\<rparr>)))"
| "step_host ab tree (Bind p env) y =
     (case bus y of
        None \<Rightarrow> Inr ((- ENODEV, []), y)
      | Some b \<Rightarrow>
          bindo (bus_probe req_driver7 tree env chrdev_req_ko p (kern7 (hsys y), b))
            (\<lambda>(k, b). Inr ((0, []), (set_kern k y)\<lparr>bus := Some b\<rparr>)))"
| "step_host ab tree (Unbind p) y =
     (case bus y of
        None \<Rightarrow> Inr ((- ENODEV, []), y)
      | Some b \<Rightarrow>
          bindo (bus_remove req_driver7 tree p (kern7 (hsys y), b))
            (\<lambda>(k, b). Inr ((0, []), (set_kern k y)\<lparr>bus := Some b\<rparr>)))"
| "step_host ab tree (Sys p) y =
     bindo (syscall7 ab (chrdev_fops7 chrdev_ko) p (hsys y))
       (\<lambda>(a, z). Inr (a, y\<lparr>hsys := z, refs := module_refs (chrdev_fops7 chrdev_ko) p (hsys y) (refs y)\<rparr>))"

abbreviation run_host ::
  "absent7 \<Rightarrow> platform_device list \<Rightarrow> host_op list \<Rightarrow> host7 \<Rightarrow> fault + (io_answer list \<times> host7)" where
  "run_host ab tree \<equiv> run_steps (step_host ab tree)"

section \<open>What a step leaves alone\<close>

text \<open>What the module holds beside its devices, and whose devices they are.\<close>

fun class_held :: "class_ptr \<Rightarrow> nat set" where
  "class_held (Class c) = {c}"
| "class_held _ = {}"

definition host_inv :: "drv7 \<Rightarrow> bool" where
  "host_inv k \<longleftrightarrow> mem_inv k \<and>
     (\<forall>i < 8. busy (slot k i) \<longrightarrow> cdev_owner (ktrace k) i = Some chrdev_req_ko) \<and>
     live_classes (ktrace k) = class_held (chrdev_class k) \<and> live_regions (ktrace k) = {chrdev_devt k}"

definition same_module :: "drv7 \<Rightarrow> drv7 \<Rightarrow> bool" where
  "same_module k k' \<longleftrightarrow>
     chrdev_class k' = chrdev_class k \<and> chrdev_devt k' = chrdev_devt k \<and>
     live_classes (ktrace k') = live_classes (ktrace k) \<and> live_regions (ktrace k') = live_regions (ktrace k)"

lemma same_module_refl [simp]: "same_module k k"
  by (simp add: same_module_def)

lemma host_inv_frame:
  assumes "host_inv k" and "mem_inv k'" and "same_module k k'"
    and "\<And>i. i < 8 \<Longrightarrow> busy (slot k' i) \<Longrightarrow>
           cdev_owner (ktrace k') i = Some chrdev_req_ko \<or>
           busy (slot k i) \<and> cdev_owner (ktrace k') i = cdev_owner (ktrace k) i"
  shows "host_inv k'"
  using assms unfolding host_inv_def same_module_def by metis

lemma register7_frame:
  assumes "chrdev_device_register7 e lbl ident ro owner parent k = Inr (r, k')"
    and "length (chrdev_array k) = 8"
  shows "same_module k k'"
    and "i < 8 \<Longrightarrow> busy (slot k' i) \<Longrightarrow> cdev_owner (ktrace k') i = Some owner \<or>
           busy (slot k i) \<and> cdev_owner (ktrace k') i = cdev_owner (ktrace k) i"
  using assms
  by (auto simp: chrdev_device_register7_def same_module_def Let_def bindo_Inr_iff kfree_def MAX_DEVICES_le
      device_create_def split: if_splits option.splits sum.splits)

lemma unregister7_frame:
  assumes "chrdev_device_unregister7 lbl ident k = Inr (r, k')" and "length (chrdev_array k) = 8"
  shows "same_module k k'"
    and "i < 8 \<Longrightarrow> busy (slot k' i) \<Longrightarrow> busy (slot k i) \<and> cdev_owner (ktrace k') i = cdev_owner (ktrace k) i"
  using assms
  by (auto simp: chrdev_device_unregister7_def same_module_def Let_def bindo_Inr_iff kfree_def MAX_DEVICES_le
      split: if_splits option.splits dev_ptr.splits)

text \<open>The contract of the registry with the stronger invariant, when the caller is \<^verbatim>\<open>chrdev-req.ko\<close>.\<close>

interpretation regh: chrdev_registry "owned_by chrdev_req_ko chrdev_device_register7"
  chrdev_device_unregister7 host_inv devices_of mem_env_good mem_env_success
proof (unfold_locales, goal_cases)
  case (1 s m e ident ro owner parent)
  then have inv: "mem_inv s" by (simp add: host_inv_def)
  from register7_returns [OF inv 1(2,3), of ident ro chrdev_req_ko parent] obtain r s' where
    r: "chrdev_device_register7 e m ident ro chrdev_req_ko parent s = Inr (r, s')" "mem_inv s'"
    and v: "if r = 0 then unat ident < 8 \<and> devices_of s (unat ident) = None \<and>
               devices_of s' = (devices_of s)(unat ident \<mapsto> label_array m)
            else devices_of s' = devices_of s" by blast
  have "host_inv s'"
    using host_inv_frame [OF 1(1) r(2)] register7_frame [OF r(1) mem_inv_length [OF inv]] by blast
  with r v show ?case by (auto simp: owned_by_def)
next
  case (2 s m e ident ro owner parent)
  then show ?case
    unfolding owned_by_def host_inv_def by (intro reg7.register_succeeds) auto
next
  case (3 s m ident)
  then have inv: "mem_inv s" by (simp add: host_inv_def)
  from reg7.unregister_returns [OF inv 3(2), of ident] 3(3) obtain r s' where
    r: "chrdev_device_unregister7 m ident s = Inr (r, s')" "mem_inv s'"
    and v: "if r = 0 then names (devices_of s) (unat ident) m \<and> devices_of s' = (devices_of s)(unat ident := None)
            else \<not> names (devices_of s) (unat ident) m \<and> devices_of s' = devices_of s" by blast
  have "host_inv s'"
    using host_inv_frame [OF 3(1) r(2)] unregister7_frame [OF r(1) mem_inv_length [OF inv]] by blast
  with r v show ?case by auto
qed

text \<open>A system call changes buffers and reference counts of objects, nothing the modules own.\<close>

definition quiet :: "drv7 \<Rightarrow> drv7 \<Rightarrow> bool" where
  "quiet k k' \<longleftrightarrow> same_module k k' \<and> devices_of k' = devices_of k \<and>
     cdev_owner (ktrace k') = cdev_owner (ktrace k)"

lemma quiet_refl [simp]: "quiet k k"
  by (simp add: quiet_def)

lemma quiet_call:
  "c = Kobject_Get h \<or> c = Kobject_Put h \<or> c = Remap_Pfn_Range i a b n r \<Longrightarrow> quiet k (call c k)"
  by (auto simp: quiet_def same_module_def devices_of_def fun_eq_iff)

lemma quiet_read_only:
  assumes "mem_inv k" and "i < 8"
  shows "quiet k (upd_slot i (\<lambda>c. c\<lparr>read_only := v\<rparr>) k)"
  using mem_inv_read_only(2) [OF assms] by (simp add: quiet_def same_module_def)

lemma write7_quiet:
  assumes "chrdev_write7 f usr k filp n pos = Inr (r, pos', k')"
  shows "quiet k k'"
proof -
  have "ktrace (store_buf p b k) = ktrace k" "chrdev_class (store_buf p b k) = chrdev_class k"
    "chrdev_devt (store_buf p b k) = chrdev_devt k" for p b
    by (simp_all add: store_buf_def split: option.split)
  then show ?thesis
    using assms
    by (auto simp: chrdev_write7_def Let_def bindo_Inr_iff quiet_def same_module_def store_buf_devices
        split: option.splits if_splits)
qed

lemma dev_call7_quiet:
  assumes "dev_call rd7 wr7 sk7 c ((k, filp), pos) = Inr (a, (k', filp'), pos')"
  shows "quiet k k'"
proof (cases c)
  case (Write f usr n)
  with assms show ?thesis
    by (cases "chrdev_write7 f usr k filp n pos") (auto dest: write7_quiet)
qed (use assms in \<open>auto simp: bindo_Inr_iff split_beta\<close>)

lemma step7_quiet:
  assumes ok: "sys7_ok y" and "is_syscall p" and step: "step7 p y = Inr (a, y')"
  shows "quiet (kern7 y) (kern7 y')"
proof -
  have slot8: "\<exists>i < 8. private_data filp = Some i" if "fds7 y fd = Some filp" for fd filp
    using file_ok7_opened [OF ok that] by metis
  note inv = sys7_okD(1) [OF ok]
  show ?thesis
  proof (cases p)
    case (Call7 fd c)
    then show ?thesis
      using step dev_call7_quiet
      by (auto simp: with_file_def bindo_Inr_iff split: option.splits simp del: dev_call.simps)
  next
    case (Ioctl7 fd f u cmd)
    then show ?thesis
      using step slot8 quiet_read_only [OF inv]
      by (fastforce simp: with_file_def chrdev_ioctl_def Let_def bindo_Inr_iff split: option.splits if_splits)
  next
    case (Mmap7 fd v2p ret vma)
    then show ?thesis
      using step quiet_call
      by (fastforce simp: with_file_def chrdev_mmap_def Let_def bindo_Inr_iff split: option.splits if_splits)
  next
    case (Open7 fd i)
    then show ?thesis
      using step quiet_call
      by (fastforce simp: chrdev_open7_def bindo_Inr_iff split: dev_ptr.splits if_splits)
  next
    case (Close7 fd)
    then show ?thesis
      using step quiet_call
      by (fastforce simp: with_file_def chrdev_release7_def bindo_Inr_iff split: dev_ptr.splits option.splits)
  qed (use assms in simp_all)
qed

lemma quiet_host_inv:
  assumes "host_inv k" and "quiet k k'" and "mem_inv k'"
  shows "host_inv k'"
proof (rule host_inv_frame [OF assms(1,3)])
  show "same_module k k'" using assms(2) by (simp add: quiet_def)
  show "cdev_owner (ktrace k') i = Some chrdev_req_ko \<or>
      busy (slot k i) \<and> cdev_owner (ktrace k') i = cdev_owner (ktrace k) i"
    if "i < 8" "busy (slot k' i)" for i
  proof -
    have "devices_of k i \<noteq> None \<longleftrightarrow> devices_of k' i \<noteq> None" using assms(2) by (simp add: quiet_def)
    with that have "busy (slot k i)" by (simp add: devices_of_busy)
    with assms(2) show ?thesis by (simp add: quiet_def)
  qed
qed

end
