(* ===== verification/Module_Safe.thy ===== *)
theory Module_Safe
  imports Module_Life
begin

text \<open>
  The machine of \<^verbatim>\<open>Module_Life\<close> is safe: in its well-formed states open files have their modules
  loaded and counted and their pages allocated, and with no module loaded nothing is held. Every
  operation keeps them, with one exception, and the properties say so for whole runs; the
  exception, unbinding a platform device under an open file, is a property of its own.
\<close>

section \<open>Well-formed systems\<close>

text \<open>Nothing of the kernel's is held.\<close>

definition released :: "drv7 \<Rightarrow> bool" where
  "released k \<longleftrightarrow> live_cdevs (ktrace k) = {} \<and> live_devices (ktrace k) = {} \<and> live_memory (ktrace k) = {} \<and>
     live_classes (ktrace k) = {} \<and> live_regions (ktrace k) = {} \<and> heap k = (\<lambda>_. None)"

definition open_files :: "host7 \<Rightarrow> nat set" where
  "open_files y = dom (fds7 (hsys y))"

definition refs_ok :: "host7 \<Rightarrow> bool" where
  "refs_ok y \<longleftrightarrow> finite (open_files y) \<and>
     refs y chrdev_ko = int (card (open_files y)) \<and> refs y chrdev_req_ko = int (card (open_files y))"

definition host_ok :: "platform_device list \<Rightarrow> host7 \<Rightarrow> bool" where
  "host_ok tree y \<longleftrightarrow> refs_ok y \<and>
     (if core_in y
      then sys7_ok (hsys y) \<and> host_inv (kern7 (hsys y)) \<and>
           (case bus y of
              None \<Rightarrow> \<forall>i. devices_of (kern7 (hsys y)) i = None
            | Some b \<Rightarrow> regh.bus_ok tree (kern7 (hsys y), b))
      else bus y = None \<and> open_files y = {} \<and> released (kern7 (hsys y)))"

lemma set_kern_simps [simp]:
  "hsys (set_kern k y) = (hsys y)\<lparr>kern7 := k\<rparr>" "core_in (set_kern k y) = core_in y"
  "bus (set_kern k y) = bus y" "refs (set_kern k y) = refs y" "open_files (set_kern k y) = open_files y"
  by (simp_all add: set_kern_def open_files_def)

lemma refs_ok_frame:
  "refs_ok y \<Longrightarrow> open_files y' = open_files y \<Longrightarrow> refs y' = refs y \<Longrightarrow> refs_ok y'"
  by (simp add: refs_ok_def)

lemma refs_none: "refs_ok y \<Longrightarrow> refs y chrdev_ko = 0 \<or> refs y chrdev_req_ko = 0 \<Longrightarrow> open_files y = {}"
  by (auto simp: refs_ok_def)

lemma host_okD:
  assumes "host_ok tree y"
  shows "refs_ok y"
    and "core_in y \<Longrightarrow> sys7_ok (hsys y)" and "core_in y \<Longrightarrow> host_inv (kern7 (hsys y))"
    and "core_in y \<Longrightarrow> bus y = None \<Longrightarrow> devices_of (kern7 (hsys y)) i = None"
    and "bus y = Some b \<Longrightarrow> core_in y" and "bus y = Some b \<Longrightarrow> regh.bus_ok tree (kern7 (hsys y), b)"
    and "\<not> core_in y \<Longrightarrow> open_files y = {}" and "\<not> core_in y \<Longrightarrow> released (kern7 (hsys y))"
  using assms by (auto simp: host_ok_def split: if_splits option.splits)

section \<open>Every operation keeps systems well formed\<close>

text \<open>
  What a host's operations may be: the allocator answers addresses not in use, programs make
  system calls within the kernel's limit, and no platform device is unbound while one of its
  character devices is open.
\<close>

fun host_op_ok :: "platform_device list \<Rightarrow> host7 \<Rightarrow> host_op \<Rightarrow> bool" where
  "host_op_ok tree y (Insmod_Req env) \<longleftrightarrow> (\<forall>p n s. mem_inv s \<longrightarrow> mem_env_good (env p n s) s)"
| "host_op_ok tree y (Bind p env) \<longleftrightarrow> (\<forall>p n s. mem_inv s \<longrightarrow> mem_env_good (env p n s) s)"
| "host_op_ok tree y (Unbind p) \<longleftrightarrow> (\<forall>c \<in> set (pdev_children (tree ! p)). \<not> is_open (hsys y) (node_id c))"
| "host_op_ok tree y (Sys p) \<longleftrightarrow> is_syscall p \<and> op_ok7 (hsys y) p"
| "host_op_ok tree y _ \<longleftrightarrow> True"

definition keeps_host :: "absent7 \<Rightarrow> platform_device list \<Rightarrow> host_op \<Rightarrow> host7 \<Rightarrow> bool" where
  "keeps_host ab tree p y \<longleftrightarrow> (\<exists>a y'. step_host ab tree p y = Inr (a, y') \<and> host_ok tree y')"

lemma keeps_hostI: "step_host ab tree p y = Inr (a, y') \<Longrightarrow> host_ok tree y' \<Longrightarrow> keeps_host ab tree p y"
  by (auto simp: keeps_host_def)

lemma open_files_none: "open_files y = {} \<Longrightarrow> fds7 (hsys y) fd = None"
  by (auto simp: open_files_def)

text \<open>Loading the core module on a system where nothing is held.\<close>

lemma empty_table:
  assumes "chrdev_array k = chrdev_array start7" and "heap k = (\<lambda>_. None)"
    and "live_cdevs (ktrace k) = {}" and "live_devices (ktrace k) = {}" and "live_memory (ktrace k) = {}"
  shows "mem_inv k" and "devices_of k i = None" and "j < 8 \<Longrightarrow> \<not> busy (slot k j)"
proof -
  have slots: "slot k j = zero_dev7" if "j < 8" for j
    using start7_free [OF that] by (simp add: slot_def assms(1))
  then have none: "busy_ids k = {}" "\<not> buf_owner k a j" for a j
    by (auto simp: busy_ids_def buf_owner_def zero_dev7_def)
  show "mem_inv k"
    using assms none slots by (auto simp: mem_inv_def registry_inv_def heap_inv_def slot_ok_def)
      (auto simp: zero_dev7_def start7_def)
  show "devices_of k i = None" and "j < 8 \<Longrightarrow> \<not> busy (slot k j)"
    using slots by (simp_all add: devices_of_def zero_dev7_def)
qed

lemma insmod_core_init:
  assumes "released k" and "chrdev_init7 e (fresh7 k) = (r, k')"
  shows "negative r \<Longrightarrow> released k'"
    and "\<not> negative r \<Longrightarrow> host_inv k' \<and> (\<forall>i. devices_of k' i = None)"
proof -
  have neg: "negative (- ENOMEM :: s32)" by (simp add: negative_def)
  have frame: "chrdev_array k' = chrdev_array start7" "heap k' = (\<lambda>_. None)"
    "live_cdevs (ktrace k') = {}" "live_devices (ktrace k') = {}" "live_memory (ktrace k') = {}"
    using init7_state [OF assms(2)] assms(1) by (simp_all add: fresh7_def released_def)
  show "negative r \<Longrightarrow> released k'"
    using assms frame
    by (cases "class_create_ret e")
      (auto simp: released_def chrdev_init7_def fresh7_def Let_def split: if_splits)
  have "live_classes (ktrace k') = class_held (chrdev_class k') \<and> live_regions (ktrace k') = {chrdev_devt k'}"
    if "\<not> negative r"
    using assms that neg
    by (cases "class_create_ret e")
      (auto simp: released_def chrdev_init7_def fresh7_def Let_def split: if_splits)
  then show "\<not> negative r \<Longrightarrow> host_inv k' \<and> (\<forall>i. devices_of k' i = None)"
    using empty_table [OF frame] by (simp add: host_inv_def)
qed

lemma sys7_ok_no_files:
  assumes "mem_inv k" and "\<And>i l. devices_of k i = Some l \<Longrightarrow> is_cstr l" and "\<And>fd. fds7 y fd = None"
  shows "sys7_ok (y\<lparr>kern7 := k\<rparr>)"
  using assms by (simp add: sys7_ok_def)

lemma step_insmod_core:
  assumes ok: "host_ok tree y"
  shows "keeps_host ab tree (Insmod_Core e) y"
proof (cases "core_in y")
  case True
  with ok show ?thesis by (simp add: keeps_host_def)
next
  case False
  note rel = host_okD(8) [OF ok False] and none = open_files_none [OF host_okD(7) [OF ok False]]
  obtain r k where init: "chrdev_init7 e (fresh7 (kern7 (hsys y))) = (r, k)" by (cases "chrdev_init7 e (fresh7 (kern7 (hsys y)))")
  note st = insmod_core_init [OF rel init]
  let ?y = "(set_kern k y)\<lparr>core_in := \<not> negative r\<rparr>"
  have "refs_ok ?y" by (rule refs_ok_frame [OF host_okD(1) [OF ok]]) (simp_all add: open_files_def)
  moreover have "bus y = None" using host_okD(5) [OF ok] False by (cases "bus y") auto
  moreover have "open_files ?y = {}" using none by (auto simp: open_files_def)
  moreover have "sys7_ok ((hsys y)\<lparr>kern7 := k\<rparr>)" if "\<not> negative r"
    using st(2) [OF that] none by (intro sys7_ok_no_files) (auto simp: host_inv_def)
  ultimately have "host_ok tree ?y"
    using st by (auto simp: host_ok_def)
  then show ?thesis
    using False init by (intro keeps_hostI) simp
qed

lemma step_rmmod_core:
  assumes ok: "host_ok tree y"
  shows "keeps_host ab tree Rmmod_Core y"
proof (cases "core_in y \<and> bus y = None \<and> refs y chrdev_ko = 0")
  case False
  with ok show ?thesis by (auto simp: keeps_host_def)
next
  case True
  then have c: "core_in y" by simp
  let ?k = "kern7 (hsys y)"
  note inv = host_okD(3) [OF ok c]
  have none: "\<not> busy (slot ?k i)" if "i < 8" for i
    using host_okD(4) [OF ok c, of i] True that by (simp add: devices_of_def split: if_splits)
  have mem: "mem_inv ?k" using inv by (simp add: host_inv_def)
  then have r: "registry_inv ?k" and h: "heap_inv ?k" by (simp_all add: mem_inv_def)
  have "busy_ids ?k = {}" and owner: "\<not> buf_owner ?k a i" for a i
    using none by (auto simp: busy_ids_def buf_owner_def)
  moreover have "heap ?k = (\<lambda>_. None)"
    using heap_invD(2) [OF h] owner by fastforce
  ultimately have "released (chrdev_exit7 ?k)"
    using registry_invD(3,4) [OF r] heap_invD(5) [OF h] inv
    by (cases "chrdev_class ?k") (simp_all add: released_def chrdev_exit7_def host_inv_def)
  moreover have "open_files y = {}" using refs_none [OF host_okD(1) [OF ok]] True by blast
  moreover have "refs_ok ((set_kern (chrdev_exit7 ?k) y)\<lparr>core_in := False\<rparr>)"
    by (rule refs_ok_frame [OF host_okD(1) [OF ok]]) (simp_all add: open_files_def)
  ultimately have "host_ok tree ((set_kern (chrdev_exit7 ?k) y)\<lparr>core_in := False\<rparr>)"
    using True by (simp add: host_ok_def open_files_def)
  then show ?thesis
    using True by (intro keeps_hostI) simp
qed

text \<open>Binding and unbinding devices.\<close>

lemma host_ok_bus:
  assumes ok: "host_ok tree y" and c: "core_in y" and tree: "tree_ok tree"
    and bus: "regh.bus_ok tree (k, b)"
    and files: "\<And>fd filp. fds7 (hsys y) fd = Some filp \<Longrightarrow> file_ok7 k filp"
  shows "host_ok tree ((set_kern k y)\<lparr>bus := Some b\<rparr>)"
proof -
  have "host_inv k" using bus by (simp add: regh.bus_ok_def)
  moreover from this have "sys7_ok ((hsys y)\<lparr>kern7 := k\<rparr>)"
    using regh.bus_ok_cstr [OF tree bus] files by (auto simp: sys7_ok_def host_inv_def)
  moreover have "refs_ok ((set_kern k y)\<lparr>bus := Some b\<rparr>)"
    by (rule refs_ok_frame [OF host_okD(1) [OF ok]]) (simp_all add: open_files_def)
  ultimately show ?thesis
    using c bus by (simp add: host_ok_def)
qed

lemma file_ok7_le:
  "file_ok7 k filp \<Longrightarrow> devices_of k \<subseteq>\<^sub>m devices_of k' \<Longrightarrow> file_ok7 k' filp"
  by (erule file_ok7_mono) (metis domIff map_le_def)

lemma step_insmod_req:
  assumes ok: "host_ok tree y" and tree: "tree_ok tree" and p: "host_op_ok tree y (Insmod_Req env)"
  shows "keeps_host ab tree (Insmod_Req env) y"
proof (cases "bus y = None \<and> core_in y")
  case False
  with ok show ?thesis by (auto simp: keeps_host_def)
next
  case True
  then have c: "core_in y" and b: "bus y = None" by simp_all
  let ?k = "kern7 (hsys y)"
  note empty = host_okD(4) [OF ok c b]
  have env: "mem_env_good (env p n s) s" if "host_inv s" for p n s
    using that p by (simp add: host_inv_def)
  from regh.driver_register_returns [OF tree host_okD(3) [OF ok c] empty, of env chrdev_req_ko] env
  obtain k b where k: "platform_driver_register req_driver7 tree env chrdev_req_ko ?k = Inr (k, b)"
    "regh.bus_ok tree (k, b)"
    unfolding platform_driver_register_owned req_driver7_def by blast
  have "fds7 (hsys y) fd = None" for fd
    using sys7_okD(3) [OF host_okD(2) [OF ok c], of fd] empty
    by (cases "fds7 (hsys y) fd") (auto simp: file_ok7_def)
  then have "host_ok tree ((set_kern k y)\<lparr>bus := Some b\<rparr>)"
    by (intro host_ok_bus [OF ok c tree k(2)]) simp
  then show ?thesis
    using True k(1) by (intro keeps_hostI) simp
qed

lemma step_bind:
  assumes ok: "host_ok tree y" and tree: "tree_ok tree" and p: "host_op_ok tree y (Bind p env)"
  shows "keeps_host ab tree (Bind p env) y"
proof (cases "bus y")
  case None
  with ok show ?thesis by (simp add: keeps_host_def)
next
  case (Some b)
  note c = host_okD(5) [OF ok Some]
  let ?k = "kern7 (hsys y)"
  have env: "mem_env_good (env p n s) s" if "host_inv s" for p n s
    using that p by (simp add: host_inv_def)
  from regh.bus_probe_returns [OF tree host_okD(6) [OF ok Some], of env chrdev_req_ko p] env
  obtain k b' where k: "bus_probe req_driver7 tree env chrdev_req_ko p (?k, b) = Inr (k, b')"
    "regh.bus_ok tree (k, b')" "devices_of ?k \<subseteq>\<^sub>m devices_of k"
    unfolding bus_probe_owned req_driver7_def by blast
  have "host_ok tree ((set_kern k y)\<lparr>bus := Some b'\<rparr>)"
    using sys7_okD(3) [OF host_okD(2) [OF ok c]] k(3)
    by (intro host_ok_bus [OF ok c tree k(2)]) (rule file_ok7_le)
  then show ?thesis
    using Some k(1) by (intro keeps_hostI) simp
qed

lemma step_unbind:
  assumes ok: "host_ok tree y" and tree: "tree_ok tree" and p: "host_op_ok tree y (Unbind p)"
  shows "keeps_host ab tree (Unbind p) y"
proof (cases "bus y")
  case None
  with ok show ?thesis by (simp add: keeps_host_def)
next
  case (Some b)
  note c = host_okD(5) [OF ok Some]
  let ?k = "kern7 (hsys y)" and ?ids = "node_id ` set (pdev_children (tree ! p))"
  from regh.bus_remove_returns [OF tree host_okD(6) [OF ok Some], of p] obtain k where
    k: "bus_remove req_driver7 tree p (?k, b) = Inr (k, removeAll p b)" "regh.bus_ok tree (k, removeAll p b)"
      "\<forall>i. i \<notin> ?ids \<longrightarrow> devices_of k i = devices_of ?k i"
    unfolding bus_remove_owned req_driver7_def by blast
  have "file_ok7 k filp" if f: "fds7 (hsys y) fd = Some filp" for fd filp
  proof (rule file_ok7_mono [OF sys7_okD(3) [OF host_okD(2) [OF ok c] f]])
    fix i
    assume i: "private_data filp = Some i" "devices_of ?k i \<noteq> None"
    then have "i \<notin> ?ids" using p f by (auto simp: is_open_def)
    with k(3) i show "devices_of k i \<noteq> None" by simp
  qed
  then have "host_ok tree ((set_kern k y)\<lparr>bus := Some (removeAll p b)\<rparr>)"
    by (rule host_ok_bus [OF ok c tree k(2)])
  then show ?thesis
    using Some k(1) by (intro keeps_hostI) simp
qed

lemma step_rmmod_req:
  assumes ok: "host_ok tree y" and tree: "tree_ok tree"
  shows "keeps_host ab tree Rmmod_Req y"
proof (cases "bus y = None \<or> refs y chrdev_req_ko \<noteq> 0")
  case True
  with ok show ?thesis by (auto simp: keeps_host_def split: option.split)
next
  case False
  then obtain b where b: "bus y = Some b" and "refs y chrdev_req_ko = 0" by auto
  then have none: "fds7 (hsys y) fd = None" for fd
    using refs_none [OF host_okD(1) [OF ok]] open_files_none by blast
  note c = host_okD(5) [OF ok b]
  let ?k = "kern7 (hsys y)"
  from regh.driver_unregister_returns [OF tree host_okD(6) [OF ok b]] obtain k where
    k: "platform_driver_unregister req_driver7 tree (?k, b) = Inr k" "host_inv k"
      "\<forall>i. devices_of k i = None"
    unfolding platform_driver_unregister_owned req_driver7_def by blast
  have "sys7_ok ((hsys y)\<lparr>kern7 := k\<rparr>)"
    using k(2,3) none by (intro sys7_ok_no_files) (auto simp: host_inv_def)
  moreover have "refs_ok ((set_kern k y)\<lparr>bus := None\<rparr>)"
    by (rule refs_ok_frame [OF host_okD(1) [OF ok]]) (simp_all add: open_files_def)
  ultimately have "host_ok tree ((set_kern k y)\<lparr>bus := None\<rparr>)"
    using c k(2,3) by (simp add: host_ok_def)
  then show ?thesis
    using False b k(1) by (intro keeps_hostI) simp
qed

text \<open>System calls, with the references they take and drop.\<close>

lemma adjust_pins:
  "cdev_owner t i = Some chrdev_req_ko \<Longrightarrow>
   adjust n (pins (chrdev_fops7 chrdev_ko) t i) r chrdev_ko = r chrdev_ko + n \<and>
   adjust n (pins (chrdev_fops7 chrdev_ko) t i) r chrdev_req_ko = r chrdev_req_ko + n"
  by (simp add: adjust_def pins_def chrdev_fops7_entries chrdev_ko_def chrdev_req_ko_def)

lemma step7_files:
  assumes "step7 p y = Inr (a, y')"
  shows "dom (fds7 y') =
     (case p of
        Open7 fd i \<Rightarrow> if fds7 y fd \<noteq> None \<or> i \<notin> live_cdevs (ktrace (kern7 y)) then dom (fds7 y)
                     else insert fd (dom (fds7 y))
      | Close7 fd \<Rightarrow> dom (fds7 y) - {fd}
      | _ \<Rightarrow> dom (fds7 y))"
  using assms
  by (cases p) (auto simp: with_file_def bindo_Inr_iff split: option.splits if_splits simp del: dev_call.simps)

lemma owner_of_busy:
  assumes "host_inv k" and "i < 8" and "busy (slot k i)"
  shows "cdev_owner (ktrace k) i = Some chrdev_req_ko"
  using assms by (simp add: host_inv_def)

lemma syscall_refs:
  assumes ok: "host_ok tree y" and c: "core_in y" and p: "is_syscall p"
    and step: "step7 p (hsys y) = Inr (a, z)"
  shows "refs_ok (y\<lparr>hsys := z, refs := module_refs (chrdev_fops7 chrdev_ko) p (hsys y) (refs y)\<rparr>)"
proof -
  let ?k = "kern7 (hsys y)" and ?f = "fds7 (hsys y)"
  note inv = host_okD(3) [OF ok c]
  have fin: "finite (dom ?f)" and r: "refs y chrdev_ko = int (card (dom ?f))" "refs y chrdev_req_ko = int (card (dom ?f))"
    using host_okD(1) [OF ok] by (simp_all add: refs_ok_def open_files_def)
  note dom = step7_files [OF step]
  show ?thesis
  proof (cases p)
    case (Open7 fd i)
    show ?thesis
    proof (cases "?f fd \<noteq> None \<or> i \<notin> live_cdevs (ktrace ?k)")
      case True
      then show ?thesis using dom fin r by (auto simp: Open7 refs_ok_def open_files_def)
    next
      case False
      have "registry_inv ?k" using inv by (simp add: host_inv_def mem_inv_def)
      with False have "i < 8" "busy (slot ?k i)" by (auto simp: registry_invD(3) busy_ids_def)
      note pins = adjust_pins [OF owner_of_busy [OF inv this], of 1 "refs y"]
      have new: "dom (fds7 z) = insert fd (dom ?f)" and "fd \<notin> dom ?f" using dom False by (auto simp: Open7)
      then show ?thesis using False fin r pins by (auto simp: Open7 refs_ok_def open_files_def)
    qed
  next
    case (Close7 fd)
    show ?thesis
    proof (cases "?f fd")
      case None
      then have "dom ?f - {fd} = dom ?f" by auto
      then show ?thesis using None dom fin r by (simp add: Close7 refs_ok_def open_files_def)
    next
      case (Some filp)
      obtain i where i: "private_data filp = Some i" "i < 8" "busy (slot ?k i)"
        using file_ok7_opened [OF host_okD(2) [OF ok c] Some] by metis
      note pins = adjust_pins [OF owner_of_busy [OF inv i(2,3)], of "- 1" "refs y"]
      have new: "dom (fds7 z) = dom ?f - {fd}" and "fd \<in> dom ?f" using dom Some by (auto simp: Close7)
      moreover have "0 < card (dom ?f)" using fin \<open>fd \<in> dom ?f\<close> by (auto simp: card_gt_0_iff)
      ultimately show ?thesis
        using Some i(1) fin r pins by (simp add: Close7 refs_ok_def open_files_def of_nat_diff)
    qed
  qed (use dom fin r p in \<open>simp_all add: refs_ok_def open_files_def\<close>)
qed

lemma no_files_syscall:
  assumes none: "open_files y = {}" and rel: "released (kern7 (hsys y))" and p: "is_syscall p"
  shows "\<exists>a. step7 p (hsys y) = Inr (a, hsys y) \<and>
             module_refs (chrdev_fops7 chrdev_ko) p (hsys y) (refs y) = refs y"
  using p open_files_none [OF none] rel by (cases p) (simp_all add: with_file_def released_def)

lemma step_sys:
  assumes ok: "host_ok tree y" and p: "host_op_ok tree y (Sys p)"
  shows "keeps_host ab tree (Sys p) y"
proof (cases "core_in y")
  case False
  from no_files_syscall [OF host_okD(7,8) [OF ok False], of p] p obtain a where a: "step7 p (hsys y) = Inr (a, hsys y)"
    "module_refs (chrdev_fops7 chrdev_ko) p (hsys y) (refs y) = refs y" by auto
  then have "step_host ab tree (Sys p) y = Inr (a, y)"
    using p by (simp add: syscall7_step7)
  then show ?thesis using ok by (rule keeps_hostI)
next
  case True
  from p have "is_syscall p" "op_ok7 (hsys y) p" by simp_all
  with step7_keeps [OF host_okD(2) [OF ok True]] obtain a z where
    z: "step7 p (hsys y) = Inr (a, z)" "sys7_ok z" unfolding keeps7_def by blast
  let ?y = "y\<lparr>hsys := z, refs := module_refs (chrdev_fops7 chrdev_ko) p (hsys y) (refs y)\<rparr>"
  note q = step7_quiet [OF host_okD(2) [OF ok True] \<open>is_syscall p\<close> z(1)]
  have inv: "host_inv (kern7 z)"
    using quiet_host_inv [OF host_okD(3) [OF ok True] q] sys7_okD(1) [OF z(2)] by blast
  have v: "devices_of (kern7 z) = devices_of (kern7 (hsys y))" using q by (simp add: quiet_def)
  have "host_ok tree ?y"
    using syscall_refs [OF ok True \<open>is_syscall p\<close> z(1)] True z(2) inv v host_okD(4) [OF ok True]
      regh.bus_ok_state [OF host_okD(6) [OF ok] inv v]
    by (auto simp: host_ok_def split: option.split)
  moreover have "step_host ab tree (Sys p) y = Inr (a, ?y)"
    using z(1) \<open>is_syscall p\<close> by (simp add: syscall7_step7)
  ultimately show ?thesis by (intro keeps_hostI)
qed

lemma step_host_keeps:
  assumes "host_ok tree y" and "tree_ok tree" and "host_op_ok tree y p"
  shows "keeps_host ab tree p y"
proof (cases p)
  case (Insmod_Core e)
  show ?thesis unfolding Insmod_Core by (rule step_insmod_core [OF assms(1)])
next
  case Rmmod_Core
  show ?thesis unfolding Rmmod_Core by (rule step_rmmod_core [OF assms(1)])
next
  case (Insmod_Req env)
  show ?thesis unfolding Insmod_Req by (rule step_insmod_req [OF assms [unfolded Insmod_Req]])
next
  case Rmmod_Req
  show ?thesis unfolding Rmmod_Req by (rule step_rmmod_req [OF assms(1,2)])
next
  case (Bind q env)
  show ?thesis unfolding Bind by (rule step_bind [OF assms [unfolded Bind]])
next
  case (Unbind q)
  show ?thesis unfolding Unbind by (rule step_unbind [OF assms [unfolded Unbind]])
next
  case (Sys q)
  show ?thesis unfolding Sys by (rule step_sys [OF assms(1,3) [unfolded Sys]])
qed

lemma host_start_ok: "host_ok tree host_start"
  by (simp add: host_ok_def host_start_def refs_ok_def open_files_def boot7_def released_def)
    (simp add: start7_def)

interpretation host: step_system "step_host ab tree" "\<lambda>y. host_ok tree y \<and> tree_ok tree" "host_op_ok tree"
  for ab tree
  by unfold_locales (use step_host_keeps in \<open>simp add: keeps_host_def\<close>)

section \<open>Unbinding an open device\<close>

text \<open>Unregistering leaves the buffer pointers where they are.\<close>

lemma remove_children_bufp:
  assumes "remove_children chrdev_device_unregister7 cs k = Inr k'" and "length (chrdev_array k) = 8"
  shows "bufp (slot k' j) = bufp (slot k j)"
  using assms
proof (induction cs arbitrary: k)
  case (Cons c cs)
  have one: "bufp (slot t j) = bufp (slot k j) \<and> length (chrdev_array t) = 8"
    if "chrdev_device_unregister7 lbl ident k = Inr (r, t)" for lbl ident r t
    using that Cons.prems(2)
    by (auto simp: chrdev_device_unregister7_def Let_def bindo_Inr_iff kfree_def MAX_DEVICES_le
        split: if_splits option.splits dev_ptr.splits)
  from Cons.prems(1) obtain t where t: "remove_child chrdev_device_unregister7 c k = Inr t"
    "remove_children chrdev_device_unregister7 cs t = Inr k'"
    by (auto simp: bindo_Inr_iff)
  from t(1) have "bufp (slot t j) = bufp (slot k j) \<and> length (chrdev_array t) = 8"
    using one by (auto simp: remove_child_def bindo_Inr_iff split: if_splits option.splits)
  with Cons.IH [OF t(2)] show ?case by simp
qed simp

text \<open>A page whose owner is gone is free.\<close>

lemma freed_with_owner:
  assumes "mem_inv k" and "mem_inv k'" and "\<And>j. bufp (slot k' j) = bufp (slot k j)"
    and "\<And>j. devices_of k' j \<noteq> None \<Longrightarrow> devices_of k j \<noteq> None"
    and "i < 8" and "devices_of k i \<noteq> None" and "devices_of k' i = None" and "bufp (slot k i) = Some a"
  shows "heap k' a = None"
proof (rule ccontr)
  assume "heap k' a \<noteq> None"
  then obtain j where j: "buf_owner k' a j"
    using heap_invD(2) [of k' a] assms(2) by (auto simp: mem_inv_def)
  then have "devices_of k' j \<noteq> None" "j < 8" by (simp_all add: buf_owner_def devices_of_busy)
  then have "busy (slot k j)" using assms(4) [of j] devices_of_busy [of j k] by simp
  with \<open>j < 8\<close> have "buf_owner k a j" using j assms(3) by (simp add: buf_owner_def)
  moreover have "buf_owner k a i" using assms(5,6,8) by (simp add: buf_owner_def devices_of_busy)
  ultimately have "j = i" using heap_invD(3) [of k a] assms(1) by (auto simp: mem_inv_def)
  with \<open>devices_of k' j \<noteq> None\<close> assms(7) show False by simp
qed

lemma unbind_frees:
  assumes tree: "tree_ok tree" and ok: "host_ok tree y" and bus: "bus y = Some b" and p: "p \<in> set b"
    and l: "devices_of (kern7 (hsys y)) i = Some l" "asked_by tree p i l" and i: "i < 8"
    and a: "bufp (slot (kern7 (hsys y)) i) = Some a"
  shows "\<exists>k. step_host ab tree (Unbind p) y = Inr ((0, []), (set_kern k y)\<lparr>bus := Some (removeAll p b)\<rparr>) \<and>
             bufp (slot k i) = Some a \<and> heap k a = None"
proof -
  let ?k = "kern7 (hsys y)" and ?cs = "pdev_children (tree ! p)"
  note bok = host_okD(6) [OF ok bus]
  then have inv: "host_inv ?k" and pl: "p < length tree"
    using p by (auto simp: regh.bus_ok_def)
  have nodes: "complete c \<and> readable c \<and> length (str_of (node_label c)) < 32" if "c \<in> set ?cs" for c
    using tree that pl by (auto simp: tree_ok_def)
  from regh.remove_children_returns [OF inv, of ?cs] nodes regh.bus_ok_cstr [OF tree bok] obtain k where
    k: "remove_children chrdev_device_unregister7 ?cs ?k = Inr k" "host_inv k"
      "devices_of k = fold view_del ?cs (devices_of ?k)" by blast
  have mem: "mem_inv ?k" "mem_inv k" using inv k(2) by (simp_all add: host_inv_def)
  note buf = remove_children_bufp [OF k(1) mem_inv_length [OF mem(1)]]
  from l(2) obtain c where c: "c \<in> set ?cs" "node_id c = i" "label_array (node_label c) = l"
    by (auto simp: asked_by_def)
  have mono: "devices_of ?k j = Some m" if "devices_of k j = Some m" for j m
    using that fold_view_del_le by (simp add: k(3))
  have gone: "devices_of k i = None"
    using mono [of i] l(1) fold_view_del_gone [OF c(1), of "devices_of ?k"] nodes [OF c(1)] c(2,3)
    by (cases "devices_of k i") (auto simp: k(3))
  have "heap k a = None"
    by (rule freed_with_owner [OF mem buf _ i _ gone a]) (use mono l(1) in auto)
  moreover have "bus_remove req_driver7 tree p (?k, b) = Inr (k, removeAll p b)"
    using p k(1) by (simp add: bus_remove_def req_driver7_def chrdev_req_remove_def)
  ultimately show ?thesis
    using bus a buf [of i] by auto
qed

section \<open>Properties\<close>

text \<open>
  Operations as they may come, whatever state they meet: the allocator answers addresses not in
  use, programs make system calls within the kernel's limit. Unbinding is always allowed here.
\<close>

fun inputs_ok :: "host_op \<Rightarrow> bool" where
  "inputs_ok (Insmod_Req env) \<longleftrightarrow> (\<forall>p n s. mem_inv s \<longrightarrow> mem_env_good (env p n s) s)"
| "inputs_ok (Bind p env) \<longleftrightarrow> (\<forall>p n s. mem_inv s \<longrightarrow> mem_env_good (env p n s) s)"
| "inputs_ok (Sys (Call7 fd c)) \<longleftrightarrow> call_ok c"
| "inputs_ok (Sys p) \<longleftrightarrow> is_syscall p"
| "inputs_ok _ \<longleftrightarrow> True"

lemma inputs_ok_op:
  assumes "inputs_ok p" and "\<not> host_op_ok tree y p"
  obtains q c where "p = Unbind q" and "c \<in> set (pdev_children (tree ! q))" and "is_open (hsys y) (node_id c)"
proof (cases p)
  case (Sys q)
  then show ?thesis using assms by (cases q) simp_all
qed (use assms that in auto)

lemma run_host_outcome:
  assumes "host_ok tree y" and "tree_ok tree" and "\<forall>p \<in> set ps. inputs_ok p"
  shows "(\<exists>as y'. run_host ab tree ps y = Inr (as, y') \<and> host_ok tree y' \<and> length as = length ps) \<or>
     (\<exists>qs p rs as y' c. ps = qs @ Unbind p # rs \<and> run_host ab tree qs y = Inr (as, y') \<and> host_ok tree y' \<and>
        c \<in> set (pdev_children (tree ! p)) \<and> is_open (hsys y') (node_id c))"
  using host.run_outcome [of tree y ab ps, OF conjI [OF assms(1,2)]]
proof (elim disjE exE conjE)
  fix qs p rs as y'
  assume run: "ps = qs @ p # rs" "run_host ab tree qs y = Inr (as, y')" "host_ok tree y'" and p: "\<not> host_op_ok tree y' p"
  have "inputs_ok p" using assms(3) run(1) by simp
  from inputs_ok_op [OF this p] obtain q c where
    "p = Unbind q" "c \<in> set (pdev_children (tree ! q))" "is_open (hsys y') (node_id c)" .
  with run show ?thesis by blast
qed auto


text \<open>A machine with one platform device, whose one child is character device 2.\<close>

definition sample_tree :: "platform_device list" where
  "sample_tree = [\<lparr>pdev_name = ''chrdev@0'', pdev_compat = [''ldddc,chrdev''],
     pdev_node = sample_node 0 ''x'', pdev_children = [sample_node 2 ''rtc'']\<rparr>]"

lemma sample_tree_ok: "tree_ok sample_tree"
proof -
  have "str_of (cstr ''rtc'') = ''rtc''" by (simp add: str_of_cstr NUL_def)
  then show ?thesis by (simp add: tree_ok_def sample_tree_def)
qed

lemma sample_envs7_good: "mem_inv s \<Longrightarrow> mem_env_good (sample_envs7 n s) s \<and> mem_env_success (sample_envs7 n s) s"
  using free_address [of s]
  by (simp add: mem_env_good_def mem_env_success_def env_ok_def env_succeeds_def sample_envs7_def sample_env7_def)

text \<open>What the kernel answers where a table has no entry (\<open>ENOTTY\<close> is 25).\<close>

definition sample_absent :: absent7 where
  "sample_absent = \<lparr>absent_io = (\<lambda>_. - EINVAL), absent_ioctl = - 25, absent_mmap = - ENODEV\<rparr>"


text \<open>C26: unbinding asks no module: while a character device of a bound platform device is open, unloading
  either module is refused, but unbinding the platform device through \<open>sysfs\<close> unregisters the character
  device and frees its page, and the next read of the open file uses it after it was freed.\<close>

theorem unbind_open_device:
  assumes "tree_ok tree" and "host_ok tree y" and "bus y = Some b" and "p \<in> set b"
    and "fds7 (hsys y) fd = Some filp" and "private_data filp = Some i"
    and "devices_of (kern7 (hsys y)) i = Some l" and "asked_by tree p i l"
    and "unat (f_pos filp) < 4096" and "0 < unat n" and "unat n \<le> 0x7ffff000"
  shows "step_host ab tree Rmmod_Req y = Inr ((- EAGAIN, []), y) \<and>
     step_host ab tree Rmmod_Core y = Inr ((- EAGAIN, []), y) \<and>
     (\<exists>y'. step_host ab tree (Unbind p) y = Inr ((0, []), y') \<and> fds7 (hsys y') fd = Some filp \<and>
        step_host ab tree (Sys (Call7 fd (Read (\<lambda>_. 0) n))) y' = Inl UseAfterFree)"
proof -
  note c = host_okD(5) [OF assms(2,3)]
  from file_ok7_opened [OF host_okD(2) [OF assms(2) c] assms(5)] assms(6) obtain a where
    i: "i < 8" and a: "bufp (slot (kern7 (hsys y)) i) = Some a"
    by (metis opened7_buf option.inject)
  from unbind_frees [OF assms(1-4,7,8) i a, of ab] obtain k where
    k: "step_host ab tree (Unbind p) y = Inr ((0, []), (set_kern k y)\<lparr>bus := Some (removeAll p b)\<rparr>)"
      "bufp (slot k i) = Some a" "heap k a = None" by blast
  have "chrdev_read7 (\<lambda>_. 0) k filp n (f_pos filp) = Inl UseAfterFree"
    by (rule read7_freed [OF assms(6) k(2,3) assms(9,10)]) (use assms(9,11) in simp)
  then have "step7 (Call7 fd (Read (\<lambda>_. 0) n)) ((hsys y)\<lparr>kern7 := k\<rparr>) = Inl UseAfterFree"
    using assms(5) by (simp add: with_file_def)
  then have "step_host ab tree (Sys (Call7 fd (Read (\<lambda>_. 0) n))) ((set_kern k y)\<lparr>bus := Some (removeAll p b)\<rparr>) =
      Inl UseAfterFree"
    by (simp add: syscall7_step7 del: syscall7.simps step7.simps)
  moreover have "fds7 (hsys ((set_kern k y)\<lparr>bus := Some (removeAll p b)\<rparr>)) fd = Some filp"
    using assms(5) by simp
  moreover have "refs y chrdev_req_ko \<noteq> 0 \<and> refs y chrdev_ko \<noteq> 0"
    using refs_none [OF host_okD(1) [OF assms(2)]] assms(5) by (auto simp: open_files_def)
  then have "step_host ab tree Rmmod_Req y = Inr ((- EAGAIN, []), y)"
    "step_host ab tree Rmmod_Core y = Inr ((- EAGAIN, []), y)"
    using c assms(3) by simp_all
  ultimately show ?thesis using k(1) by blast
qed

text \<open>The sample machine with the device open as descriptor 3.\<close>

lemma sample_host:
  obtains y filp where "host_ok sample_tree y" and "bus y = Some [0]" and "fds7 (hsys y) 3 = Some filp"
    and "private_data filp = Some 2" and "f_pos filp = 0"
    and "devices_of (kern7 (hsys y)) 2 = Some (label_array (cstr ''rtc''))"
proof -
  obtain r k0 where init: "chrdev_init7 init_env_ok (fresh7 start7) = (r, k0)"
    by (cases "chrdev_init7 init_env_ok (fresh7 start7)")
  have "released start7" by (simp add: released_def) (simp add: start7_def)
  moreover have "\<not> negative r" using init by (simp add: chrdev_init7_def init_env_ok_def Let_def)
  ultimately have k0: "host_inv k0" "\<And>i. devices_of k0 i = None"
    using insmod_core_init [OF _ init] by simp_all
  have good: "mem_env_good (sample_envs7 0 k0) k0" "mem_env_success (sample_envs7 0 k0) k0"
    using sample_envs7_good [of k0 0] k0(1) by (simp_all add: host_inv_def)
  have lbl: "is_cstr (cstr ''rtc'')" by simp
  from regh.register_succeeds [OF k0(1) lbl good, of 2 0 chrdev_req_ko 0] k0(2) obtain k where
    reg: "owned_by chrdev_req_ko chrdev_device_register7 (sample_envs7 0 k0) (cstr ''rtc'') 2 0 chrdev_req_ko 0 k0 = Inr (0, k)"
    by auto
  with regh.register_returns [OF k0(1) lbl good(1), of 2 0 chrdev_req_ko 0] have
    k: "host_inv k" "devices_of k = (\<lambda>_. None)(2 \<mapsto> label_array (cstr ''rtc''))"
    using k0(2) by (auto simp: fun_eq_iff split: if_splits)
  let ?filp = "\<lparr>private_data = Some 2, f_pos = 0\<rparr>"
  let ?y = "\<lparr>hsys = \<lparr>kern7 = k, fds7 = (\<lambda>_. None)(3 \<mapsto> ?filp)\<rparr>, core_in = True, bus = Some [0], refs = \<lambda>_. 1\<rparr>"
  have asked: "asked_by sample_tree 0 2 (label_array (cstr ''rtc''))"
    by (simp add: asked_by_def sample_tree_def)
  have "regh.bus_ok sample_tree (k, [0])"
    using k asked by (auto simp: regh.bus_ok_def sample_tree_def split: if_splits)
  moreover have "sys7_ok (hsys ?y)"
    using k asked_by_cstr [OF sample_tree_ok _ asked]
    by (auto simp: sys7_ok_def host_inv_def file_ok7_def sample_tree_def split: if_splits)
  moreover have "refs_ok ?y" by (simp add: refs_ok_def open_files_def)
  ultimately have "host_ok sample_tree ?y" using k(1) by (simp add: host_ok_def)
  then show thesis by (rule that [of ?y ?filp]) (simp_all add: k(2))
qed

theorem unbind_open_device_witness:
  "\<exists>y y'. host_ok sample_tree y \<and> step_host sample_absent sample_tree Rmmod_Req y = Inr ((- EAGAIN, []), y) \<and>
     step_host sample_absent sample_tree (Unbind 0) y = Inr ((0, []), y') \<and>
     step_host sample_absent sample_tree (Sys (Call7 3 (Read (\<lambda>_. 0) 1))) y' = Inl UseAfterFree"
proof -
  obtain y filp where y: "host_ok sample_tree y" "bus y = Some [0]" "fds7 (hsys y) 3 = Some filp"
    "private_data filp = Some 2" "f_pos filp = 0"
    "devices_of (kern7 (hsys y)) 2 = Some (label_array (cstr ''rtc''))" by (rule sample_host)
  have asked: "asked_by sample_tree 0 2 (label_array (cstr ''rtc''))"
    by (simp add: asked_by_def sample_tree_def)
  have "(0 :: nat) \<in> set [0]" "unat (f_pos filp) < 4096" "0 < unat (1 :: u64)" "unat (1 :: u64) \<le> 0x7ffff000"
    by (simp_all add: y(5))
  from unbind_open_device [OF sample_tree_ok y(1,2) this(1) y(3,4,6) asked this(2-4), of sample_absent] y(1)
  show ?thesis by blast
qed

end
