(* ===== verification/Chrdev4_System.thy ===== *)
theory Chrdev4_System
  imports File_Refine Step_System
begin

text \<open>
  The chapter 4 driver as a whole: registrations and open files in any order. The state pairs
  the driver with the kernel's table of open files; an operation is one entry into the driver.
  Well-formed states are those in which every open file refers to a slot that has a device and
  stands inside the buffer; operations keep them and never fault, as long as the device nodes
  can be created. The one way out of them, a failed \<open>device_create()\<close> on a slot that still has
  open files, is a property of its own.
\<close>

section \<open>States and operations\<close>

record sys4 =
  kern4 :: drv4
  fds4 :: "nat \<Rightarrow> ofile option"

datatype op4 =
    Op_Register reg_env "char list" u32 u32 nat nat
  | Op_Unregister "char list" u32
  | Op_Open nat nat                \<comment> \<open>descriptor, slot\<close>
  | Op_Close nat
  | Op_Call nat io_call

text \<open>
  The kernel opens a slot whose \<open>cdev\<close> is registered, and passes calls on descriptors in use
  only; otherwise it answers itself, here with \<open>-ENODEV\<close>.
\<close>

fun step4 :: "(drv4 \<times> ofile) seek_method \<Rightarrow> op4 \<Rightarrow> sys4 \<Rightarrow> fault + (io_answer \<times> sys4)" where
  "step4 sk (Op_Register e lbl ident ro owner parent) y =
     bindo (chrdev_device_register4 e lbl ident ro owner parent (kern4 y))
       (\<lambda>(r, k). Inr ((scast r, []), y\<lparr>kern4 := k\<rparr>))"
| "step4 sk (Op_Unregister lbl ident) y =
     bindo (chrdev_device_unregister4 lbl ident (kern4 y))
       (\<lambda>(r, k). Inr ((scast r, []), y\<lparr>kern4 := k\<rparr>))"
| "step4 sk (Op_Open fd i) y =
     (if fds4 y fd \<noteq> None \<or> i \<notin> live_cdevs (ktrace (kern4 y)) then Inr ((- ENODEV, []), y)
      else bindo (chrdev_open4 i \<lparr>private_data = None, f_pos = 0\<rparr> (kern4 y))
             (\<lambda>(r, filp, k). Inr ((scast r, []), y\<lparr>kern4 := k, fds4 := (fds4 y)(fd \<mapsto> filp)\<rparr>)))"
| "step4 sk (Op_Close fd) y =
     (case fds4 y fd of
        None \<Rightarrow> Inr ((- ENODEV, []), y)
      | Some filp \<Rightarrow>
          (case private_data filp of
             None \<Rightarrow> Inl BadPointer
           | Some i \<Rightarrow>
               bindo (chrdev_release4 i filp (kern4 y))
                 (\<lambda>(r, filp', k). Inr ((scast r, []), y\<lparr>kern4 := k, fds4 := (fds4 y)(fd := None)\<rparr>))))"
| "step4 sk (Op_Call fd c) y =
     (case fds4 y fd of
        None \<Rightarrow> Inr ((- ENODEV, []), y)
      | Some filp \<Rightarrow>
          bindo (dev_call rd4 wr4 sk c ((kern4 y, filp), f_pos filp))
            (\<lambda>(a, (k, filp'), pos).
               Inr (a, y\<lparr>kern4 := k, fds4 := (fds4 y)(fd \<mapsto> filp'\<lparr>f_pos := pos\<rparr>)\<rparr>)))"

abbreviation run4 :: "(drv4 \<times> ofile) seek_method \<Rightarrow> op4 list \<Rightarrow> sys4 \<Rightarrow> fault + (io_answer list \<times> sys4)" where
  "run4 sk \<equiv> run_steps (step4 sk)"

text \<open>
  Operations as they may come: labels terminated and of fewer than 32 characters, device nodes
  that can be created (adding the \<open>cdev\<close> may still fail), transfers the kernel allows; the
  driver has no \<open>llseek\<close>.
\<close>

fun op_ok4 :: "op4 \<Rightarrow> bool" where
  "op_ok4 (Op_Register e lbl ident ro owner parent) \<longleftrightarrow>
     is_cstr lbl \<and> length (str_of lbl) < 32 \<and> (\<exists>h. device_create_ret e = Inr h)"
| "op_ok4 (Op_Unregister lbl ident) \<longleftrightarrow> is_cstr lbl"
| "op_ok4 (Op_Call fd c) \<longleftrightarrow> call_ok c \<and> \<not> is_Seek c"
| "op_ok4 _ \<longleftrightarrow> True"

section \<open>Well-formed states\<close>

definition has_dev :: "drv4 \<Rightarrow> nat \<Rightarrow> bool" where
  "has_dev k i \<longleftrightarrow> (\<exists>h d. dev (slot k i) = Dev h d)"

definition fd_ok :: "drv4 \<Rightarrow> ofile \<Rightarrow> bool" where
  "fd_ok k filp \<longleftrightarrow>
     (\<exists>i < 8. private_data filp = Some i \<and> has_dev k i) \<and> unat (f_pos filp) \<le> 300"

definition sys4_ok :: "sys4 \<Rightarrow> bool" where
  "sys4_ok y \<longleftrightarrow> inv4 (kern4 y) \<and>
     (\<forall>i l. devices_of (kern4 y) i = Some l \<longrightarrow> is_cstr l) \<and>
     (\<forall>fd filp. fds4 y fd = Some filp \<longrightarrow> fd_ok (kern4 y) filp)"

lemma sys4_okD:
  assumes "sys4_ok y"
  shows "inv4 (kern4 y)" and "devices_of (kern4 y) i = Some l \<Longrightarrow> is_cstr l"
    and "fds4 y fd = Some filp \<Longrightarrow> fd_ok (kern4 y) filp"
  using assms by (auto simp: sys4_ok_def)

lemma fd_ok_mono:
  "fd_ok k filp \<Longrightarrow> (\<And>i. i < 8 \<Longrightarrow> has_dev k i \<Longrightarrow> has_dev k' i) \<Longrightarrow> fd_ok k' filp"
  by (auto simp: fd_ok_def)

text \<open>No operation takes the device away from a slot.\<close>

lemma register4_has_dev:
  assumes "chrdev_device_register4 e lbl ident ro owner parent k = Inr (r, k')"
    and "device_create_ret e = Inr h" and "length (chrdev_array k) = 8" and "i < 8"
    and "has_dev k i"
  shows "has_dev k' i"
  using assms
  by (auto simp: chrdev_device_register4_def has_dev_def Let_def bindo_Inr_iff device_create_def
      MAX_DEVICES_le upd_slot_twice split: if_splits)

lemma unregister4_has_dev:
  assumes "chrdev_device_unregister4 lbl ident k = Inr (r, k')"
    and "length (chrdev_array k) = 8" and "i < 8" and "has_dev k i"
  shows "has_dev k' i"
  using assms
  by (auto simp: chrdev_device_unregister4_def has_dev_def Let_def bindo_Inr_iff MAX_DEVICES_le
      split: if_splits dev_ptr.splits)

lemma inv4_call:
  assumes "inv4 k" and "cdev_effect c = id" and "device_effect c = id"
  shows "inv4 (call c k)" and "devices_of (call c k) = devices_of k"
  using assms registry_inv_frame [of k "call c k"] inv4_length [OF assms(1)]
  by (simp_all add: inv4_def)

lemma kobject_no_effect [simp]:
  "cdev_effect (Kobject_Get h) = id" "device_effect (Kobject_Get h) = id"
  "cdev_effect (Kobject_Put h) = id" "device_effect (Kobject_Put h) = id"
  by (simp_all add: fun_eq_iff)

section \<open>Operations keep well-formedness\<close>

lemma step4_register:
  assumes ok: "sys4_ok y" and p: "op_ok4 (Op_Register e lbl ident ro owner parent)"
  shows "\<exists>a y'. step4 sk (Op_Register e lbl ident ro owner parent) y = Inr (a, y') \<and> sys4_ok y'"
proof -
  note y = sys4_okD [OF ok]
  from p obtain h where lbl: "is_cstr lbl" "length (str_of lbl) < 32" and h: "device_create_ret e = Inr h"
    by auto
  then have "env_ok e" by (simp add: env_ok_def)
  from register4_returns [OF y(1) lbl(1) this, of ident ro owner parent] obtain r k where
    k: "chrdev_device_register4 e lbl ident ro owner parent (kern4 y) = Inr (r, k)" "inv4 k"
    and v: "devices_of k = (if r = 0 then (devices_of (kern4 y))(unat ident \<mapsto> label_array lbl)
                            else devices_of (kern4 y))"
    by (auto split: if_splits)
  have "fd_ok k filp" if "fds4 y fd = Some filp" for fd filp
    using y(3) [OF that] register4_has_dev [OF k(1) h inv4_length [OF y(1)]] by (rule fd_ok_mono)
  moreover have "is_cstr l" if "devices_of k i = Some l" for i l
    using that y(2) label_array_short(1) [OF lbl(2)] by (auto simp: v split: if_splits)
  ultimately show ?thesis
    using k by (simp add: sys4_ok_def)
qed

lemma step4_unregister:
  assumes ok: "sys4_ok y" and "is_cstr lbl"
  shows "\<exists>a y'. step4 sk (Op_Unregister lbl ident) y = Inr (a, y') \<and> sys4_ok y'"
proof -
  note y = sys4_okD [OF ok]
  from unregister4_returns [OF y(1) assms(2), of ident] y(2) obtain r k where
    k: "chrdev_device_unregister4 lbl ident (kern4 y) = Inr (r, k)" "inv4 k"
    and v: "devices_of k = (if r = 0 then (devices_of (kern4 y))(unat ident := None) else devices_of (kern4 y))"
    by (auto split: if_splits)
  have "fd_ok k filp" if "fds4 y fd = Some filp" for fd filp
    using y(3) [OF that] unregister4_has_dev [OF k(1) inv4_length [OF y(1)]] by (rule fd_ok_mono)
  moreover have "is_cstr l" if "devices_of k i = Some l" for i l
    using that y(2) by (auto simp: v split: if_splits)
  ultimately show ?thesis
    using k by (simp add: sys4_ok_def)
qed

lemma sys4_ok_kobject:
  assumes "sys4_ok y" and "\<And>fd f. fds fd = Some f \<Longrightarrow> fd_ok (kern4 y) f"
    and "c = Kobject_Get h \<or> c = Kobject_Put h"
  shows "sys4_ok (y\<lparr>kern4 := call c (kern4 y), fds4 := fds\<rparr>)"
  using assms inv4_call [OF sys4_okD(1) [OF assms(1)], of c] sys4_okD(2) [OF assms(1)]
  by (auto simp: sys4_ok_def fd_ok_def has_dev_def)

lemma step4_open:
  assumes ok: "sys4_ok y"
  shows "\<exists>a y'. step4 sk (Op_Open fd i) y = Inr (a, y') \<and> sys4_ok y'"
proof (cases "fds4 y fd \<noteq> None \<or> i \<notin> live_cdevs (ktrace (kern4 y))")
  case True
  with ok show ?thesis by simp
next
  case False
  note y = sys4_okD [OF ok]
  have r: "registry_inv (kern4 y)" using y(1) by (simp add: inv4_def)
  with False have i: "i < 8" "busy (slot (kern4 y) i)"
    by (auto simp: registry_invD(3) busy_ids_def)
  then obtain h d where d: "dev (slot (kern4 y) i) = Dev h d"
    using registry_invD(2) [OF r i(1)] by (auto simp: slot_ok_def)
  have "fd_ok (kern4 y) \<lparr>private_data = Some i, f_pos = 0\<rparr>"
    using i(1) d by (auto simp: fd_ok_def has_dev_def)
  then have "sys4_ok (y\<lparr>kern4 := call (Kobject_Get h) (kern4 y),
      fds4 := (fds4 y)(fd \<mapsto> \<lparr>private_data = Some i, f_pos = 0\<rparr>)\<rparr>)"
    by (intro sys4_ok_kobject [OF ok]) (auto simp: y(3) split: if_splits)
  with False d show ?thesis by (simp add: chrdev_open4_def)
qed

lemma step4_close:
  assumes ok: "sys4_ok y"
  shows "\<exists>a y'. step4 sk (Op_Close fd) y = Inr (a, y') \<and> sys4_ok y'"
proof (cases "fds4 y fd")
  case None
  with ok show ?thesis by simp
next
  case (Some filp)
  note y = sys4_okD [OF ok]
  from y(3) [OF Some] obtain i h d where i: "private_data filp = Some i" "dev (slot (kern4 y) i) = Dev h d"
    by (auto simp: fd_ok_def has_dev_def)
  have "sys4_ok (y\<lparr>kern4 := call (Kobject_Put h) (kern4 y), fds4 := (fds4 y)(fd := None)\<rparr>)"
    by (intro sys4_ok_kobject [OF ok]) (auto simp: y(3) split: if_splits)
  with Some i show ?thesis by (simp add: chrdev_release4_def)
qed

lemma step4_call:
  assumes ok: "sys4_ok y" and p: "op_ok4 (Op_Call fd c)"
  shows "\<exists>a y'. step4 sk (Op_Call fd c) y = Inr (a, y') \<and> sys4_ok y'"
proof (cases "fds4 y fd")
  case None
  with ok show ?thesis by simp
next
  case (Some filp)
  note y = sys4_okD [OF ok]
  note f = y(3) [OF Some]
  let ?k = "kern4 y" and ?pos = "f_pos filp"
  from f obtain i where i: "i < 8" "private_data filp = Some i" "has_dev ?k i" and pos: "unat ?pos \<le> 300"
    by (auto simp: fd_ok_def)
  have op: "opened4 (?k, filp)" using y(1) i by (auto simp: opened4_def)
  have io: "io_ok BUF_LEN4 ?pos n g" if "call_ok (Read g n)" for g n
    using that pos by (intro io4.call_io_ok) simp_all
  have adv: "unat (?pos + of_nat (moved BUF_LEN4 ?pos n)) \<le> 300" for n
    using unat_add_moved [of ?pos BUF_LEN4 n] moved_fits [of ?pos BUF_LEN4 n] pos by simp
  have go: ?thesis
    if "dev_call rd4 wr4 sk c ((?k, filp), ?pos) = Inr (a, (k, filp), pos')"
      and "inv4 k" and "devices_of k = devices_of ?k" and "\<And>j. j < 8 \<Longrightarrow> has_dev k j = has_dev ?k j"
      and "unat pos' \<le> 300" for a k pos'
  proof -
    have "fd_ok k g" if "((fds4 y)(fd \<mapsto> filp\<lparr>f_pos := pos'\<rparr>)) fd' = Some g" for fd' g
      using that \<open>unat pos' \<le> 300\<close> y(3) [of fd'] i
      by (auto simp: fd_ok_def \<open>\<And>j. j < 8 \<Longrightarrow> has_dev k j = has_dev ?k j\<close> split: if_splits)
    then show ?thesis
      using that(1-3) Some y(2) by (simp add: sys4_ok_def)
  qed
  show ?thesis
  proof (cases c)
    case (Read g n)
    with p have "io_ok BUF_LEN4 ?pos n g" using io by simp
    from read4_result [OF op this] show ?thesis
      by (intro go [OF _ y(1) refl refl adv]) (simp add: Read)
  next
    case (Write g usr n)
    with p have io: "io_ok BUF_LEN4 ?pos n g" using io by simp
    show ?thesis
    proof (cases "writable4 (?k, filp)")
      case True
      let ?m = "moved BUF_LEN4 ?pos n"
      let ?b = "take (unat ?pos) (contents4 (?k, filp)) @ from_user usr ?m (unat (g (of_nat ?m))) @
                drop (unat ?pos + ?m) (contents4 (?k, filp))"
      note w = write4_result [OF op True io i(2) refl refl, of usr]
      have "length ?b = 300"
        using moved_fits [of ?pos BUF_LEN4 n] pos io4.contents_length [OF op] by simp
      note st = inv4_store [OF y(1) i(1) this]
      have "has_dev (upd_slot i (\<lambda>d. d\<lparr>buf4 := ?b\<rparr>) ?k) j = has_dev ?k j" if "j < 8" for j
        using that i(1) inv4_length [OF y(1)] by (simp add: has_dev_def)
      then show ?thesis
        by (intro go [OF _ st _ adv]) (simp_all add: Write w(1))
    next
      case False
      then have "read_only (slot ?k i) \<noteq> 0" using i(2) by (simp add: writable4_def)
      then show ?thesis
        by (intro go [OF _ y(1) refl refl pos]) (simp add: Write chrdev_write4_def i(2))
    qed
  qed (use p in simp)
qed

lemma step4_keeps:
  assumes "sys4_ok y" and "op_ok4 p"
  shows "\<exists>a y'. step4 sk p y = Inr (a, y') \<and> sys4_ok y'"
  using assms step4_register step4_unregister step4_open step4_close step4_call
  by (cases p) (simp_all only: op_ok4.simps)

interpretation s4: step_system "step4 sk" sys4_ok "\<lambda>_. op_ok4" for sk
  by unfold_locales (rule step4_keeps)

section \<open>Properties\<close>

definition boot4 :: "drv4 \<Rightarrow> sys4" where
  "boot4 k = \<lparr>kern4 = k, fds4 = \<lambda>_. None\<rparr>"

lemma boot4_ok:
  assumes "chrdev_init4 e start4 = (0, k)"
  shows "sys4_ok (boot4 k)"
  using init4_start_inv [OF assms] by (auto simp: sys4_ok_def boot4_def)


text \<open>A failed registration breaks open files: if a device that is open is unregistered, and registering
  its slot again then fails in \<open>device_create()\<close>, closing the file uses the error pointer the failure
  left in the slot.\<close>

lemma failed_register4_breaks_close:
  assumes "inv4 (kern4 y)" and "fds4 y fd = Some filp" and "private_data filp = Some (unat ident)"
    and "unat ident < 8" and "\<not> busy (slot (kern4 y) (unat ident))" and "is_cstr lbl"
    and "cdev_add_ret e = 0" and "device_create_ret e = Inl err"
  shows "run4 sk [Op_Register e lbl ident ro owner parent, Op_Close fd] y = Inl BadPointer"
proof -
  let ?k = "kern4 y" and ?i = "unat ident"
  from register4_branches(4) [OF assms(6) inv4_length [OF assms(1)] assms(4,5,7,8)]
  obtain name where "chrdev_device_register4 e lbl ident ro owner parent ?k =
      Inr (err, call (Cdev_Del ?i)
             (call (Device_Create parent (MKDEV (MAJOR (chrdev_devt ?k)) ident) name (ErrDev err))
               (upd_slot ?i (\<lambda>c. c\<lparr>dev := ErrDev err\<rparr>)
                 (call (Cdev_Add ?i (MKDEV (MAJOR (chrdev_devt ?k)) ident) 0)
                   (call (Cdev_Init ?i owner) ?k)))))" by blast
  then show ?thesis
    using assms(2-4) inv4_length [OF assms(1)] by (simp add: chrdev_release4_def)
qed

lemma failed_register4_breaks_close_witness:
  "run4 (\<lambda>_ p _ _. (p, p))
     [Op_Unregister (cstr ''a'') 0,
      Op_Register \<lparr>cdev_add_ret = 0, device_create_ret = Inl (- 12)\<rparr> (cstr ''b'') 0 0 1 2, Op_Close 3]
     \<lparr>kern4 = sample4, fds4 = [3 \<mapsto> sample_file]\<rparr> = Inl BadPointer"
proof -
  have view: "devices_of sample4 (unat 0) = Some (label_array (cstr ''a''))"
    by (simp add: devices_of_def sample4_slot)
  have a: "str_of (cstr ''a'') = ''a''" by (rule str_of_cstr) (simp add: NUL_def)
  then have short: "is_cstr (label_array (cstr ''a''))" "str_of (label_array (cstr ''a'')) = ''a''"
    using label_array_short [of "cstr ''a''"] by simp_all
  from unregister4_returns [OF sample4_inv is_cstr_cstr, of 0 "''a''"] view short a
  obtain r k where k: "chrdev_device_unregister4 (cstr ''a'') 0 sample4 = Inr (r, k)" "inv4 k"
    "devices_of k 0 = None"
    by (auto simp: names_def split: if_splits)
  then have "\<not> busy (slot k (unat 0))" by (simp add: devices_of_busy)
  with k failed_register4_breaks_close [of "\<lparr>kern4 = k, fds4 = [3 \<mapsto> sample_file]\<rparr>" 3 sample_file 0
      "cstr ''b''" "\<lparr>cdev_add_ret = 0, device_create_ret = Inl (- 12)\<rparr>"]
  show ?thesis by (simp add: sample_file_def)
qed


end
