(* ===== verification/Reg_Race.thy ===== *)
theory Reg_Race
  imports Chrdev7 Step_System
begin

text \<open>
  \<^verbatim>\<open>chrdev_device_register()\<close> of \<^verbatim>\<open>Chapter07/chrdev/chrdev.c\<close> takes no lock. Here it is cut
  into the parts between which another thread may run, one for each call of the kernel and the
  accesses that go with it: run without interruption they are the function of \<^verbatim>\<open>Chrdev7\<close>,
  interleaved with a second registration of the same device they are not.
\<close>

section \<open>The parts of a registration\<close>

record reg_args =
  r_env :: reg_env_mem
  r_label :: "char list"
  r_id :: u32
  r_ro :: u32
  r_owner :: nat
  r_parent :: nat

datatype reg_pc =
    Reg_Start
  | Reg_Free               \<comment> \<open>found not busy\<close>
  | Reg_Buffer             \<comment> \<open>buffer allocated\<close>
  | Reg_Added              \<comment> \<open>\<open>cdev\<close> added\<close>
  | Reg_Created            \<comment> \<open>device node created\<close>
  | Reg_Del_Cdev s32       \<comment> \<open>at label \<open>del_cdev\<close>, with \<open>ret\<close>\<close>
  | Reg_Kfree_Buf s32      \<comment> \<open>at label \<open>kfree_buf\<close>, with \<open>ret\<close>\<close>
  | Reg_Done s32

fun reg_step :: "reg_args \<Rightarrow> reg_pc \<Rightarrow> drv7 \<Rightarrow> fault + (reg_pc \<times> drv7)" where
  "reg_step A Reg_Start s =
     (if MAX_DEVICES \<le> r_id A then Inr (Reg_Done (- EINVAL), s)
      else if busy (slot s (unat (r_id A))) then Inr (Reg_Done (- EBUSY), s)
      else Inr (Reg_Free, s))"
| "reg_step A Reg_Free s =
     (let i = unat (r_id A); p = kzalloc_ret (r_env A);
          s = call (Kzalloc (unat BUF_LEN7) p) (upd_slot i (\<lambda>c. c\<lparr>bufp := p\<rparr>) s)
      in case p of
           None \<Rightarrow> bindo (dev_print (ktrace s) (dev (slot s i))) (\<lambda>_. Inr (Reg_Done (- ENOMEM), s))
         | Some a \<Rightarrow> Inr (Reg_Buffer, s\<lparr>heap := (heap s)(a \<mapsto> replicate (unat BUF_LEN7) 0)\<rparr>))"
| "reg_step A Reg_Buffer s =
     (let i = unat (r_id A);
          s = call (Cdev_Init i (r_owner A)) s;
          ret = cdev_add_ret (r_env A);
          s = call (Cdev_Add i (MKDEV (MAJOR (chrdev_devt s)) (r_id A)) ret) s
      in Inr (if ret \<noteq> 0 then Reg_Kfree_Buf ret else Reg_Added, s))"
| "reg_step A Reg_Added s =
     (let i = unat (r_id A); devt = MKDEV (MAJOR (chrdev_devt s)) (r_id A)
      in bindo (node_name (r_label A) (r_id A)) (\<lambda>name.
           let d = device_create (r_env A) devt;
               s = call (Device_Create (r_parent A) devt name d) (upd_slot i (\<lambda>c. c\<lparr>dev := d\<rparr>) s)
           in Inr (case d of ErrDev err \<Rightarrow> Reg_Del_Cdev err | _ \<Rightarrow> Reg_Created, s)))"
| "reg_step A Reg_Created s =
     bindo (strncpy (r_label A) NAME_LEN) (\<lambda>l.
       Inr (Reg_Done 0, upd_slot (unat (r_id A))
         (\<lambda>c. c\<lparr>devid := r_id A, read_only := r_ro A, busy := True, label := l\<rparr>) s))"
| "reg_step A (Reg_Del_Cdev ret) s = Inr (Reg_Kfree_Buf ret, call (Cdev_Del (unat (r_id A))) s)"
| "reg_step A (Reg_Kfree_Buf ret) s =
     bindo (kfree (bufp (slot s (unat (r_id A)))) s) (\<lambda>s. Inr (Reg_Done ret, s))"
| "reg_step A (Reg_Done ret) s = Inr (Reg_Done ret, s)"

text \<open>How many parts are left at most.\<close>

fun parts_left :: "reg_pc \<Rightarrow> nat" where
  "parts_left Reg_Start = 6"
| "parts_left Reg_Free = 5"
| "parts_left Reg_Buffer = 4"
| "parts_left Reg_Added = 3"
| "parts_left Reg_Created = 1"
| "parts_left (Reg_Del_Cdev ret) = 2"
| "parts_left (Reg_Kfree_Buf ret) = 1"
| "parts_left (Reg_Done ret) = 0"

lemma reg_step_shrinks:
  "reg_step A p s = Inr (p', s') \<Longrightarrow> parts_left p \<noteq> 0 \<Longrightarrow> parts_left p' < parts_left p"
  by (cases p) (auto simp: Let_def bindo_Inr_iff split: if_splits option.splits dev_ptr.splits)

text \<open>A registration run to its end without interruption.\<close>

function reg_exec :: "reg_args \<Rightarrow> reg_pc \<Rightarrow> drv7 \<Rightarrow> fault + (s32 \<times> drv7)" where
  "reg_exec A p s =
     (case p of
        Reg_Done ret \<Rightarrow> Inr (ret, s)
      | _ \<Rightarrow> bindo (reg_step A p s) (\<lambda>(p', s'). reg_exec A p' s'))"
  by pat_completeness auto

termination reg_exec
  by (relation "measure (\<lambda>(A, p, s). parts_left p)") (auto simp del: reg_step.simps dest!: reg_step_shrinks)

declare reg_exec.simps [simp del]

lemma reg_exec_done [simp]: "reg_exec A (Reg_Done ret) s = Inr (ret, s)"
  by (simp add: reg_exec.simps)

lemma reg_exec_step:
  "parts_left p \<noteq> 0 \<Longrightarrow> reg_exec A p s = bindo (reg_step A p s) (\<lambda>(p', s'). reg_exec A p' s')"
  by (subst reg_exec.simps) (cases p; simp)


section \<open>Threads\<close>

text \<open>\<open>A\<close> gives the arguments of each thread's call.\<close>

abbreviation reg_race :: "(nat \<Rightarrow> reg_args) \<Rightarrow> drv7 \<times> (nat \<Rightarrow> reg_pc) \<Rightarrow> drv7 \<times> (nat \<Rightarrow> reg_pc) \<Rightarrow> bool" where
  "reg_race A \<equiv> interleaved (\<lambda>t. reg_step (A t)) (\<lambda>p. parts_left p \<noteq> 0)"

lemma reg_part:
  "parts_left (pcs t) \<noteq> 0 \<Longrightarrow> reg_step (A t) (pcs t) s = Inr (p, s') \<Longrightarrow> reg_race A (s, pcs) (s', pcs(t := p))"
  by (rule part) simp_all

text \<open>A thread may always go on alone to its end.\<close>

lemma reg_race_exec:
  assumes "reg_exec (A t) (pcs t) s = Inr (ret, s')"
  shows "(reg_race A)\<^sup>*\<^sup>* (s, pcs) (s', pcs(t := Reg_Done ret))"
  using assms
proof (induction "parts_left (pcs t)" arbitrary: pcs s rule: less_induct)
  case less
  show ?case
  proof (cases "parts_left (pcs t) = 0")
    case True
    then obtain r where "pcs t = Reg_Done r" by (cases "pcs t") auto
    with less.prems have "s' = s" "pcs(t := Reg_Done ret) = pcs" by (auto simp: fun_eq_iff)
    then show ?thesis by simp
  next
    case False
    with less.prems obtain p u where
      u: "reg_step (A t) (pcs t) s = Inr (p, u)" "reg_exec (A t) p u = Inr (ret, s')"
      by (auto simp: reg_exec_step bindo_Inr_iff)
    have "(reg_race A)\<^sup>*\<^sup>* (u, pcs(t := p)) (s', (pcs(t := p))(t := Reg_Done ret))"
      using reg_step_shrinks [OF u(1) False] u(2) by (intro less.hyps) simp_all
    moreover have "reg_race A (s, pcs) (u, pcs(t := p))"
      using reg_part [of pcs t A s p u] False u(1) by blast
    ultimately show ?thesis by (simp add: converse_rtranclp_into_rtranclp)
  qed
qed

text \<open>The rest of a registration that has found its slot free, when the kernel grants everything, and when
  the device node cannot be created.\<close>

lemma exec_rest_success:
  assumes "length (chrdev_array s) = 8" and "unat (r_id A) < 8" and "is_cstr (r_label A)"
    and "kzalloc_ret (r_env A) = Some a" and "cdev_add_ret (r_env A) = 0"
    and "device_create_ret (r_env A) = Inr h"
  shows "\<exists>s'. reg_exec A Reg_Free s = Inr (0, s') \<and> length (chrdev_array s') = 8 \<and>
     heap s' = (heap s)(a \<mapsto> replicate 4096 0) \<and> busy (slot s' (unat (r_id A))) \<and>
     (\<forall>j < 8. j \<noteq> unat (r_id A) \<longrightarrow> slot s' j = slot s j)"
  using assms
  by (simp add: reg_exec_step Let_def node_name_def device_create_def
      strncpy_label [unfolded NAME_LEN_nat])

lemma exec_rest_failure:
  assumes "length (chrdev_array s) = 8" and "unat (r_id A) < 8" and "is_cstr (r_label A)"
    and "kzalloc_ret (r_env A) = Some b" and "cdev_add_ret (r_env A) = 0"
    and "device_create_ret (r_env A) = Inl err"
  shows "\<exists>s'. reg_exec A Reg_Free s = Inr (err, s') \<and>
     heap s' = (heap s)(b := None) \<and> busy (slot s' (unat (r_id A))) = busy (slot s (unat (r_id A))) \<and>
     bufp (slot s' (unat (r_id A))) = Some b \<and> dev (slot s' (unat (r_id A))) = ErrDev err \<and>
     unat (r_id A) \<notin> live_cdevs (ktrace s') \<and>
     (\<forall>j < 8. j \<noteq> unat (r_id A) \<longrightarrow> slot s' j = slot s j)"
  using assms
  by (auto simp: reg_exec_step Let_def node_name_def device_create_def kfree_def)

text \<open>C33: two registrations of one device may both find it free. If the second cannot create the device node,
  because the first has created it, its error path takes the first one's device apart, although the first
  call has returned 0 and the slot is marked busy: the slot is left with the freed buffer of the second
  call and its error pointer, the \<open>cdev\<close> is gone, and the buffer of the first call is allocated but
  no registered device has it.\<close>

theorem register7_race:
  assumes "mem_inv s" and "unat ident < 8" and "\<not> busy (slot s (unat ident))"
    and "r_id (A 0) = ident" and "r_id (A 1) = ident"
    and "is_cstr (r_label (A 0))" and "is_cstr (r_label (A 1))"
    and "kzalloc_ret (r_env (A 0)) = Some a" and "kzalloc_ret (r_env (A 1)) = Some b"
    and "heap s a = None" and "heap s b = None" and "a \<noteq> b"
    and "cdev_add_ret (r_env (A 0)) = 0" and "cdev_add_ret (r_env (A 1)) = 0"
    and "device_create_ret (r_env (A 0)) = Inr h" and "device_create_ret (r_env (A 1)) = Inl err"
  shows "\<exists>s' pcs. (reg_race A)\<^sup>*\<^sup>* (s, \<lambda>_. Reg_Start) (s', pcs) \<and> pcs 0 = Reg_Done 0 \<and> pcs 1 = Reg_Done err \<and>
     busy (slot s' (unat ident)) \<and> bufp (slot s' (unat ident)) = Some b \<and> heap s' b = None \<and>
     dev (slot s' (unat ident)) = ErrDev err \<and> unat ident \<notin> live_cdevs (ktrace s') \<and>
     heap s' a \<noteq> None \<and> (\<forall>j < 8. busy (slot s' j) \<longrightarrow> bufp (slot s' j) \<noteq> Some a)"
proof -
  let ?i = "unat ident"
  have len: "length (chrdev_array s) = 8" by (rule mem_inv_length [OF assms(1)])
  have free: "reg_step (A t) Reg_Start s = Inr (Reg_Free, s)" if "r_id (A t) = ident" for t
    using that assms(2,3) by (simp add: MAX_DEVICES_le)
  let ?p0 = "\<lambda>_ :: nat. Reg_Start" let ?p1 = "?p0(0 := Reg_Free)" let ?p2 = "?p1(1 := Reg_Free)"
  have "reg_race A (s, ?p0) (s, ?p1)" using reg_part [of ?p0 0 A s] free [OF assms(4)] by simp
  moreover have "reg_race A (s, ?p1) (s, ?p2)" using reg_part [of ?p1 1 A s] free [OF assms(5)] by simp
  ultimately have start: "(reg_race A)\<^sup>*\<^sup>* (s, ?p0) (s, ?p2)"
    by (meson converse_rtranclp_into_rtranclp rtranclp.rtrancl_refl)
  obtain s1 where s1: "reg_exec (A 0) Reg_Free s = Inr (0, s1)" "length (chrdev_array s1) = 8"
    "heap s1 = (heap s)(a \<mapsto> replicate 4096 0)" "busy (slot s1 ?i)" "\<forall>j < 8. j \<noteq> ?i \<longrightarrow> slot s1 j = slot s j"
    using exec_rest_success [OF len, of "A 0" a h] assms(2,4,6,8,13,15) by auto
  obtain s2 where s2: "reg_exec (A 1) Reg_Free s1 = Inr (err, s2)" "heap s2 = (heap s1)(b := None)"
    "busy (slot s2 ?i) = busy (slot s1 ?i)" "bufp (slot s2 ?i) = Some b" "dev (slot s2 ?i) = ErrDev err"
    "?i \<notin> live_cdevs (ktrace s2)" "\<forall>j < 8. j \<noteq> ?i \<longrightarrow> slot s2 j = slot s1 j"
    using exec_rest_failure [OF s1(2), of "A 1" b err] assms(2,5,7,9,14,16) by auto
  let ?p3 = "?p2(0 := Reg_Done 0)" let ?p4 = "?p3(1 := Reg_Done err)"
  have "(reg_race A)\<^sup>*\<^sup>* (s, ?p2) (s1, ?p3)"
    by (rule reg_race_exec) (simp add: s1(1))
  moreover have "(reg_race A)\<^sup>*\<^sup>* (s1, ?p3) (s2, ?p4)"
    by (rule reg_race_exec) (use s2(1) in simp)
  ultimately have run: "(reg_race A)\<^sup>*\<^sup>* (s, ?p0) (s2, ?p4)"
    using start by (meson rtranclp_trans)
  have "bufp (slot s2 j) \<noteq> Some a" if "j < 8" "busy (slot s2 j)" for j
  proof (cases "j = ?i")
    case True
    then show ?thesis using s2(4) assms(12) by simp
  next
    case False
    then have "slot s2 j = slot s j" using that(1) s1(5) s2(7) by simp
    moreover have "heap_inv s" using assms(1) by (simp add: mem_inv_def)
    ultimately show ?thesis
      using that heap_invD(2) [of s a] assms(10) by (auto simp: buf_owner_def)
  qed
  moreover have "heap s2 b = None" "heap s2 a \<noteq> None" "busy (slot s2 ?i)"
    using s1(3,4) s2(2,3) assms(12) by auto
  moreover have "?p4 0 = Reg_Done 0" "?p4 1 = Reg_Done err" by simp_all
  ultimately show ?thesis using run s2(4-6) by blast
qed

theorem register7_race_witness:
  "\<exists>s' pcs. (reg_race (\<lambda>t. \<lparr>r_env = if t = 0 then sample_env7
                else sample_env7\<lparr>kzalloc_ret := Some 200, device_create_ret := Inl (- 17)\<rparr>,
              r_label = cstr ''a'', r_id = 3, r_ro = 0, r_owner = 1, r_parent = 2\<rparr>))\<^sup>*\<^sup>*
       (start7, \<lambda>_. Reg_Start) (s', pcs) \<and>
     pcs 0 = Reg_Done 0 \<and> busy (slot s' 3) \<and> bufp (slot s' 3) = Some 200 \<and> heap s' 200 = None"
proof -
  let ?A = "\<lambda>t :: nat. \<lparr>r_env = if t = 0 then sample_env7
                else sample_env7\<lparr>kzalloc_ret := Some 200, device_create_ret := Inl (- 17)\<rparr>,
              r_label = cstr ''a'', r_id = 3, r_ro = 0, r_owner = 1, r_parent = 2\<rparr>"
  have "\<not> busy (slot start7 3)" "heap start7 a = None" for a
    by (simp_all add: start7_free zero_dev7_def) (simp add: start7_def)
  with register7_race [OF mem_inv_start7, of 3 ?A 100 200 7 "- 17"] show ?thesis
    by (simp add: sample_env7_def) blast
qed

end
