(* ===== verification/Io_Race.thy ===== *)
theory Io_Race
  imports Chrdev7 Step_System
begin

text \<open>
  \<open>read\<close>, \<open>write\<close> and the \<open>ioctl\<close> that changes the access mode of \<^verbatim>\<open>Chapter07/chrdev/chrdev.c\<close>
  take no lock, so that calls on several open files of one device run side by side. Here they are
  cut into parts: the checks, each byte of a copy to or from user space (a copy may stop at any byte,
  since the page of the user that holds the next one may have to be brought in), and the return. Run
  without interruption the parts are the functions of \<^verbatim>\<open>Chrdev7\<close>.
\<close>

section \<open>The parts of a call\<close>

text \<open>
  The fields of a copy: the position of the call, the count, what will be left uncopied, the pointer
  \<open>chrdev->buf\<close>, what remains to be copied, where, and for a read what the user has received.
\<close>

datatype io_pc =
    Wr_Start copy_fun "byte list" u64 s64
  | Wr_Copy s64 u64 u64 "nat option" "byte list" nat
  | Rd_Start copy_fun u64 s64
  | Rd_Copy s64 u64 u64 "nat option" nat nat "byte list"
  | Set_Rdonly "s32 option"
  | Io_Done s64 s64 "byte list"     \<comment> \<open>answer, new position, bytes for the user\<close>

fun io_step :: "nat \<Rightarrow> io_pc \<Rightarrow> drv7 \<Rightarrow> fault + (io_pc \<times> drv7)" where
  "io_step i (Wr_Start f usr count pos) s =
     (if read_only (slot s i) \<noteq> 0 then Inr (Io_Done (- EINVAL) pos [], s)
      else
        let count = clamp_count BUF_LEN7 pos count; left = f count
        in Inr (Wr_Copy pos count left (bufp (slot s i)) (from_user usr (unat count) (unat left)) (unat pos), s))"
| "io_step i (Wr_Copy pos count left p [] at) s =
     Inr (if negative (ucast left :: s32) then Io_Done (- EFAULT) pos [] else Io_Done count (pos + count) [], s)"
| "io_step i (Wr_Copy pos count left p (d # ds) at) s =
     bindo (load_buf s p) (\<lambda>b. bindo (mem_write b at [d]) (\<lambda>b'.
       Inr (Wr_Copy pos count left p ds (Suc at), store_buf p b' s)))"
| "io_step i (Rd_Start f count pos) s =
     (let count = clamp_count BUF_LEN7 pos count; left = f count
      in Inr (Rd_Copy pos count left (bufp (slot s i)) (unat count - unat left) (unat pos) [], s))"
| "io_step i (Rd_Copy pos count left p 0 at got) s =
     Inr (if negative (ucast left :: s32) then Io_Done (- EFAULT) pos got else Io_Done count (pos + count) got, s)"
| "io_step i (Rd_Copy pos count left p (Suc n) at got) s =
     bindo (load_buf s p) (\<lambda>b. bindo (mem_read b at 1) (\<lambda>x.
       Inr (Rd_Copy pos count left p n (Suc at) (got @ x), s)))"
| "io_step i (Set_Rdonly v) s =
     bindo (chrdev_ioctl (\<lambda>_. 0) v s \<lparr>private_data = Some i, f_pos = 0\<rparr> WDIOC_SET_RDONLY)
       (\<lambda>(r, out, s'). Inr (Io_Done r 0 out, s'))"
| "io_step i (Io_Done r pos out) s = Inr (Io_Done r pos out, s)"

fun io_live :: "io_pc \<Rightarrow> bool" where
  "io_live (Io_Done r pos out) = False"
| "io_live p = True"

text \<open>What is left: the stage of the call, and in a copy the number of bytes.\<close>

fun io_left :: "io_pc \<Rightarrow> nat \<times> nat" where
  "io_left (Wr_Start f usr count pos) = (2, 0)"
| "io_left (Wr_Copy pos count left p ds at) = (1, length ds)"
| "io_left (Rd_Start f count pos) = (2, 0)"
| "io_left (Rd_Copy pos count left p n at got) = (1, n)"
| "io_left (Set_Rdonly v) = (1, 0)"
| "io_left (Io_Done r pos out) = (0, 0)"

lemma io_step_shrinks:
  "io_step i p s = Inr (p', s') \<Longrightarrow> io_live p \<Longrightarrow> (io_left p', io_left p) \<in> less_than <*lex*> less_than"
  by (cases "(i, p, s)" rule: io_step.cases) (auto simp: Let_def bindo_Inr_iff split: if_splits)

text \<open>A call run to its end without interruption.\<close>

function io_exec :: "nat \<Rightarrow> io_pc \<Rightarrow> drv7 \<Rightarrow> fault + (s64 \<times> s64 \<times> byte list \<times> drv7)" where
  "io_exec i p s =
     (case p of
        Io_Done r pos out \<Rightarrow> Inr (r, pos, out, s)
      | _ \<Rightarrow> bindo (io_step i p s) (\<lambda>(p', s'). io_exec i p' s'))"
  by pat_completeness auto

termination io_exec
  by (relation "inv_image (less_than <*lex*> less_than) (\<lambda>(i, p, s). io_left p)")
    (auto simp del: io_step.simps dest!: io_step_shrinks)

declare io_exec.simps [simp del]

lemma io_exec_done [simp]: "io_exec i (Io_Done r pos out) s = Inr (r, pos, out, s)"
  by (simp add: io_exec.simps)

lemma io_exec_step:
  "io_live p \<Longrightarrow> io_exec i p s = bindo (io_step i p s) (\<lambda>(p', s'). io_exec i p' s')"
  by (subst io_exec.simps) (cases p; simp)

section \<open>Byte by byte is all at once\<close>

lemma mem_write_one: "mem_write b at [d] = (if at < length b then Inr (b[at := d]) else Inl OutOfBounds)"
  by (simp add: mem_write_def upd_conv_take_nth_drop)

lemma mem_read_one: "mem_read b at 1 = (if at < length b then Inr [b ! at] else Inl OutOfBounds)"
  by (auto simp: mem_read_def take_Suc_conv_app_nth hd_drop_conv_nth take_Suc)

lemma load_store [simp]: "p = Some a \<Longrightarrow> load_buf (store_buf p b s) p = Inr b"
  by (simp add: load_buf_def store_buf_def)

lemma store_store [simp]: "store_buf p c (store_buf p b s) = store_buf p c s"
  by (simp add: store_buf_def split: option.split)

lemma mem_write_Cons:
  "mem_write b at (d # ds) = bindo (mem_write b at [d]) (\<lambda>b'. mem_write b' (Suc at) ds)"
proof (cases "at + length (d # ds) \<le> length b")
  case True
  then have "at < length b" by simp
  then have "take (Suc at) (b[at := d]) = take at b @ [d]" "drop (Suc at + length ds) (b[at := d]) = drop (Suc at + length ds) b"
    by (simp_all add: take_Suc_conv_app_nth)
  with True show ?thesis
    by (auto simp: mem_write_one) (auto simp: mem_write_def upd_conv_take_nth_drop ac_simps)
next
  case False
  then show ?thesis
    by (cases "ds = []") (auto simp: mem_write_one mem_write_def)
qed

lemma write_bytes:
  assumes "load_buf s p = Inr b" and "ds \<noteq> []"
  shows "io_exec i (Wr_Copy pos count left p ds at) s =
    bindo (mem_write b at ds) (\<lambda>b'.
      Inr (if negative (ucast left :: s32) then (- EFAULT, pos, [], store_buf p b' s)
           else (count, pos + count, [], store_buf p b' s)))"
  using assms
proof (induction ds arbitrary: b at s)
  case (Cons d ds)
  obtain a where p: "p = Some a"
    using Cons.prems(1) by (cases p) (simp_all add: load_buf_def)
  show ?case
  proof (cases "mem_write b at [d]")
    case (Inl f)
    then show ?thesis
      using Cons.prems(1) by (simp add: io_exec_step mem_write_Cons [of b at d ds])
  next
    case (Inr b')
    have step: "io_exec i (Wr_Copy pos count left p (d # ds) at) s =
        io_exec i (Wr_Copy pos count left p ds (Suc at)) (store_buf p b' s)"
      using Cons.prems(1) Inr by (simp add: io_exec_step)
    show ?thesis
    proof (cases "ds = []")
      case True
      then show ?thesis using step Inr by (simp add: io_exec_step)
    next
      case False
      from Cons.IH [OF load_store [OF p] False] show ?thesis
        using step Inr by (cases "mem_write b' (Suc at) ds") (simp_all add: mem_write_Cons [of b at d ds])
    qed
  qed
qed simp

lemma mem_read_Suc:
  "0 < n \<Longrightarrow> mem_read b at (Suc n) = bindo (mem_read b at 1) (\<lambda>x. bindo (mem_read b (Suc at) n) (\<lambda>y. Inr (x @ y)))"
  by (auto simp: mem_read_one) (auto simp: mem_read_def Cons_nth_drop_Suc [symmetric])

lemma read_bytes:
  assumes "load_buf s p = Inr b" and "0 < n"
  shows "io_exec i (Rd_Copy pos count left p n at got) s =
    bindo (mem_read b at n) (\<lambda>out.
      Inr (if negative (ucast left :: s32) then (- EFAULT, pos, got @ out, s)
           else (count, pos + count, got @ out, s)))"
  using assms
proof (induction n arbitrary: at got)
  case (Suc n)
  show ?case
  proof (cases "n = 0")
    case True
    then show ?thesis
      using Suc.prems(1) by (cases "mem_read b at 1") (simp_all add: io_exec_step)
  next
    case False
    have "io_exec i (Rd_Copy pos count left p (Suc n) at got) s =
        bindo (mem_read b at 1) (\<lambda>x. io_exec i (Rd_Copy pos count left p n (Suc at) (got @ x)) s)"
      using Suc.prems(1) by (cases "mem_read b at 1") (simp_all add: io_exec_step [of "Rd_Copy pos count left p (Suc n) at got"])
    then show ?thesis
      using Suc.IH [OF Suc.prems(1)] False
      by (cases "mem_read b at 1"; cases "mem_read b (Suc at) n") (simp_all add: mem_read_Suc)
  qed
qed simp


section \<open>Calls side by side\<close>

abbreviation io_race :: "nat \<Rightarrow> drv7 \<times> (nat \<Rightarrow> io_pc) \<Rightarrow> drv7 \<times> (nat \<Rightarrow> io_pc) \<Rightarrow> bool" where
  "io_race i \<equiv> interleaved (\<lambda>_. io_step i) io_live"

text \<open>The threads start a call each, within the kernel's limits; others have returned before.\<close>

fun io_ready :: "io_pc \<Rightarrow> bool" where
  "io_ready (Wr_Start f usr count pos) = io_ok BUF_LEN7 pos count f"
| "io_ready (Rd_Start f count pos) = io_ok BUF_LEN7 pos count f"
| "io_ready (Set_Rdonly v) = True"
| "io_ready (Io_Done r pos out) = (out = [])"
| "io_ready p = False"

text \<open>The bytes a write stores, and the position a call starts at.\<close>

definition wr_bytes :: "copy_fun \<Rightarrow> byte list \<Rightarrow> u64 \<Rightarrow> s64 \<Rightarrow> byte list" where
  "wr_bytes f usr count pos =
     (let n = clamp_count BUF_LEN7 pos count in from_user usr (unat n) (unat (f n)))"

fun start_pos :: "io_pc \<Rightarrow> nat" where
  "start_pos (Wr_Start f usr count pos) = unat pos"
| "start_pos (Rd_Start f count pos) = unat pos"
| "start_pos p = 0"

definition wrote :: "(nat \<Rightarrow> io_pc) \<Rightarrow> nat \<Rightarrow> byte \<Rightarrow> bool" where
  "wrote pcs j v \<longleftrightarrow> (\<exists>t f usr count pos. pcs t = Wr_Start f usr count pos \<and>
     unat pos \<le> j \<and> j < unat pos + length (wr_bytes f usr count pos) \<and>
     v = wr_bytes f usr count pos ! (j - unat pos))"

definition from_calls :: "(nat \<Rightarrow> io_pc) \<Rightarrow> byte list \<Rightarrow> nat \<Rightarrow> byte \<Rightarrow> bool" where
  "from_calls pcs b j v \<longleftrightarrow> v = b ! j \<or> wrote pcs j v"

text \<open>The invariant: the device's page, and for each thread where it copies.\<close>

definition page_inv :: "(nat \<Rightarrow> io_pc) \<Rightarrow> byte list \<Rightarrow> nat \<Rightarrow> nat \<Rightarrow> drv7 \<Rightarrow> bool" where
  "page_inv pcs b i a s \<longleftrightarrow> length (chrdev_array s) = 8 \<and> bufp (slot s i) = Some a \<and>
     (\<exists>c. heap s a = Some c \<and> length c = 4096 \<and> (\<forall>j < 4096. from_calls pcs b j (c ! j)))"

fun pc_inv :: "(nat \<Rightarrow> io_pc) \<Rightarrow> byte list \<Rightarrow> nat \<Rightarrow> nat \<Rightarrow> io_pc \<Rightarrow> bool" where
  "pc_inv pcs b a t (Wr_Copy pos count left p ds at) \<longleftrightarrow>
     p = Some a \<and> at + length ds \<le> 4096 \<and> (\<forall>k < length ds. from_calls pcs b (at + k) (ds ! k))"
| "pc_inv pcs b a t (Rd_Copy pos count left p n at got) \<longleftrightarrow>
     p = Some a \<and> at + n \<le> 4096 \<and> at = start_pos (pcs t) + length got \<and>
     (\<forall>k < length got. from_calls pcs b (start_pos (pcs t) + k) (got ! k))"
| "pc_inv pcs b a t (Io_Done r pos out) \<longleftrightarrow>
     (\<forall>k < length out. from_calls pcs b (start_pos (pcs t) + k) (out ! k))"
| "pc_inv pcs b a t (Set_Rdonly v) \<longleftrightarrow> True"
| "pc_inv pcs b a t p \<longleftrightarrow> p = pcs t \<and> io_ready p"

lemma wr_bytes_length:
  assumes "io_ok BUF_LEN7 pos count f"
  shows "unat pos + length (wr_bytes f usr count pos) \<le> 4096"
  using clamped [OF assms] moved_fits [OF io_okD(1) [OF assms], of count] BUF_LEN7_nat
  by (simp add: wr_bytes_def Let_def)

lemma start_step:
  assumes "page_inv pcs b i a s" and "pc_inv pcs b a t (Wr_Start f usr count pos)"
  shows "\<exists>p'. io_step i (Wr_Start f usr count pos) s = Inr (p', s) \<and> pc_inv pcs b a t p'"
proof (cases "read_only (slot s i) = 0")
  case True
  let ?ds = "wr_bytes f usr count pos"
  from assms(2) have t: "pcs t = Wr_Start f usr count pos" and ok: "io_ok BUF_LEN7 pos count f" by simp_all
  have "from_calls pcs b (unat pos + k) (?ds ! k)" if "k < length ?ds" for k
  proof -
    from that t have "wrote pcs (unat pos + k) (?ds ! k)"
      unfolding wrote_def by (intro exI [of _ t] exI [of _ f] exI [of _ usr] exI [of _ count] exI [of _ pos]) simp
    then show ?thesis by (simp add: from_calls_def)
  qed
  then show ?thesis
    using True assms(1) wr_bytes_length [OF ok, of usr] by (simp add: page_inv_def Let_def wr_bytes_def)
qed simp

lemma store_step:
  assumes "page_inv pcs b i a s" and "pc_inv pcs b a t (Wr_Copy pos count left p (d # ds) at)"
  shows "\<exists>p' s'. io_step i (Wr_Copy pos count left p (d # ds) at) s = Inr (p', s') \<and>
     page_inv pcs b i a s' \<and> pc_inv pcs b a t p'"
proof -
  from assms(1) obtain c where c: "heap s a = Some c" "length c = 4096" "\<forall>j < 4096. from_calls pcs b j (c ! j)"
    by (auto simp: page_inv_def)
  from assms(2) have p: "p = Some a" "at < 4096" and d: "from_calls pcs b at d"
    and ds: "\<forall>k < length ds. from_calls pcs b (Suc at + k) (ds ! k)"
    by (auto simp: nth_Cons split: nat.splits)
  have "from_calls pcs b j (c[at := d] ! j)" if "j < 4096" for j
    using that c(2,3) d p(2) by (cases "j = at") simp_all
  then have "page_inv pcs b i a (s\<lparr>heap := (heap s)(a \<mapsto> c[at := d])\<rparr>)"
    using assms(1) c(2) by (simp add: page_inv_def slot_def)
  then show ?thesis
    using p c(1,2) ds assms(2) by (simp add: mem_write_one load_buf_def store_buf_def)
qed

lemma fetch_step:
  assumes "page_inv pcs b i a s" and "pc_inv pcs b a t (Rd_Copy pos count left p (Suc n) at got)"
  shows "\<exists>p'. io_step i (Rd_Copy pos count left p (Suc n) at got) s = Inr (p', s) \<and> pc_inv pcs b a t p'"
proof -
  from assms(1) obtain c where c: "heap s a = Some c" "length c = 4096" "\<forall>j < 4096. from_calls pcs b j (c ! j)"
    by (auto simp: page_inv_def)
  from assms(2) have p: "p = Some a" "at < 4096" "at = start_pos (pcs t) + length got" by simp_all
  have "from_calls pcs b (start_pos (pcs t) + k) ((got @ [c ! at]) ! k)" if "k < Suc (length got)" for k
    using that assms(2) c(3) p(2,3) by (cases "k < length got") (simp_all add: nth_append less_Suc_eq)
  then show ?thesis
    using p c(1,2) assms(2) by (simp add: mem_read_one [simplified] load_buf_def)
qed

text \<open>Every part of a call ends, and keeps the invariant.\<close>

lemma io_step_keeps:
  assumes "page_inv pcs b i a s" and "pc_inv pcs b a t p" and "i < 8"
  shows "\<exists>p' s'. io_step i p s = Inr (p', s') \<and> page_inv pcs b i a s' \<and> pc_inv pcs b a t p'"
proof (cases p)
  case (Wr_Start f usr count pos)
  with start_step [of pcs b i a s t f usr count pos] assms show ?thesis by blast
next
  case (Wr_Copy pos count left q ds at)
  show ?thesis
  proof (cases ds)
    case Nil
    with Wr_Copy assms(1) show ?thesis by simp
  next
    case (Cons d es)
    with store_step [of pcs b i a s t pos count left q d es at] Wr_Copy assms show ?thesis by blast
  qed
next
  case (Rd_Start f count pos)
  with assms(2) have ok: "io_ok BUF_LEN7 pos count f" and t: "pcs t = Rd_Start f count pos" by auto
  let ?n = "clamp_count BUF_LEN7 pos count"
  have "unat pos + (unat ?n - unat (f ?n)) \<le> 4096"
    using clamped [OF ok] moved_fits [OF io_okD(1) [OF ok], of count] by simp
  moreover have "bufp (slot s i) = Some a" using assms(1) by (simp add: page_inv_def)
  ultimately show ?thesis using assms(1) unfolding Rd_Start by (simp add: Let_def t)
next
  case (Rd_Copy pos count left q n at got)
  show ?thesis
  proof (cases n)
    case 0
    with Rd_Copy assms(1,2) show ?thesis by auto
  next
    case (Suc m)
    with fetch_step [of pcs b i a s t pos count left q m at got] Rd_Copy assms show ?thesis by blast
  qed
next
  case (Set_Rdonly v)
  have "page_inv pcs b i a (upd_slot i (\<lambda>c. c\<lparr>read_only := w\<rparr>) s)" for w
    using assms(1,3) by (simp add: page_inv_def)
  with Set_Rdonly show ?thesis
    by (cases v) (simp_all add: chrdev_ioctl_def ioctl_types)
next
  case (Io_Done r pos out)
  with assms(1,2) show ?thesis by simp
qed

section \<open>Properties\<close>


text \<open>Two bytes that fit: nothing is clipped.\<close>

lemma two_fit:
  assumes "unat pos + 2 \<le> 4096"
  shows "clamp_count BUF_LEN7 pos 2 = 2"
proof -
  have "io_ok BUF_LEN7 pos 2 (\<lambda>_. 0)"
    using assms by (simp add: io_ok_def copy_ok_def)
  from clamped [OF this] have "clamp_count BUF_LEN7 pos 2 = of_nat (moved BUF_LEN7 pos 2)" .
  moreover have "moved BUF_LEN7 pos 2 = 2" using assms by (simp add: moved_def)
  ultimately show ?thesis by simp
qed

lemma io_part:
  "io_step i (pcs t) s = Inr (p, s') \<Longrightarrow> io_live (pcs t) \<Longrightarrow> io_race i (s, pcs) (s', pcs(t := p))"
  by (rule part)

text \<open>The four stores of two writes of two bytes, the second between the two halves of the first.\<close>

lemma torn_stores:
  assumes b: "load_buf s (Some a) = Inr b" and len: "q + 2 \<le> length b"
    and pcs: "pcs 0 = Wr_Copy pos 2 0 (Some a) [x0, x1] q" "pcs 1 = Wr_Copy pos 2 0 (Some a) [y0, y1] q"
  shows "(io_race i)\<^sup>*\<^sup>* (s, pcs)
     (store_buf (Some a) (b[q := y0, Suc q := x1]) s, pcs(0 := Io_Done 2 (pos + 2) [], 1 := Io_Done 2 (pos + 2) []))"
proof -
  let ?S = "\<lambda>c. store_buf (Some a) c s"
  let ?c1 = "b[q := x0]" let ?c2 = "?c1[q := y0]" let ?c3 = "?c2[Suc q := y1]" let ?c4 = "?c3[Suc q := x1]"
  let ?p1 = "pcs(0 := Wr_Copy pos 2 0 (Some a) [x1] (Suc q))"
  let ?p2 = "?p1(1 := Wr_Copy pos 2 0 (Some a) [y1] (Suc q))"
  let ?p3 = "?p2(1 := Wr_Copy pos 2 0 (Some a) [] (Suc (Suc q)))"
  let ?p4 = "?p3(0 := Wr_Copy pos 2 0 (Some a) [] (Suc (Suc q)))"
  let ?p5 = "?p4(0 := Io_Done 2 (pos + 2) [])"
  have ok: "\<not> negative (0 :: s32)" by (simp add: negative_def)
  have "io_race i (s, pcs) (?S ?c1, ?p1)"
    by (rule io_part) (use b len pcs in \<open>simp_all add: mem_write_one\<close>)
  moreover have "io_race i (?S ?c1, ?p1) (?S ?c2, ?p2)"
    by (rule io_part) (use len pcs in \<open>simp_all add: mem_write_one\<close>)
  moreover have "io_race i (?S ?c2, ?p2) (?S ?c3, ?p3)"
    by (rule io_part) (use len in \<open>simp_all add: mem_write_one\<close>)
  moreover have "io_race i (?S ?c3, ?p3) (?S ?c4, ?p4)"
    by (rule io_part) (use len in \<open>simp_all add: mem_write_one\<close>)
  moreover have "io_race i (?S ?c4, ?p4) (?S ?c4, ?p5)"
    by (rule io_part) (simp_all add: ok)
  moreover have "io_race i (?S ?c4, ?p5) (?S ?c4, ?p5(1 := Io_Done 2 (pos + 2) []))"
    by (rule io_part) (simp_all add: ok)
  ultimately have "(io_race i)\<^sup>*\<^sup>* (s, pcs) (?S ?c4, ?p5(1 := Io_Done 2 (pos + 2) []))"
    by (meson converse_rtranclp_into_rtranclp rtranclp.rtrancl_refl)
  moreover have "?c4 = b[q := y0, Suc q := x1]" by simp
  moreover have "?p5(1 := Io_Done 2 (pos + 2) []) = pcs(0 := Io_Done 2 (pos + 2) [], 1 := Io_Done 2 (pos + 2) [])"
    by (simp add: fun_eq_iff)
  ultimately show ?thesis by simp
qed

text \<open>C34: writes are not atomic, and making a device read-only does not stop a write that has begun: two
  writes of two bytes to the same place and a \<open>WDIOC_SET_RDONLY\<close>, all on one device, can run so
  that the device is read-only, with its contents unchanged, before either write has stored a byte, and yet
  both writes then report that they wrote two bytes, and the buffer holds the first byte of the one and the
  second byte of the other.\<close>

theorem write7_not_atomic:
  assumes "i < 8" and "length (chrdev_array s) = 8" and "bufp (slot s i) = Some a" and "heap s a = Some b"
    and "length b = 4096" and "read_only (slot s i) = 0" and "unat pos + 2 \<le> 4096"
    and "pcs 0 = Wr_Start (\<lambda>_. 0) [x0, x1] 2 pos" and "pcs 1 = Wr_Start (\<lambda>_. 0) [y0, y1] 2 pos"
    and "pcs 2 = Set_Rdonly (Some v)"
  shows "\<exists>s1 pcs1 s2 pcs2. (io_race i)\<^sup>*\<^sup>* (s, pcs) (s1, pcs1) \<and> pcs1 2 = Io_Done 0 0 [] \<and>
     read_only (slot s1 i) = v \<and> heap s1 a = Some b \<and>
     (io_race i)\<^sup>*\<^sup>* (s1, pcs1) (s2, pcs2) \<and>
     pcs2 0 = Io_Done 2 (pos + 2) [] \<and> pcs2 1 = Io_Done 2 (pos + 2) [] \<and>
     heap s2 a = Some (b[unat pos := y0, Suc (unat pos) := x1])"
proof -
  let ?p1 = "pcs(0 := Wr_Copy pos 2 0 (Some a) [x0, x1] (unat pos))"
  let ?p2 = "?p1(1 := Wr_Copy pos 2 0 (Some a) [y0, y1] (unat pos))"
  let ?p3 = "?p2(2 := Io_Done 0 0 [])"
  let ?s1 = "upd_slot i (\<lambda>c. c\<lparr>read_only := v\<rparr>) s"
  note fit = two_fit [OF assms(7)]
  have all: "from_user [u, w] 2 0 = [u, w]" for u w :: byte
    by (simp add: from_user_def)
  have "io_race i (s, pcs) (s, ?p1)"
    by (rule io_part) (use assms fit all in \<open>simp_all add: Let_def\<close>)
  moreover have "io_race i (s, ?p1) (s, ?p2)"
    by (rule io_part) (use assms fit all in \<open>simp_all add: Let_def\<close>)
  moreover have "io_race i (s, ?p2) (?s1, ?p3)"
    by (rule io_part) (use assms(10) in \<open>simp_all add: chrdev_ioctl_def ioctl_types\<close>)
  ultimately have run: "(io_race i)\<^sup>*\<^sup>* (s, pcs) (?s1, ?p3)"
    by (meson converse_rtranclp_into_rtranclp rtranclp.rtrancl_refl)
  have s1: "heap ?s1 a = Some b" using assms(4) by (simp add: upd_slot_def)
  then have load: "load_buf ?s1 (Some a) = Inr b" by (simp add: load_buf_def)
  have ro: "read_only (slot ?s1 i) = v" using assms(1,2) by simp
  from torn_stores [OF load _, of "unat pos" ?p3 pos x0 x1 y0 y1 i] assms(5,7) have
    "(io_race i)\<^sup>*\<^sup>* (?s1, ?p3) (store_buf (Some a) (b[unat pos := y0, Suc (unat pos) := x1]) ?s1,
       ?p3(0 := Io_Done 2 (pos + 2) [], 1 := Io_Done 2 (pos + 2) []))" by simp
  moreover have "heap (store_buf (Some a) (b[unat pos := y0, Suc (unat pos) := x1]) ?s1) a =
      Some (b[unat pos := y0, Suc (unat pos) := x1])"
    by (simp add: store_buf_def)
  ultimately show ?thesis
    using run ro s1
    by (intro exI [of _ ?s1] exI [of _ ?p3] exI [of _ "store_buf (Some a) (b[unat pos := y0, Suc (unat pos) := x1]) ?s1"]
        exI [of _ "?p3(0 := Io_Done 2 (pos + 2) [], 1 := Io_Done 2 (pos + 2) [])"] conjI) simp_all
qed

text \<open>Two writers of the sample device, while a third thread makes it read-only and a fourth reads.\<close>

definition sample_calls :: "nat \<Rightarrow> io_pc" where
  "sample_calls = (\<lambda>_. Io_Done 0 0 [])(0 := Wr_Start (\<lambda>_. 0) [1, 2] 2 10, 1 := Wr_Start (\<lambda>_. 0) [3, 4] 2 10,
     2 := Set_Rdonly (Some 1), 3 := Rd_Start (\<lambda>_. 0) 2 10)"

lemma sample_page:
  obtains b where "heap sample7 100 = Some b" and "length b = 4096"
proof -
  have "busy (slot sample7 0)" "bufp (slot sample7 0) = Some 100" by (simp_all add: sample7_slot)
  with heap_inv_buf [of sample7 0] sample7_inv that show thesis by (auto simp: mem_inv_def)
qed

lemma sample_calls_ready: "io_ready (sample_calls t)"
  by (simp add: sample_calls_def io_ok_def copy_ok_def)



theorem write7_not_atomic_witness:
  "\<exists>s1 pcs1 c. (io_race 0)\<^sup>*\<^sup>* (sample7, sample_calls) (s1, pcs1) \<and> heap s1 100 = Some c \<and>
     c ! 10 = 3 \<and> c ! 11 = 2"
proof -
  obtain b where b: "heap sample7 100 = Some b" "length b = 4096" by (rule sample_page)
  have len: "length (chrdev_array sample7) = 8" using mem_inv_length [OF sample7_inv] .
  have "\<exists>s1 pcs1 s2 pcs2. (io_race 0)\<^sup>*\<^sup>* (sample7, sample_calls) (s1, pcs1) \<and> pcs1 2 = Io_Done 0 0 [] \<and>
     read_only (slot s1 0) = 1 \<and> heap s1 100 = Some b \<and>
     (io_race 0)\<^sup>*\<^sup>* (s1, pcs1) (s2, pcs2) \<and>
     pcs2 0 = Io_Done 2 (10 + 2) [] \<and> pcs2 1 = Io_Done 2 (10 + 2) [] \<and>
     heap s2 100 = Some (b[unat (10 :: s64) := 3, Suc (unat (10 :: s64)) := 2])"
    by (rule write7_not_atomic [where ?x0.0 = 1 and ?y1.0 = 4])
      (use len b in \<open>simp_all add: sample7_slot sample_calls_def\<close>)
  then obtain s1 pcs1 s2 pcs2 where run: "(io_race 0)\<^sup>*\<^sup>* (sample7, sample_calls) (s1, pcs1)"
    "(io_race 0)\<^sup>*\<^sup>* (s1, pcs1) (s2, pcs2)"
    "heap s2 100 = Some (b[unat (10 :: s64) := 3, Suc (unat (10 :: s64)) := 2])" by blast
  from rtranclp_trans [OF run(1,2)] run(3) b(2) show ?thesis by (intro exI conjI) auto
qed

end
