(* ===== verification/Irq_Concurrent.thy ===== *)
theory Irq_Concurrent
  imports Chrdev_Irq
begin

text \<open>
  Any number of threads read and poll one device of
  \<^verbatim>\<open>Chapter07/chrdev/chrdev_irq.c\<close> while the timers of all registered devices
  expire. A step is what one thread does between two lock operations, or one run of a
  timer handler; the mutex is held from \<open>mutex_lock\<close> to \<open>mutex_unlock\<close>, also while a
  blocking reader sleeps. The state keeps, beside the driver, what no code can see: the
  characters stored so far, those taken off the queue, and those handed to users.
\<close>

section \<open>The system\<close>

text \<open>Where a thread is; \<open>c\<close> is the count it asked for, \<open>n\<close> the clipped one.\<close>

datatype rpc =
    Outside
  | Want u64 bool             \<comment> \<open>before \<open>mutex_lock\<close>; the flag is \<open>O_NONBLOCK\<close>\<close>
  | Holding u64 bool          \<comment> \<open>before the check for data\<close>
  | Ready u64                 \<comment> \<open>before \<open>spin_lock_irqsave\<close>\<close>
  | Fetched u64 "byte list"   \<comment> \<open>before \<open>copy_to_user\<close>\<close>
  | Copied u64                \<comment> \<open>before the tail is moved\<close>
  | Finished s64
  | PollWant
  | PollHolding
  | PollDone u32

fun holds :: "rpc \<Rightarrow> bool" where
  "holds (Holding c nb) = True"
| "holds (Ready c) = True"
| "holds (Fetched n tmp) = True"
| "holds (Copied n) = True"
| "holds PollHolding = True"
| "holds _ = False"

record irq_sys =
  kern :: drv_irq
  pc :: "nat \<Rightarrow> rpc"
  holder :: "nat option"
  produced :: "byte list"
  taken :: "byte list"
  seen :: "byte list"

definition at :: "nat \<Rightarrow> rpc \<Rightarrow> irq_sys \<Rightarrow> irq_sys" where
  "at t p s = s\<lparr>pc := (pc s)(t := p)\<rparr>"

text \<open>\<open>okc\<close> says which counts the users of the device ask for.\<close>

inductive irq_step :: "copy_fun \<Rightarrow> (u64 \<Rightarrow> bool) \<Rightarrow> nat \<Rightarrow> irq_sys \<Rightarrow> irq_sys \<Rightarrow> bool"
  for f okc i where
    tick: "j \<in> live_timers (ktrace (kern s)) \<Longrightarrow> chrdev_timer_handler j (kern s) = Inr (r, k) \<Longrightarrow>
      irq_step f okc i s (s\<lparr>kern := k, produced := produced s @
        (if j = i then drop (length (items i (kern s))) (items i k) else [])\<rparr>)"
  | call_read: "pc s t = Outside \<Longrightarrow> okc c \<Longrightarrow> irq_step f okc i s (at t (Want c nb) s)"
  | lock: "pc s t = Want c nb \<Longrightarrow> holder s = None \<Longrightarrow>
      irq_step f okc i s (at t (Holding c nb) (s\<lparr>holder := Some t\<rparr>))"
  | try_again: "pc s t = Holding c True \<Longrightarrow> empty_irq i (kern s) \<Longrightarrow>
      irq_step f okc i s (at t (Finished c) (s\<lparr>holder := None\<rparr>))"
  | signalled: "pc s t = Holding c False \<Longrightarrow> empty_irq i (kern s) \<Longrightarrow>
      irq_step f okc i s (at t (Finished (- ERESTARTSYS)) (s\<lparr>holder := None\<rparr>))"
  | go_on: "pc s t = Holding c nb \<Longrightarrow> \<not> empty_irq i (kern s) \<Longrightarrow>
      irq_step f okc i s (at t (Ready c) s)"
  | fetch: "pc s t = Ready c \<Longrightarrow> read_fetch i c (kern s) = Inr (n, tmp) \<Longrightarrow>
      irq_step f okc i s (at t (Fetched n tmp) s)"
  | copy: "pc s t = Fetched n tmp \<Longrightarrow> read_copy f n tmp = (out, False) \<Longrightarrow>
      irq_step f okc i s (at t (Copied n) (s\<lparr>seen := seen s @ out\<rparr>))"
  | copy_failed: "pc s t = Fetched n tmp \<Longrightarrow> read_copy f n tmp = (out, True) \<Longrightarrow>
      irq_step f okc i s (at t (Finished n) (s\<lparr>seen := seen s @ out, holder := None\<rparr>))"
  | move: "pc s t = Copied n \<Longrightarrow>
      irq_step f okc i s (at t (Finished n) (s\<lparr>kern := read_move i n (kern s), holder := None,
        taken := taken s @ take (unat n) (items i (kern s))\<rparr>))"
  | call_poll: "pc s t = Outside \<Longrightarrow> irq_step f okc i s (at t PollWant s)"
  | poll_lock: "pc s t = PollWant \<Longrightarrow> holder s = None \<Longrightarrow>
      irq_step f okc i s (at t PollHolding (s\<lparr>holder := Some t\<rparr>))"
  | poll_check: "pc s t = PollHolding \<Longrightarrow>
      irq_step f okc i s (at t (PollDone (if \<not> empty_irq i (kern s) then or EPOLLIN EPOLLRDNORM else 0))
        (s\<lparr>holder := None\<rparr>))"
  | return_read: "pc s t = Finished r \<Longrightarrow> irq_step f okc i s (at t Outside s)"
  | return_poll: "pc s t = PollDone m \<Longrightarrow> irq_step f okc i s (at t Outside s)"

inductive_cases irq_stepE: "irq_step f okc i s s'"

text \<open>The steps that do not return a state.\<close>

inductive irq_fault :: "nat \<Rightarrow> irq_sys \<Rightarrow> fault \<Rightarrow> bool" for i where
    tick_fault: "j \<in> live_timers (ktrace (kern s)) \<Longrightarrow> chrdev_timer_handler j (kern s) = Inl e \<Longrightarrow>
      irq_fault i s e"
  | fetch_fault: "pc s t = Ready c \<Longrightarrow> read_fetch i c (kern s) = Inl e \<Longrightarrow> irq_fault i s e"

definition sys_start :: "nat \<Rightarrow> drv_irq \<Rightarrow> irq_sys" where
  "sys_start i k = \<lparr>kern = k, pc = (\<lambda>_. Outside), holder = None,
                    produced = items i k, taken = [], seen = []\<rparr>"

lemma at_simps [simp]:
  "kern (at t p s) = kern s" "pc (at t p s) = (pc s)(t := p)" "holder (at t p s) = holder s"
  "produced (at t p s) = produced s" "taken (at t p s) = taken s" "seen (at t p s) = seen s"
  by (simp_all add: at_def)

section \<open>Invariant\<close>

fun pc_ok :: "(u64 \<Rightarrow> bool) \<Rightarrow> byte list \<Rightarrow> rpc \<Rightarrow> bool" where
  "pc_ok okc xs (Want c nb) = okc c"
| "pc_ok okc xs (Holding c nb) = okc c"
| "pc_ok okc xs (Ready c) = (okc c \<and> xs \<noteq> [])"
| "pc_ok okc xs (Fetched n tmp) = (unat n \<le> length xs \<and> take (unat n) tmp = take (unat n) xs)"
| "pc_ok okc xs (Copied n) = (unat n \<le> length xs)"
| "pc_ok okc xs _ = True"

text \<open>What has been handed to a user but is still in the queue.\<close>

fun pending :: "byte list \<Rightarrow> rpc \<Rightarrow> byte list" where
  "pending xs (Copied n) = take (unat n) xs"
| "pending xs _ = []"

definition sys_inv :: "(u64 \<Rightarrow> bool) \<Rightarrow> nat \<Rightarrow> irq_sys \<Rightarrow> bool" where
  "sys_inv okc i s \<longleftrightarrow>
     irq_inv (kern s) \<and> i < 8 \<and> busy (slot (kern s) i) \<and>
     (\<forall>t. holds (pc s t) \<longleftrightarrow> holder s = Some t) \<and>
     (\<forall>t. pc_ok okc (items i (kern s)) (pc s t)) \<and>
     produced s = taken s @ items i (kern s)"

definition seen_inv :: "nat \<Rightarrow> irq_sys \<Rightarrow> bool" where
  "seen_inv i s \<longleftrightarrow>
     seen s = taken s @ (case holder s of None \<Rightarrow> [] | Some t \<Rightarrow> pending (items i (kern s)) (pc s t))"

lemma pc_ok_append: "pc_ok okc xs p \<Longrightarrow> pc_ok okc (xs @ ys) p"
  by (cases p) auto

lemma pending_append: "pc_ok okc xs p \<Longrightarrow> pending (xs @ ys) p = pending xs p"
  by (cases p) auto

lemma pc_ok_idle: "\<not> holds p \<Longrightarrow> pc_ok okc xs p = pc_ok okc ys p"
  by (cases p) auto

lemma sys_inv_start: "irq_inv k \<Longrightarrow> i < 8 \<Longrightarrow> busy (slot k i) \<Longrightarrow> sys_inv okc i (sys_start i k)"
  by (simp add: sys_inv_def sys_start_def)

lemma seen_inv_start: "seen_inv i (sys_start i k)"
  by (simp add: seen_inv_def sys_start_def)

text \<open>What a run of any handler does, as the threads see it.\<close>

lemma tick_items:
  assumes "irq_inv k" and "i < 8" and "busy (slot k i)" and "j \<in> live_timers (ktrace k)"
    and "chrdev_timer_handler j k = Inr (r, k')"
  obtains ys where "irq_inv k'" and "busy (slot k' i)" and "items i k' = items i k @ ys"
    and "j \<noteq> i \<Longrightarrow> ys = []" and "devices_of k' = devices_of k"
proof -
  have j: "j < 8" "busy (slot k j)"
    using assms(4) irq_invD(5) [OF assms(1)] by (auto simp: busy_ids_def)
  from timer_handler_items [OF assms(1) j] assms(5) have
    k: "irq_inv k'" "devices_of k' = devices_of k"
      "if length (items j k) = 4095 then items j k' = items j k \<and> gen_d k' = gen_d k
       else items j k' = items j k @ [snd (get_new_char (gen_d k))] \<and> gen_d k' = snd (get_new_char (gen_d k))"
      "\<forall>l < 8. l \<noteq> j \<longrightarrow> busy (slot k l) \<longrightarrow> items l k' = items l k" by auto
  have b: "busy (slot k' i)"
    using k(2) assms(2,3) by (metis devices_of_busy)
  show thesis
  proof (rule that [OF k(1) b, of "if j = i then drop (length (items i k)) (items i k') else []"])
    show "items i k' = items i k @ (if j = i then drop (length (items i k)) (items i k') else [])"
      using k(3,4) assms(2,3) by (auto split: if_splits)
  qed (use k(2) in auto)
qed

lemma sys_inv_step:
  assumes inv: "sys_inv okc i s" and step: "irq_step f okc i s s'"
  shows "sys_inv okc i s'"
proof -
  have k: "irq_inv (kern s)" "i < 8" "busy (slot (kern s) i)"
    and h: "\<And>t. holds (pc s t) \<longleftrightarrow> holder s = Some t"
    and p: "\<And>t. pc_ok okc (items i (kern s)) (pc s t)"
    and q: "produced s = taken s @ items i (kern s)"
    using inv by (simp_all add: sys_inv_def)
  note empty = empty_irq_items [OF k]
  from step show ?thesis
  proof cases
    case (tick j r k')
    obtain ys where "irq_inv k'" "busy (slot k' i)" "items i k' = items i (kern s) @ ys"
      and "j \<noteq> i \<longrightarrow> ys = []" using tick_items [OF k tick(2,3)] by metis
    then show ?thesis
      using k h p q tick(1) by (auto simp: sys_inv_def pc_ok_append)
  next
    case (call_read t c nb)
    then show ?thesis
      using k p q h [of t] h by (auto simp: sys_inv_def)
  next
    case (lock t c nb)
    then show ?thesis
      using k p [of t] p q h by (auto simp: sys_inv_def)
  next
    case (try_again t c)
    then show ?thesis
      using k p q h [of t] h by (auto simp: sys_inv_def)
  next
    case (signalled t c)
    then show ?thesis
      using k p q h [of t] h by (auto simp: sys_inv_def)
  next
    case (go_on t c nb)
    then show ?thesis
      using k p [of t] p q h [of t] h empty by (auto simp: sys_inv_def)
  next
    case (fetch t c n tmp)
    then show ?thesis
      using k p q h [of t] h read_fetch_sound(2,3) [OF k fetch(3)] by (auto simp: sys_inv_def)
  next
    case (copy t n tmp out)
    then show ?thesis
      using k p [of t] p q h [of t] h by (auto simp: sys_inv_def)
  next
    case (copy_failed t n tmp out)
    then show ?thesis
      using k p q h [of t] h by (auto simp: sys_inv_def)
  next
    case (move t n)
    have le: "unat n \<le> length (items i (kern s))"
      using p [of t] move(2) by simp
    note m = read_move_items [OF k le]
    have b: "busy (slot (read_move i n (kern s)) i)"
      using m(4) k(2,3) by (metis devices_of_busy)
    have "pc_ok okc (items i (read_move i n (kern s))) (pc s u)" if "u \<noteq> t" for u
      using that p [of u] h [of u] h [of t] move(2) pc_ok_idle by fastforce
    then show ?thesis
      using k(2) m(1,2) b q h [of t] h move by (auto simp: sys_inv_def)
  next
    case (call_poll t)
    then show ?thesis
      using k p q h [of t] h by (auto simp: sys_inv_def)
  next
    case (poll_lock t)
    then show ?thesis
      using k p q h by (auto simp: sys_inv_def)
  next
    case (poll_check t)
    then show ?thesis
      using k p q h [of t] h by (auto simp: sys_inv_def)
  next
    case (return_read t r)
    then show ?thesis
      using k p q h [of t] h by (auto simp: sys_inv_def)
  next
    case (return_poll t m)
    then show ?thesis
      using k p q h [of t] h by (auto simp: sys_inv_def)
  qed
qed

lemma sys_inv_reach:
  assumes "(irq_step f okc i)\<^sup>*\<^sup>* s s'" and "sys_inv okc i s"
  shows "sys_inv okc i s'"
  using assms by (induction rule: rtranclp_induct) (auto intro: sys_inv_step)

text \<open>With user memory that can always be written, what users have seen is what was taken.\<close>

lemma seen_inv_step:
  assumes inv: "sys_inv okc i s" and seen: "seen_inv i s" and step: "irq_step (\<lambda>_. 0) okc i s s'"
  shows "seen_inv i s'"
proof -
  have k: "irq_inv (kern s)" "i < 8" "busy (slot (kern s) i)"
    and h: "\<And>t. holds (pc s t) \<longleftrightarrow> holder s = Some t"
    and p: "\<And>t. pc_ok okc (items i (kern s)) (pc s t)"
    using inv by (simp_all add: sys_inv_def)
  have at_t: "holder s = Some t" if "holds (pc s t)" for t
    using that h by blast
  from step show ?thesis
  proof cases
    case (tick j r k')
    obtain ys where ys: "items i k' = items i (kern s) @ ys"
      using tick_items [OF k tick(2,3)] by metis
    have "pending (items i k') (pc s t) = pending (items i (kern s)) (pc s t)" for t
      unfolding ys by (rule pending_append [OF p])
    then show ?thesis
      using seen by (cases "holder s") (simp_all add: tick(1) seen_inv_def)
  next
    case (fetch t c n tmp)
    then show ?thesis using seen at_t [of t] by (simp add: seen_inv_def)
  next
    case (go_on t c nb)
    then show ?thesis using seen at_t [of t] by (simp add: seen_inv_def)
  next
    case (copy t n tmp out)
    have "out = take (unat n) (items i (kern s))"
      using copy(3) p [of t] copy(2) by (simp add: read_copy_def)
    then show ?thesis using seen at_t [of t] copy by (simp add: seen_inv_def)
  next
    case (copy_failed t n tmp out)
    then show ?thesis by (simp add: read_copy_def)
  next
    case (move t n)
    then show ?thesis using seen at_t [of t] by (simp add: seen_inv_def)
  next
    case (try_again t c)
    then show ?thesis using seen at_t [of t] by (simp add: seen_inv_def)
  next
    case (signalled t c)
    then show ?thesis using seen at_t [of t] by (simp add: seen_inv_def)
  next
    case (poll_check t)
    then show ?thesis using seen at_t [of t] by (simp add: seen_inv_def)
  qed (use seen in \<open>cases "holder s"; auto simp: seen_inv_def\<close>)+
qed

lemma seen_inv_reach:
  assumes "(irq_step (\<lambda>_. 0) okc i)\<^sup>*\<^sup>* s s'" and "sys_inv okc i s" and "seen_inv i s"
  shows "seen_inv i s'"
  using assms
proof (induction rule: rtranclp_induct)
  case (step t u)
  then show ?case using sys_inv_reach seen_inv_step by blast
qed

lemma seen_prefix:
  assumes inv: "sys_inv okc i s" and seen: "seen_inv i s"
  shows "\<exists>rest. produced s = seen s @ rest"
proof -
  have "items i (kern s) = pending (items i (kern s)) p @
          drop (length (pending (items i (kern s)) p)) (items i (kern s))" for p
    by (cases p) (simp_all add: min_def)
  then have "\<exists>rest. items i (kern s) = pending (items i (kern s)) p @ rest" for p by blast
  then show ?thesis
    using inv seen by (auto simp: sys_inv_def seen_inv_def split: option.splits)
qed

section \<open>The characters\<close>

definition letter :: "nat \<Rightarrow> byte" where
  "letter n = of_nat (65 + n mod 26)"

lemma letter_Suc: "snd (get_new_char (letter n)) = letter (Suc n)"
proof -
  let ?r = "n mod 26"
  have "(of_nat (66 + ?r) :: byte) = 91 \<longleftrightarrow> ?r = 25"
  proof
    assume "(of_nat (66 + ?r) :: byte) = 91"
    then have "unat (of_nat (66 + ?r) :: byte) = unat (91 :: byte)" by (rule arg_cong)
    moreover have "unat (of_nat (66 + ?r) :: byte) = 66 + ?r"
      by (simp only: unsigned_of_nat) (simp add: take_bit_nat_eq_self)
    ultimately show "?r = 25" by simp
  qed simp
  moreover have "letter n + 1 = of_nat (66 + ?r)" by (simp add: letter_def)
  moreover have "Suc n mod 26 = (if ?r = 25 then 0 else Suc ?r)"
    by (simp add: mod_Suc)
  ultimately show ?thesis
    by (simp add: get_new_char_def Let_def letter_def)
qed

text \<open>With one device in use, the generator and the stored characters are in step.\<close>

definition letters_inv :: "nat \<Rightarrow> irq_sys \<Rightarrow> bool" where
  "letters_inv i s \<longleftrightarrow> busy_ids (kern s) = {i} \<and>
     snd (get_new_char (gen_d (kern s))) = letter (length (produced s)) \<and>
     produced s = map letter [0..<length (produced s)]"

lemma letters_inv_step:
  assumes inv: "sys_inv okc i s" and l: "letters_inv i s" and step: "irq_step f okc i s s'"
  shows "letters_inv i s'"
proof -
  have k: "irq_inv (kern s)" "i < 8" "busy (slot (kern s) i)"
    and p: "\<And>t. pc_ok okc (items i (kern s)) (pc s t)"
    using inv by (simp_all add: sys_inv_def)
  from step show ?thesis
  proof cases
    case (tick j r k')
    have "j = i" using tick(2) l irq_invD(5) [OF k(1)] by (simp add: letters_inv_def)
    with timer_handler_items [OF k] tick(3) have
      "devices_of k' = devices_of (kern s)"
      "if length (items i (kern s)) = 4095 then items i k' = items i (kern s) \<and> gen_d k' = gen_d (kern s)
       else items i k' = items i (kern s) @ [snd (get_new_char (gen_d (kern s)))] \<and>
            gen_d k' = snd (get_new_char (gen_d (kern s)))" by auto
    then show ?thesis
      using l \<open>j = i\<close>
      by (auto simp: letters_inv_def busy_ids_dom tick(1) letter_Suc split: if_splits)
  next
    case (move t n)
    have le: "unat n \<le> length (items i (kern s))"
      using p [of t] move(2) by simp
    show ?thesis
      using l read_move_items(4,5) [OF k le] by (simp add: letters_inv_def busy_ids_dom move(1))
  qed (use l in \<open>simp add: letters_inv_def\<close>)+
qed

lemma letters_inv_reach:
  assumes "(irq_step f okc i)\<^sup>*\<^sup>* s s'" and "sys_inv okc i s" and "letters_inv i s"
  shows "letters_inv i s'"
  using assms
proof (induction rule: rtranclp_induct)
  case (step t u)
  then show ?case using sys_inv_reach letters_inv_step by blast
qed

section \<open>A concrete run\<close>

text \<open>One expiry of the timer, then thread 3 reads one character to the end.\<close>

lemma sample_run_idle:
  "\<exists>s. (irq_step (\<lambda>_. 0) (\<lambda>c. c \<le> 1) 0)\<^sup>*\<^sup>* (sys_start 0 sample_irq) s \<and>
       seen s = [65] \<and> holder s = None \<and> (\<forall>t. pc s t = Outside \<or> (\<exists>r. pc s t = Finished r))"
proof -
  let ?R = "irq_step (\<lambda>_. 0) (\<lambda>c. c \<le> 1) 0"
  from timer_handler_items [OF sample_irq_simps(1) _ sample_irq_simps(2)] obtain k where
    k: "chrdev_timer_handler 0 sample_irq = Inr (HRTIMER_RESTART, k)" "irq_inv k"
      "devices_of k = devices_of sample_irq" "items 0 k = [65]"
    by (auto simp: sample_irq_simps get_new_char_def)
  have b: "(0 :: nat) < 8" "busy (slot k 0)"
    using k(3) sample_irq_simps(2) by (simp, metis devices_of_busy zero_less_numeral)
  have "unat (tail (slot k 0)) < 4096" using k(2) b by (simp add: irq_inv_def)
  then have "\<exists>n tmp. read_fetch 0 1 k = Inr (n, tmp)"
    using read_fetch_returns(1) [OF k(2) b, of 1] unat_clip [OF k(2) b, of 1] k(4) by simp
  then obtain n tmp where f: "read_fetch 0 1 k = Inr (n, tmp)" by blast
  note fs = read_fetch_sound [OF k(2) b f]
  have n: "unat n = 1" using fs(1) k(4) by simp
  have e: "\<not> empty_irq 0 k" using empty_irq_items [OF k(2) b] k(4) by simp
  let ?s0 = "sys_start 0 sample_irq"
  let ?s1 = "?s0\<lparr>kern := k, produced := produced ?s0 @
               (if (0 :: nat) = 0 then drop (length (items 0 (kern ?s0))) (items 0 k) else [])\<rparr>"
  let ?s2 = "at 3 (Want 1 False) ?s1" let ?s3 = "at 3 (Holding 1 False) (?s2\<lparr>holder := Some 3\<rparr>)"
  let ?s4 = "at 3 (Ready 1) ?s3" let ?s5 = "at 3 (Fetched n tmp) ?s4"
  let ?s6 = "at 3 (Copied n) (?s5\<lparr>seen := seen ?s5 @ [65]\<rparr>)"
  let ?s7 = "at 3 (Finished n) (?s6\<lparr>kern := read_move 0 n (kern ?s6), holder := None,
        taken := taken ?s6 @ take (unat n) (items 0 (kern ?s6))\<rparr>)"
  have timers: "0 \<in> live_timers (ktrace sample_irq)"
    using irq_invD(5) [OF sample_irq_simps(1)] sample_irq_simps(7) by simp
  have "?R ?s0 ?s1" by (rule tick) (use timers k(1) in \<open>simp_all add: sys_start_def\<close>)
  moreover have "?R ?s1 ?s2" by (rule call_read) (simp_all add: sys_start_def)
  moreover have "?R ?s2 ?s3" by (rule lock) (simp_all add: sys_start_def)
  moreover have "?R ?s3 ?s4" by (rule go_on) (use e in simp_all)
  moreover have "?R ?s4 ?s5" by (rule fetch) (use f in simp_all)
  moreover have "?R ?s5 ?s6"
    by (rule copy) (use fs(2) n k(4) in \<open>simp_all add: read_copy_def\<close>)
  moreover have "?R ?s6 ?s7" by (rule move) simp
  ultimately have "?R\<^sup>*\<^sup>* ?s0 ?s7"
    by (meson converse_rtranclp_into_rtranclp rtranclp.rtrancl_refl)
  moreover have "seen ?s7 = [65]" "holder ?s7 = None" by (simp_all add: sys_start_def)
  moreover have "\<forall>t. pc ?s7 t = Outside \<or> (\<exists>r. pc ?s7 t = Finished r)" by (simp add: sys_start_def)
  ultimately show ?thesis by blast
qed

lemma sample_run:
  "\<exists>s. (irq_step (\<lambda>_. 0) (\<lambda>c. c \<le> 1) 0)\<^sup>*\<^sup>* (sys_start 0 sample_irq) s \<and>
       seen s = [65] \<and> holder s = None"
  using sample_run_idle by blast

section \<open>Properties\<close>

text \<open>Under any interleaving of readers, pollers and timer handlers, at most one thread is between
  taking and releasing the device's mutex.\<close>

lemma irq_mutual_exclusion:
  assumes "irq_inv k" and "i < 8" and "busy (slot k i)"
    and "(irq_step f okc i)\<^sup>*\<^sup>* (sys_start i k) s"
  shows "holds (pc s t) \<and> holds (pc s u) \<longrightarrow> t = u"
  using sys_inv_reach [OF assms(4) sys_inv_start [OF assms(1-3)]]
  by (auto simp: sys_inv_def)

lemma irq_mutual_exclusion_witness:
  "\<exists>s. (irq_step (\<lambda>_. 0) (\<lambda>c. c \<le> 1) 0)\<^sup>*\<^sup>* (sys_start 0 sample_irq) s \<and> seen s = [65] \<and>
       (\<forall>t u. holds (pc s t) \<and> holds (pc s u) \<longrightarrow> t = u)"
  using sample_run irq_mutual_exclusion [OF sample_irq_simps(1) _ sample_irq_simps(2)] by fastforce

text \<open>The device is a first-in first-out channel: under any interleaving, what the readers have
  received, in the order they received it, is an initial part of what the handler has stored, nothing
  duplicated, skipped or reordered; and when no thread holds the mutex the rest is exactly the content
  of the queue.\<close>

lemma irq_fifo:
  assumes "irq_inv k" and "i < 8" and "busy (slot k i)"
    and "(irq_step (\<lambda>_. 0) okc i)\<^sup>*\<^sup>* (sys_start i k) s"
  shows "(\<exists>rest. produced s = seen s @ rest) \<and>
         (holder s = None \<longrightarrow> produced s = seen s @ items i (kern s))"
proof -
  have inv: "sys_inv okc i s"
    by (rule sys_inv_reach [OF assms(4) sys_inv_start [OF assms(1-3)]])
  have seen: "seen_inv i s"
    by (rule seen_inv_reach [OF assms(4) sys_inv_start [OF assms(1-3)] seen_inv_start])
  have "\<exists>rest. produced s = seen s @ rest"
    by (rule seen_prefix [OF inv seen])
  moreover have "produced s = seen s @ items i (kern s)" if "holder s = None"
    using inv seen that by (simp add: sys_inv_def seen_inv_def)
  ultimately show ?thesis by blast
qed

lemma irq_fifo_witness:
  "\<exists>s. (irq_step (\<lambda>_. 0) (\<lambda>c. c \<le> 1) 0)\<^sup>*\<^sup>* (sys_start 0 sample_irq) s \<and> seen s = [65] \<and>
       produced s = 65 # items 0 (kern s)"
  using sample_run irq_fifo [OF sample_irq_simps(1) _ sample_irq_simps(2)] by fastforce

text \<open>If every read asks for at most one character, no step of any interleaving leaves an array or
  touches freed memory.\<close>

lemma irq_single_reads_safe:
  assumes "irq_inv k" and "i < 8" and "busy (slot k i)"
    and "(irq_step f (\<lambda>c. c \<le> 1) i)\<^sup>*\<^sup>* (sys_start i k) s"
  shows "\<not> irq_fault i s e"
proof
  have inv: "sys_inv (\<lambda>c. c \<le> 1) i s"
    by (rule sys_inv_reach [OF assms(4) sys_inv_start [OF assms(1-3)]])
  then have k: "irq_inv (kern s)" "i < 8" "busy (slot (kern s) i)" by (simp_all add: sys_inv_def)
  assume "irq_fault i s e"
  then show False
  proof cases
    case (tick_fault j)
    then have "j < 8" "busy (slot (kern s) j)"
      using irq_invD(5) [OF k(1)] by (auto simp: busy_ids_def)
    with timer_handler_items [OF k(1)] tick_fault(2) show False by fastforce
  next
    case (fetch_fault t c)
    then have "c \<le> 1" using inv by (auto simp: sys_inv_def dest: spec [of _ t])
    then have "unat c \<le> 1" by (simp add: word_le_nat_alt)
    then have "unat (clip i c (kern s)) \<le> 1" using unat_clip [OF k, of c] by simp
    moreover have "unat (tail (slot (kern s) i)) < 4096" using k by (simp add: irq_inv_def)
    ultimately have "\<exists>n tmp. read_fetch i c (kern s) = Inr (n, tmp)"
      by (subst read_fetch_returns(1) [OF k]) linarith
    with fetch_fault(2) show False by auto
  qed
qed

lemma irq_single_reads_safe_witness:
  "\<exists>s. (irq_step (\<lambda>_. 0) (\<lambda>c. c \<le> 1) 0)\<^sup>*\<^sup>* (sys_start 0 sample_irq) s \<and> seen s = [65] \<and>
       (\<forall>e. \<not> irq_fault 0 s e)"
  using sample_run irq_single_reads_safe [OF sample_irq_simps(1) _ sample_irq_simps(2)] by fastforce

text \<open>With a single registered device, the characters its readers receive, over all threads and
  reads, are the letters A to Z in order, over and over, without a gap, however long the queue was full.\<close>

lemma irq_alphabet:
  assumes "irq_inv k" and "busy_ids k = {i}" and "gen_d k = 64" and "items i k = []"
    and "(irq_step (\<lambda>_. 0) okc i)\<^sup>*\<^sup>* (sys_start i k) s"
  shows "seen s = map (\<lambda>n. of_nat (65 + n mod 26)) [0..<length (seen s)]"
proof -
  have "i \<in> busy_ids k" using assms(2) by simp
  then have k: "i < 8" "busy (slot k i)" by (simp_all add: busy_ids_def)
  have "letters_inv i (sys_start i k)"
    using assms(2-4) by (simp add: letters_inv_def sys_start_def letter_def get_new_char_def)
  from letters_inv_reach [OF assms(5) sys_inv_start [OF assms(1) k] this]
  have p: "produced s = map letter [0..<length (produced s)]" by (simp add: letters_inv_def)
  have inv: "sys_inv okc i s"
    by (rule sys_inv_reach [OF assms(5) sys_inv_start [OF assms(1) k]])
  have seen: "seen_inv i s"
    by (rule seen_inv_reach [OF assms(5) sys_inv_start [OF assms(1) k] seen_inv_start])
  obtain rest where r: "produced s = seen s @ rest"
    using seen_prefix [OF inv seen] by blast
  have "seen s = take (length (seen s)) (map letter [0..<length (produced s)])"
    using p r by (metis append_eq_conv_conj)
  also have "\<dots> = map letter [0..<length (seen s)]"
    using r by (simp add: take_map)
  finally have "seen s = map letter [0..<length (seen s)]" .
  moreover have "letter = (\<lambda>n. of_nat (65 + n mod 26))"
    by (rule ext) (simp only: letter_def)
  ultimately show ?thesis by (simp only:)
qed

lemma irq_alphabet_witness:
  "\<exists>s. (irq_step (\<lambda>_. 0) (\<lambda>c. c \<le> 1) 0)\<^sup>*\<^sup>* (sys_start 0 sample_irq) s \<and>
       seen s = map (\<lambda>n. of_nat (65 + n mod 26)) [0..<length (seen s)] \<and> length (seen s) = 1"
proof -
  from sample_run obtain s where s: "(irq_step (\<lambda>_. 0) (\<lambda>c. c \<le> 1) 0)\<^sup>*\<^sup>* (sys_start 0 sample_irq) s"
    "seen s = [65]" by blast
  from irq_alphabet [OF sample_irq_simps(1,7,6,3) s(1)] s show ?thesis by auto
qed

end
