(* ===== verification/Irq_Queue.thy ===== *)
theory Irq_Queue
  imports Irq_Concurrent
begin

text \<open>
  What the timer-fed device is for its users: a bounded first-in first-out queue of characters.
  The abstract machine has two moves, one that puts a character and one that hands a prefix to
  a user; every step of the interleaved system is one of them or changes nothing. A read takes
  effect when its bytes reach user memory, before the tail of the circular buffer is moved.
\<close>

section \<open>The abstract queue\<close>

record queue_sys =
  queue :: "byte list"
  delivered :: "byte list"

inductive queue_step :: "queue_sys \<Rightarrow> queue_sys \<Rightarrow> bool" where
    put: "length (queue q) < 4095 \<Longrightarrow> queue_step q (q\<lparr>queue := queue q @ [c]\<rparr>)"
  | get: "n \<le> length (queue q) \<Longrightarrow> 0 < n \<Longrightarrow>
      queue_step q (q\<lparr>queue := drop n (queue q), delivered := delivered q @ take n (queue q)\<rparr>)"

inductive_simps queue_step_iff: "queue_step q q'"

lemma put_eq:
  "length xs < 4095 \<Longrightarrow>
   queue_step \<lparr>queue = xs, delivered = d\<rparr> \<lparr>queue = xs @ [c], delivered = d\<rparr>"
  using put [of "\<lparr>queue = xs, delivered = d\<rparr>" c] by simp

lemma get_eq:
  "n \<le> length xs \<Longrightarrow> 0 < n \<Longrightarrow>
   queue_step \<lparr>queue = xs, delivered = d\<rparr> \<lparr>queue = drop n xs, delivered = d @ take n xs\<rparr>"
  using get [of n "\<lparr>queue = xs, delivered = d\<rparr>"] by simp

text \<open>A queue loses nothing and keeps the order.\<close>

lemma queue_step_content:
  "queue_step q q' \<Longrightarrow> \<exists>ys. delivered q' @ queue q' = delivered q @ queue q @ ys"
  by (auto simp: queue_step_iff)

section \<open>The abstraction\<close>

definition handed :: "nat \<Rightarrow> irq_sys \<Rightarrow> nat" where
  "handed i s =
     (case holder s of None \<Rightarrow> 0 | Some t \<Rightarrow> length (pending (items i (kern s)) (pc s t)))"

definition abs_queue :: "nat \<Rightarrow> irq_sys \<Rightarrow> queue_sys" where
  "abs_queue i s = \<lparr>queue = drop (handed i s) (items i (kern s)), delivered = seen s\<rparr>"

lemma abs_queue_start: "abs_queue i (sys_start i k) = \<lparr>queue = items i k, delivered = []\<rparr>"
  by (simp add: abs_queue_def handed_def sys_start_def)

lemma handed_le: "handed i s \<le> length (items i (kern s))"
proof (cases "holder s")
  case None
  then show ?thesis by (simp add: handed_def)
next
  case (Some t)
  then show ?thesis by (cases "pc s t") (simp_all add: handed_def)
qed

text \<open>A step that leaves the holder's hand-over, the content and what was seen alone is invisible.\<close>

lemma abs_queue_same:
  "items i (kern s') = items i (kern s) \<Longrightarrow> seen s' = seen s \<Longrightarrow> handed i s' = handed i s \<Longrightarrow>
   abs_queue i s' = abs_queue i s"
  by (simp add: abs_queue_def)

lemma tick_refines:
  assumes inv: "sys_inv okc i s" and "j \<in> live_timers (ktrace (kern s))"
    and "chrdev_timer_handler j (kern s) = Inr (r, k')"
    and s': "kern s' = k'" "pc s' = pc s" "holder s' = holder s" "seen s' = seen s"
  shows "abs_queue i s' = abs_queue i s \<or> queue_step (abs_queue i s) (abs_queue i s')"
proof -
  have k: "irq_inv (kern s)" "i < 8" "busy (slot (kern s) i)"
    and p: "\<And>t. pc_ok okc (items i (kern s)) (pc s t)"
    using inv by (simp_all add: sys_inv_def)
  have j: "j < 8" "busy (slot (kern s) j)"
    using assms(2) irq_invD(5) [OF k(1)] by (auto simp: busy_ids_def)
  let ?xs = "items i (kern s)" and ?n = "handed i s"
  from timer_handler_items [OF k(1) j] assms(3) have
    full: "if length (items j (kern s)) = 4095 then items j k' = items j (kern s)
       else items j k' = items j (kern s) @ [snd (get_new_char (gen_d (kern s)))]"
    and other: "j \<noteq> i \<Longrightarrow> items i k' = ?xs"
    using k(2,3) by (auto split: if_splits)
  have "length ?xs \<le> 4095" using items_bound [OF k] by simp
  with full other obtain ys where ys: "items i k' = ?xs @ ys"
    and one: "ys = [] \<or> (\<exists>c. ys = [c] \<and> length ?xs < 4095)"
    by (cases "j = i"; cases "length ?xs = 4095") auto
  have "pending (?xs @ ys) (pc s t) = pending ?xs (pc s t)" for t by (rule pending_append [OF p])
  then have n: "handed i s' = ?n" by (simp add: handed_def s' ys split: option.split)
  have "abs_queue i s' = \<lparr>queue = drop ?n ?xs @ ys, delivered = seen s\<rparr>"
    using handed_le [of i s] by (simp add: abs_queue_def n s'(1,4) ys)
  with one show ?thesis
    using put_eq [of "drop ?n ?xs" "seen s"] by (auto simp: abs_queue_def)
qed

lemma step_refines:
  assumes inv: "sys_inv okc i s" and step: "irq_step (\<lambda>_. 0) okc i s s'"
  shows "abs_queue i s' = abs_queue i s \<or> queue_step (abs_queue i s) (abs_queue i s')"
proof -
  have k: "irq_inv (kern s)" "i < 8" "busy (slot (kern s) i)"
    and h: "\<And>t. holds (pc s t) \<longleftrightarrow> holder s = Some t"
    and p: "\<And>t. pc_ok okc (items i (kern s)) (pc s t)"
    using inv by (simp_all add: sys_inv_def)
  have at_t: "holder s = Some t" if "holds (pc s t)" for t
    using that h by blast
  have same: ?thesis
    if "items i (kern s') = items i (kern s)" "seen s' = seen s" "handed i s' = handed i s"
    using abs_queue_same [OF that] ..
  from step show ?thesis
  proof cases
    case (tick j r k')
    then show ?thesis by (intro tick_refines [OF inv tick(2,3)]) simp_all
  next
    case (copy t n tmp out)
    let ?xs = "items i (kern s)"
    have n: "unat n \<le> length ?xs" and out: "out = take (unat n) ?xs"
      using copy(3) p [of t] copy(2) by (simp_all add: read_copy_def)
    have "abs_queue i s = \<lparr>queue = ?xs, delivered = seen s\<rparr>"
      using at_t [of t] copy(2) by (simp add: abs_queue_def handed_def)
    moreover have "abs_queue i s' = \<lparr>queue = drop (unat n) ?xs, delivered = seen s @ take (unat n) ?xs\<rparr>"
      using at_t [of t] copy n out by (simp add: abs_queue_def handed_def)
    ultimately show ?thesis
      using get_eq [OF n, of "seen s"] by (cases "unat n = 0") auto
  next
    case (copy_failed t n tmp out)
    then show ?thesis by (simp add: read_copy_def)
  next
    case (move t n)
    have n: "unat n \<le> length (items i (kern s))"
      using p [of t] move(2) by simp
    have "abs_queue i s' = abs_queue i s"
      using at_t [of t] move read_move_items(2) [OF k n] n by (simp add: abs_queue_def handed_def)
    then show ?thesis ..
  next
    case (go_on t c nb)
    then show ?thesis using at_t [of t] by (intro same) (simp_all add: handed_def)
  next
    case (fetch t c n tmp)
    then show ?thesis using at_t [of t] by (intro same) (simp_all add: handed_def)
  next
    case (try_again t c)
    then show ?thesis using at_t [of t] by (intro same) (simp_all add: handed_def)
  next
    case (signalled t c)
    then show ?thesis using at_t [of t] by (intro same) (simp_all add: handed_def)
  next
    case (poll_check t)
    then show ?thesis using at_t [of t] by (intro same) (simp_all add: handed_def)
  next
    case (call_read t c nb)
    then show ?thesis by (intro same) (auto simp: handed_def split: option.split)
  next
    case (lock t c nb)
    then have "abs_queue i s' = abs_queue i s" by (intro abs_queue_same) (simp_all add: handed_def)
    then show ?thesis ..
  next
    case (call_poll t)
    then show ?thesis by (intro same) (auto simp: handed_def split: option.split)
  next
    case (poll_lock t)
    then have "abs_queue i s' = abs_queue i s" by (intro abs_queue_same) (simp_all add: handed_def)
    then show ?thesis ..
  next
    case (return_read t r)
    then show ?thesis by (intro same) (auto simp: handed_def split: option.split)
  next
    case (return_poll t m)
    then show ?thesis by (intro same) (auto simp: handed_def split: option.split)
  qed
qed

lemma reach_refines:
  assumes "(irq_step (\<lambda>_. 0) okc i)\<^sup>*\<^sup>* s s'" and "sys_inv okc i s"
  shows "queue_step\<^sup>*\<^sup>* (abs_queue i s) (abs_queue i s')"
  using assms
proof (induction rule: rtranclp_induct)
  case base
  then show ?case by simp
next
  case (step t u)
  from step_refines [OF sys_inv_reach [OF step.hyps(1) step.prems] step.hyps(2)] step
  show ?case by (auto intro: rtranclp.rtrancl_into_rtrancl)
qed



end
