(* ===== verification/Irq_Progress.thy ===== *)
theory Irq_Progress
  imports Irq_Concurrent
begin

text \<open>
  Progress of the timer-fed device: which calls can end, and which have to wait for which. The
  mutex is held while a blocking reader sleeps, so the timer is what lets everybody go on.
\<close>

section \<open>Driving a thread out of the mutex\<close>

definition finished_with_count :: "rpc \<Rightarrow> bool" where
  "finished_with_count p \<longleftrightarrow> (\<exists>r. p = Finished r \<and> unat r < 4096) \<or> (\<exists>m. p = PollDone m)"

text \<open>From \<open>s\<close>, thread \<open>t\<close> can end its call with a count and release the mutex, the others staying put.\<close>

definition can_end :: "copy_fun \<Rightarrow> nat \<Rightarrow> nat \<Rightarrow> irq_sys \<Rightarrow> bool" where
  "can_end f i t s \<longleftrightarrow>
     (\<exists>s'. (irq_step f (\<lambda>c. c \<le> 1) i)\<^sup>*\<^sup>* s s' \<and> finished_with_count (pc s' t) \<and> holder s' = None \<and>
           (\<forall>u. u \<noteq> t \<longrightarrow> pc s' u = pc s u))"

lemma can_end_now:
  assumes "irq_step f (\<lambda>c. c \<le> 1) i s s'" and "finished_with_count (pc s' t)" and "holder s' = None"
    and "\<forall>u. u \<noteq> t \<longrightarrow> pc s' u = pc s u"
  shows "can_end f i t s"
  using assms unfolding can_end_def by blast

lemma can_end_step:
  assumes "irq_step f (\<lambda>c. c \<le> 1) i s s1" and "can_end f i t s1"
    and "\<forall>u. u \<noteq> t \<longrightarrow> pc s1 u = pc s u"
  shows "can_end f i t s"
  using assms unfolding can_end_def by (metis converse_rtranclp_into_rtranclp)

lemma count_small:
  assumes "sys_inv okc i s" and "unat n \<le> length (items i (kern s))"
  shows "unat n < 4096"
  using assms items_bound [of "kern s" i] by (simp add: sys_inv_def)

lemma copied_ends:
  assumes "sys_inv (\<lambda>c. c \<le> 1) i s" and "pc s t = Copied n"
  shows "can_end f i t s"
proof -
  have "pc_ok (\<lambda>c. c \<le> 1) (items i (kern s)) (pc s t)" using assms(1) by (simp add: sys_inv_def)
  then have "unat n < 4096" using assms(2) count_small [OF assms(1), of n] by simp
  then show ?thesis
    by (intro can_end_now [OF move [OF assms(2)]]) (simp_all add: finished_with_count_def)
qed

lemma fetched_ends:
  assumes inv: "sys_inv (\<lambda>c. c \<le> 1) i s" and pc: "pc s t = Fetched n tmp"
  shows "can_end f i t s"
proof (cases "read_copy f n tmp")
  case (Pair out failed)
  have "pc_ok (\<lambda>c. c \<le> 1) (items i (kern s)) (pc s t)" using inv by (simp add: sys_inv_def)
  then have n: "unat n < 4096" using pc count_small [OF inv, of n] by simp
  show ?thesis
  proof (cases failed)
    case True
    then have "read_copy f n tmp = (out, True)" using Pair by simp
    from copy_failed [OF pc this] show ?thesis
      by (rule can_end_now) (simp_all add: finished_with_count_def n)
  next
    case False
    then have "read_copy f n tmp = (out, False)" using Pair by simp
    from copy [OF pc this] have step: "irq_step f (\<lambda>c. c \<le> 1) i s (at t (Copied n) (s\<lparr>seen := seen s @ out\<rparr>))" .
    show ?thesis
      by (rule can_end_step [OF step copied_ends [OF sys_inv_step [OF inv step]]]) simp_all
  qed
qed

lemma fetch_returns:
  assumes inv: "sys_inv (\<lambda>c. c \<le> 1) i s" and pc: "pc s t = Ready c"
  shows "\<exists>n tmp. read_fetch i c (kern s) = Inr (n, tmp)"
proof -
  have k: "irq_inv (kern s)" "i < 8" "busy (slot (kern s) i)" using inv by (simp_all add: sys_inv_def)
  have "pc_ok (\<lambda>c. c \<le> 1) (items i (kern s)) (pc s t)" using inv by (simp add: sys_inv_def)
  then have "c \<le> 1" using pc by simp
  then have "unat c \<le> 1" by (simp add: word_le_nat_alt)
  then have "unat (clip i c (kern s)) \<le> 1" using unat_clip [OF k, of c] by simp
  moreover have "unat (tail (slot (kern s) i)) < 4096" using k by (simp add: irq_inv_def)
  ultimately show ?thesis
    by (subst read_fetch_returns(1) [OF k]) linarith
qed

lemma ready_ends:
  assumes inv: "sys_inv (\<lambda>c. c \<le> 1) i s" and pc: "pc s t = Ready c"
  shows "can_end f i t s"
proof -
  from fetch_returns [OF assms] obtain n tmp where "read_fetch i c (kern s) = Inr (n, tmp)" by blast
  from fetch [OF pc this] have step: "irq_step f (\<lambda>c. c \<le> 1) i s (at t (Fetched n tmp) s)" .
  show ?thesis
    by (rule can_end_step [OF step fetched_ends [OF sys_inv_step [OF inv step]]]) simp_all
qed

text \<open>The timer of a registered device can expire, and then its queue is not empty.\<close>

lemma tick_possible:
  assumes inv: "sys_inv okc i s" and empty: "items i (kern s) = []"
  shows "\<exists>k' ys. irq_step f okc i s (s\<lparr>kern := k', produced := produced s @ ys\<rparr>) \<and> items i k' \<noteq> []"
proof -
  have k: "irq_inv (kern s)" "i < 8" "busy (slot (kern s) i)" using inv by (simp_all add: sys_inv_def)
  have live: "i \<in> live_timers (ktrace (kern s))"
    using k irq_invD(5) [OF k(1)] by (auto simp: busy_ids_def)
  from timer_handler_items [OF k] empty obtain r k' where
    "chrdev_timer_handler i (kern s) = Inr (r, k')" "items i k' \<noteq> []" by fastforce
  with tick [OF live this(1)] show ?thesis by blast
qed

lemma holding_ends:
  assumes inv: "sys_inv (\<lambda>c. c \<le> 1) i s" and pc: "pc s t = Holding c nb"
  shows "can_end f i t s"
proof -
  have k: "irq_inv (kern s)" "i < 8" "busy (slot (kern s) i)" using inv by (simp_all add: sys_inv_def)
  have "pc_ok (\<lambda>c. c \<le> 1) (items i (kern s)) (pc s t)" using inv by (simp add: sys_inv_def)
  then have "unat c \<le> 1" using pc by (simp add: word_le_nat_alt)
  then have c: "unat c < 4096" by simp
  have full: "can_end f i t u" if "sys_inv (\<lambda>c. c \<le> 1) i u" "pc u t = Holding c nb" "items i (kern u) \<noteq> []" for u
  proof -
    have "\<not> empty_irq i (kern u)" using that(1,3) empty_irq_items by (simp add: sys_inv_def)
    from go_on [OF that(2) this] have step: "irq_step f (\<lambda>c. c \<le> 1) i u (at t (Ready c) u)" .
    show ?thesis
      by (rule can_end_step [OF step ready_ends [OF sys_inv_step [OF that(1) step]]]) simp_all
  qed
  show ?thesis
  proof (cases "items i (kern s) = []")
    case False
    then show ?thesis using full inv pc by blast
  next
    case True
    then have e: "empty_irq i (kern s)" using empty_irq_items [OF k] by simp
    show ?thesis
    proof (cases nb)
      case True
      with pc have "pc s t = Holding c True" by simp
      from try_again [OF this e] show ?thesis
        by (rule can_end_now) (simp_all add: finished_with_count_def c)
    next
      case False
      from tick_possible [OF inv True] obtain k' ys where
        step: "irq_step f (\<lambda>c. c \<le> 1) i s (s\<lparr>kern := k', produced := produced s @ ys\<rparr>)" and "items i k' \<noteq> []"
        by blast
      then show ?thesis
        using pc by (intro can_end_step [OF step full [OF sys_inv_step [OF inv step]]]) simp_all
    qed
  qed
qed

lemma holder_ends:
  assumes inv: "sys_inv (\<lambda>c. c \<le> 1) i s" and h: "holds (pc s t)"
  shows "can_end f i t s"
proof (cases "pc s t")
  case PollHolding
  from poll_check [OF this] show ?thesis
    by (rule can_end_now) (simp_all add: finished_with_count_def)
qed (use h holding_ends [OF inv] ready_ends [OF inv] fetched_ends [OF inv] copied_ends [OF inv] in auto)

text \<open>A thread waiting for the mutex gets it after its holder.\<close>

lemma waiting_ends:
  assumes inv: "sys_inv (\<lambda>c. c \<le> 1) i s" and w: "pc s t = Want c nb \<or> pc s t = PollWant"
  shows "\<exists>s'. (irq_step f (\<lambda>c. c \<le> 1) i)\<^sup>*\<^sup>* s s' \<and> finished_with_count (pc s' t)"
proof -
  have free: "\<exists>s'. (irq_step f (\<lambda>c. c \<le> 1) i)\<^sup>*\<^sup>* u s' \<and> finished_with_count (pc s' t)"
    if u: "sys_inv (\<lambda>c. c \<le> 1) i u" "holder u = None" "pc u t = Want c nb \<or> pc u t = PollWant" for u
  proof -
    have "\<exists>u1. irq_step f (\<lambda>c. c \<le> 1) i u u1 \<and> holds (pc u1 t)"
      using u(3)
    proof
      assume "pc u t = Want c nb"
      from lock [OF this u(2)] have "irq_step f (\<lambda>c. c \<le> 1) i u (at t (Holding c nb) (u\<lparr>holder := Some t\<rparr>))" .
      then show ?thesis by (intro exI conjI, assumption) simp
    next
      assume "pc u t = PollWant"
      from poll_lock [OF this u(2)] have "irq_step f (\<lambda>c. c \<le> 1) i u (at t PollHolding (u\<lparr>holder := Some t\<rparr>))" .
      then show ?thesis by (intro exI conjI, assumption) simp
    qed
    then obtain u1 where u1: "irq_step f (\<lambda>c. c \<le> 1) i u u1" "holds (pc u1 t)" by blast
    from holder_ends [OF sys_inv_step [OF u(1) u1(1)] u1(2)] u1(1) show ?thesis
      unfolding can_end_def by (meson converse_rtranclp_into_rtranclp)
  qed
  show ?thesis
  proof (cases "holder s")
    case None
    with free inv w show ?thesis by blast
  next
    case (Some v)
    then have v: "holds (pc s v)" using inv by (simp add: sys_inv_def)
    then have "v \<noteq> t" using w by auto
    from holder_ends [OF inv v, of f] obtain u where
      u: "(irq_step f (\<lambda>c. c \<le> 1) i)\<^sup>*\<^sup>* s u" "holder u = None" "pc u t = pc s t"
      using \<open>v \<noteq> t\<close> by (auto simp: can_end_def)
    from free [OF sys_inv_reach [OF u(1) inv] u(2)] w u(3) obtain s' where
      "(irq_step f (\<lambda>c. c \<le> 1) i)\<^sup>*\<^sup>* u s'" "finished_with_count (pc s' t)" by auto
    with u(1) show ?thesis by (meson rtranclp_trans)
  qed
qed

section \<open>After the device is unregistered\<close>

text \<open>The queue is empty, its timer is stopped, and no thread is past the check for data.\<close>

fun past_check :: "rpc \<Rightarrow> bool" where
  "past_check (Ready c) = True"
| "past_check (Fetched n tmp) = True"
| "past_check (Copied n) = True"
| "past_check _ = False"

definition dried_up :: "nat \<Rightarrow> irq_sys \<Rightarrow> bool" where
  "dried_up i s \<longleftrightarrow> i \<notin> live_timers (ktrace (kern s)) \<and> empty_irq i (kern s) \<and>
     (\<forall>u. \<not> past_check (pc s u))"

lemma slot_upd_other: "i \<noteq> j \<Longrightarrow> slot (upd_slot j f s) i = slot s i"
  by (simp add: slot_def upd_slot_def)

lemma slot_gen_d: "slot (s\<lparr>gen_d := d\<rparr>) i = slot s i"
  by (simp add: slot_def)

lemma dried_upD:
  assumes "dried_up i s"
  shows "pc s u \<noteq> Ready c" and "pc s u \<noteq> Fetched n tmp" and "pc s u \<noteq> Copied n"
  using assms unfolding dried_up_def by (metis past_check.simps)+

text \<open>The handler of another device's timer.\<close>

lemma timer_handler_other:
  assumes "chrdev_timer_handler j k = Inr (r, k')" and "i \<noteq> j"
  shows "slot k' i = slot k i" and "live_timers (ktrace k') = live_timers (ktrace k)"
proof -
  from assms(1) obtain u where u: "timer_produce j k = Inr u"
    "k' = call (Timer_Forward j (sint (delay_ns u))) (call (Kill_Fasync j) (call (Wake_Up j) u))"
    by (auto simp: chrdev_timer_handler_def bindo_Inr_iff)
  have "slot u i = slot k i \<and> ktrace u = ktrace k"
    using u(1) assms(2)
    by (auto simp: timer_produce_def Let_def split_beta bindo_Inr_iff store_buf_def slot_upd_other slot_gen_d
        split: if_splits option.splits)
  then show "slot k' i = slot k i" "live_timers (ktrace k') = live_timers (ktrace k)"
    using u(2) by simp_all
qed

lemma dried_up_step:
  assumes d: "dried_up i s" and step: "irq_step f okc i s s'"
  shows "dried_up i s'"
  using step
proof cases
  case (tick j r k)
  then have "i \<noteq> j" using d by (auto simp: dried_up_def)
  with d tick show ?thesis
    using timer_handler_other [OF tick(3)] by (simp add: dried_up_def empty_irq_def)
qed (use d dried_upD [OF d] in \<open>auto simp: dried_up_def split: if_splits\<close>)

lemma dried_up_reach:
  "(irq_step f okc i)\<^sup>*\<^sup>* s s' \<Longrightarrow> dried_up i s \<Longrightarrow> dried_up i s'"
  by (induction rule: rtranclp_induct) (auto intro: dried_up_step)

section \<open>Properties\<close>

fun in_call :: "rpc \<Rightarrow> bool" where
  "in_call (Want c nb) = True"
| "in_call PollWant = True"
| "in_call p = holds p"


text \<open>C30: a blocking reader sleeps with the device's mutex held, so polling the device, and reading it
  without blocking, wait as well: there is a run to a state in which thread 0 sleeps in a read of the
  empty device, and for as long as it does, a poll that thread 1 has called and a non-blocking read
  that thread 2 has called do not move, whatever else happens.\<close>

theorem sleeping_reader_blocks_poll:
  assumes "irq_inv k" and "i < 8" and "busy (slot k i)" and "items i k = []" and "okc c" and "okc c'"
  shows "\<exists>s. (irq_step f okc i)\<^sup>*\<^sup>* (sys_start i k) s \<and> empty_irq i (kern s) \<and> pc s 0 = Holding c False \<and>
     (\<forall>s'. (\<lambda>a b. irq_step f okc i a b \<and> pc b 0 = Holding c False)\<^sup>*\<^sup>* s s' \<longrightarrow>
        pc s' 1 = PollWant \<and> pc s' 2 = Want c' True)"
proof -
  let ?R = "irq_step f okc i" and ?s0 = "sys_start i k"
  let ?s1 = "at 0 (Want c False) ?s0" let ?s2 = "at 0 (Holding c False) (?s1\<lparr>holder := Some 0\<rparr>)"
  let ?s3 = "at 1 PollWant ?s2" let ?s4 = "at 2 (Want c' True) ?s3"
  have "?R ?s0 ?s1" by (rule call_read) (simp_all add: sys_start_def assms(5))
  moreover have "?R ?s1 ?s2" by (rule lock) (simp_all add: sys_start_def)
  moreover have "?R ?s2 ?s3" by (rule call_poll) (simp add: sys_start_def)
  moreover have "?R ?s3 ?s4" by (rule call_read) (simp_all add: sys_start_def assms(6))
  ultimately have run: "?R\<^sup>*\<^sup>* ?s0 ?s4"
    by (meson converse_rtranclp_into_rtranclp rtranclp.rtrancl_refl)
  have inv: "sys_inv okc i ?s4" by (rule sys_inv_reach [OF run sys_inv_start [OF assms(1-3)]])
  have empty: "empty_irq i (kern ?s4)"
    using empty_irq_items [OF assms(1-3)] assms(4) by (simp add: sys_start_def)
  have stay: "sys_inv okc i s' \<and> pc s' 0 = Holding c False \<and> pc s' 1 = PollWant \<and> pc s' 2 = Want c' True"
    if "(\<lambda>a b. ?R a b \<and> pc b 0 = Holding c False)\<^sup>*\<^sup>* ?s4 s'" for s'
    using that
  proof (induction rule: rtranclp_induct)
    case base
    then show ?case using inv by simp
  next
    case (step a b)
    then have a: "sys_inv okc i a" "pc a 1 = PollWant" "pc a 2 = Want c' True" "holder a = Some 0"
      by (auto simp: sys_inv_def dest: spec [of _ 0])
    from step have b: "?R a b" "pc b 0 = Holding c False" by simp_all
    from b(1) have "pc b 1 = PollWant \<and> pc b 2 = Want c' True"
      by cases (use a(2-4) in \<open>auto split: if_splits\<close>)
    with sys_inv_step [OF a(1) b(1)] b(2) show ?case by simp
  qed
  from stay have "\<forall>s'. (\<lambda>a b. ?R a b \<and> pc b 0 = Holding c False)\<^sup>*\<^sup>* ?s4 s' \<longrightarrow>
      pc s' 1 = PollWant \<and> pc s' 2 = Want c' True" by blast
  moreover have "pc ?s4 0 = Holding c False" by simp
  ultimately show ?thesis using run empty by blast
qed


theorem sleeping_reader_blocks_poll_witness:
  "\<exists>s. (irq_step (\<lambda>_. 0) (\<lambda>c. c \<le> 1) 0)\<^sup>*\<^sup>* (sys_start 0 sample_irq) s \<and> empty_irq 0 (kern s) \<and>
       pc s 0 = Holding 1 False \<and> pc s 1 = PollWant"
proof -
  from sleeping_reader_blocks_poll [OF sample_irq_simps(1) _ sample_irq_simps(2), of "\<lambda>c. c \<le> 1" 1 1 "\<lambda>_. 0"]
  show ?thesis by (auto simp: sample_irq_simps)
qed

text \<open>C31: unregistering a device strands a reader that sleeps in it: its timer is stopped and nobody wakes the
  sleeper, so from then on, in every run, no character ever comes, and a blocking read that is waiting for
  one goes on waiting, with the mutex held, unless it gets a signal.\<close>

theorem unregister_strands_reader:
  assumes "irq_inv k" and "i < 8" and "busy (slot k i)"
    and "(irq_step f okc i)\<^sup>*\<^sup>* (sys_start i k) s"
    and "pc s t = Holding c False" and "empty_irq i (kern s)"
    and "chrdev_device_unregister_irq lbl (of_nat i) (kern s) = Inr (0, k')"
    and "(irq_step f okc i)\<^sup>*\<^sup>* (s\<lparr>kern := k'\<rparr>) s'"
  shows "empty_irq i (kern s') \<and>
     (\<forall>u d s''. pc s' u = Holding d False \<longrightarrow> irq_step f okc i s' s'' \<longrightarrow>
        pc s'' u = Holding d False \<or> pc s'' u = Finished (- ERESTARTSYS))"
proof -
  have inv: "sys_inv okc i s"
    by (rule sys_inv_reach [OF assms(4) sys_inv_start [OF assms(1-3)]])
  then have k: "irq_inv (kern s)" and h: "\<And>u. holds (pc s u) \<longleftrightarrow> holder s = Some u"
    by (simp_all add: sys_inv_def)
  have "\<not> past_check (pc s u)" for u
    using h [of u] h [of t] assms(5) by (cases "pc s u") auto
  moreover note eff = unregister_irq_effect [OF assms(7) irq_invD(4) [OF k]]
  have "i \<notin> live_timers (ktrace k')" "empty_irq i k'"
    using eff(1) eff(2) [OF assms(2)] assms(2,6) unat_small_id [of i] by (simp_all add: empty_irq_def)
  ultimately have "dried_up i (s\<lparr>kern := k'\<rparr>)" by (simp add: dried_up_def)
  then have d: "dried_up i s'" by (rule dried_up_reach [OF assms(8)])
  have "pc s'' u = Holding d' False \<or> pc s'' u = Finished (- ERESTARTSYS)"
    if "pc s' u = Holding d' False" "irq_step f okc i s' s''" for u d' s''
    using that(2)
    by cases (use d dried_upD [OF d] that(1) in \<open>auto simp: dried_up_def split: if_splits\<close>)
  with d show ?thesis by (auto simp: dried_up_def)
qed

lemma sample_irq_label: "devices_of sample_irq 0 = Some (label_array (cstr ''a''))"
  unfolding sample_irq_def
  by (subst registered_mem_inv(2) [OF irq_invD(1) [OF irq_inv_start] _ _ _ _ irq_extras(1,2), of _ _ _ 7])
    (simp_all add: sample_env_irq_def, simp_all add: start_irq_def zero_irq_def slot_def)

theorem unregister_strands_reader_witness:
  "\<exists>s k'. pc s 0 = Holding 1 False \<and> chrdev_device_unregister_irq (cstr ''a'') 0 (kern s) = Inr (0, k') \<and>
     (\<forall>s'. (irq_step (\<lambda>_. 0) (\<lambda>c. c \<le> 1) 0)\<^sup>*\<^sup>* (s\<lparr>kern := k'\<rparr>) s' \<longrightarrow> empty_irq 0 (kern s'))"
proof -
  let ?R = "irq_step (\<lambda>_. 0) (\<lambda>c. c \<le> 1) 0" and ?s0 = "sys_start 0 sample_irq"
  let ?s1 = "at 0 (Want 1 False) ?s0" let ?s2 = "at 0 (Holding 1 False) (?s1\<lparr>holder := Some 0\<rparr>)"
  have "?R ?s0 ?s1" by (rule call_read) (simp_all add: sys_start_def)
  moreover have "?R ?s1 ?s2" by (rule lock) (simp_all add: sys_start_def)
  ultimately have run: "?R\<^sup>*\<^sup>* ?s0 ?s2" by (meson converse_rtranclp_into_rtranclp rtranclp.rtrancl_refl)
  have kern: "kern ?s2 = sample_irq" by (simp add: sys_start_def)
  have short: "length (str_of (cstr ''a'')) < 32" by (simp add: str_of_cstr NUL_def)
  obtain k' where k': "chrdev_device_unregister_irq (cstr ''a'') 0 sample_irq = Inr (0, k')"
    using unregister_irq_returns [OF sample_irq_simps(1) is_cstr_cstr, of 0 "''a''"] sample_irq_label
      label_array_short [OF short]
    by (auto simp: names_def split: if_splits)
  have "empty_irq 0 (kern s')" if "?R\<^sup>*\<^sup>* (?s2\<lparr>kern := k'\<rparr>) s'" for s'
    using unregister_strands_reader [OF sample_irq_simps(1) _ sample_irq_simps(2) run, of 0 1 "cstr ''a''" k' s']
      that k' kern sample_irq_simps by (simp add: empty_irq_def cbuf_is_empty_def)
  with k' kern show ?thesis by (intro exI [of _ ?s2] exI [of _ k']) simp
qed

end
