(* ===== verification/Irq_Rereg.thy ===== *)
theory Irq_Rereg
  imports Irq_Progress
begin

text \<open>
  The timer-fed device unregistered and registered again while threads are inside it. Registering
  initialises the mutex and the wait queue of the slot anew: a reader that sleeps in the slot is on
  no queue any more, so no expiry wakes it, and the mutex it holds is free. A signal still
  reaches it; then \<open>wait_event_interruptible()\<close> looks at the condition once more, and the reader goes on
  as if it held the mutex, or gives up and releases it, whoever holds it by then.
\<close>

section \<open>The interleaving with registrations\<close>

text \<open>\<open>L\<close> holds the threads whose wait queue was initialised under them.\<close>

inductive life_step ::
  "copy_fun \<Rightarrow> (u64 \<Rightarrow> bool) \<Rightarrow> nat \<Rightarrow> irq_sys \<times> nat set \<Rightarrow> irq_sys \<times> nat set \<Rightarrow> bool"
  for f okc i where
    goes: "irq_step f okc i s s' \<Longrightarrow> (\<forall>t \<in> L. pc s' t = pc s t) \<Longrightarrow> life_step f okc i (s, L) (s', L)"
  | lost_data: "t \<in> L \<Longrightarrow> pc s t = Holding c False \<Longrightarrow> \<not> empty_irq i (kern s) \<Longrightarrow>
      life_step f okc i (s, L) (at t (Ready c) s, L - {t})"
  | lost_signal: "t \<in> L \<Longrightarrow> pc s t = Holding c False \<Longrightarrow> empty_irq i (kern s) \<Longrightarrow>
      life_step f okc i (s, L) (at t (Finished (- ERESTARTSYS)) (s\<lparr>holder := None\<rparr>), L - {t})"
  | unregisters: "chrdev_device_unregister_irq lbl (of_nat i) (kern s) = Inr (r, k) \<Longrightarrow>
      life_step f okc i (s, L) (s\<lparr>kern := k\<rparr>, L)"
  | registers: "chrdev_device_register_irq e lbl (of_nat i) ro owner parent (kern s) = Inr (0, k) \<Longrightarrow>
      (\<forall>t \<in> asleep. \<exists>c. pc s t = Holding c False) \<Longrightarrow>
      life_step f okc i (s, L) (s\<lparr>kern := k, holder := None\<rparr>, L \<union> asleep)"
  | not_registered: "chrdev_device_register_irq e lbl (of_nat i) ro owner parent (kern s) = Inr (r, k) \<Longrightarrow>
      r \<noteq> 0 \<Longrightarrow> life_step f okc i (s, L) (s\<lparr>kern := k\<rparr>, L)"

section \<open>Two readers in the critical section\<close>

text \<open>A read of the only character.\<close>

lemma fetch_single:
  assumes "irq_inv k" and "i < 8" and "busy (slot k i)" and "items i k = [x]" and "1 \<le> c"
  shows "\<exists>tmp. read_fetch i c k = Inr (1, tmp) \<and> read_copy (\<lambda>_. 0) 1 tmp = ([x], False)"
proof -
  have c: "1 \<le> unat c" using assms(5) by (simp add: word_le_nat_alt)
  then have clip: "unat (clip i c k) = 1" using unat_clip [OF assms(1-3), of c] assms(4) by simp
  have "unat (tail (slot k i)) < 4096" using assms(1-3) by (simp add: irq_inv_def)
  then obtain n tmp where f: "read_fetch i c k = Inr (n, tmp)"
    using read_fetch_returns(1) [OF assms(1-3), of c] clip by auto
  note r = read_fetch_sound [OF assms(1-3) f]
  have "unat n = unat (1 :: u64)" using r(1) assms(4) c by simp
  then have n: "n = 1" by (simp only: unsigned_word_eqI)
  have "take 1 tmp = [x]" using r(2) n assms(4) by simp
  moreover have "\<not> negative (0 :: s32)" by (simp add: negative_def)
  ultimately show ?thesis using f n by (simp add: read_copy_def)
qed

text \<open>A tail that moves past the head makes the queue look full.\<close>

lemma items_length:
  "length (items i k) = (unat (head (slot k i)) + 4096 - unat (tail (slot k i))) mod 4096"
  by (simp add: items_def ring_items_def ring_count_def)

lemma past_empty:
  assumes "h < 4096" and "t < 4096" and "(h + 4096 - t) mod 4096 = (1 :: nat)"
  shows "(h + 4096 - ((t + 1) mod 4096 + 1) mod 4096) mod 4096 = 4095"
proof -
  from ring_count_alt [of h 4096 t] assms have "h = t + 1 \<or> t = 4095 \<and> h = 0"
    by (auto split: if_splits)
  then show ?thesis
  proof
    assume h: "h = t + 1"
    show ?thesis
    proof (cases "t + 2 = 4096")
      case True
      then show ?thesis using h by simp
    next
      case False
      then have "(t + 1) mod 4096 = t + 1" "(t + 1 + 1) mod 4096 = t + 2" using h assms(1) by simp_all
      then show ?thesis using h assms(1) ring_count_alt [of h 4096 "t + 2"] False by simp
    qed
  qed simp
qed

lemma moved_twice:
  assumes "irq_inv k" and "i < 8" and "busy (slot k i)" and "items i k = [x]"
  shows "length (items i (read_move i 1 (read_move i 1 k))) = 4095"
proof -
  note len = irq_invD(4) [OF assms(1)]
  have b: "unat (head (slot k i)) < 4096" "unat (tail (slot k i)) < 4096"
    using assms(1-3) by (auto simp: irq_inv_def)
  have mv: "unat (cbuf_pointer_move p 1 BUF_LEN_irq) = (unat p + 1) mod 4096" if "unat p < 4096" for p
    using cbuf_pointer_move_nat [of p BUF_LEN_irq 1] that by simp
  have "unat (tail (slot (read_move i 1 (read_move i 1 k)) i)) = ((unat (tail (slot k i)) + 1) mod 4096 + 1) mod 4096"
    using len assms(2) b(2) mv [OF b(2)] mv [of "cbuf_pointer_move (tail (slot k i)) 1 BUF_LEN_irq"]
    by (simp add: read_move_def slot_def upd_slot_def)
  moreover have "head (slot (read_move i 1 (read_move i 1 k)) i) = head (slot k i)"
    using len assms(2) by (simp add: read_move_def slot_def upd_slot_def)
  moreover have "(unat (head (slot k i)) + 4096 - unat (tail (slot k i))) mod 4096 = 1"
    using items_length [of i k] assms(4) by simp
  ultimately show ?thesis using past_empty [OF b] by (simp add: items_length)
qed

text \<open>The run: a fresh queue, a reader \<open>t\<close> that was forgotten and a new one \<open>u\<close>.\<close>

lemma both_read:
  assumes k: "irq_inv (kern s)" "i < 8" "busy (slot (kern s) i)" and empty: "items i (kern s) = []"
    and pcs: "pc s t = Holding c False" "pc s u = Outside" "t \<noteq> u" and free: "holder s = None"
    and c: "1 \<le> c" and one: "okc 1"
  shows "\<exists>s' x. (life_step (\<lambda>_. 0) okc i)\<^sup>*\<^sup>* (s, {t}) (s', {}) \<and> produced s' = produced s @ [x] \<and>
     seen s' = seen s @ [x, x] \<and> pc s' t = Finished 1 \<and> pc s' u = Finished 1 \<and>
     length (items i (kern s')) = 4095"
proof -
  let ?R = "life_step (\<lambda>_. 0) okc i"
  have live: "i \<in> live_timers (ktrace (kern s))"
    using k irq_invD(5) [OF k(1)] by (simp add: busy_ids_def)
  from timer_handler_items [OF k] empty obtain x k' where
    h: "chrdev_timer_handler i (kern s) = Inr (HRTIMER_RESTART, k')" "irq_inv k'"
      "devices_of k' = devices_of (kern s)" and x: "items i k' = [x]" by auto
  have b: "busy (slot k' i)" using h(3) k(2,3) by (metis devices_of_busy)
  have some: "\<not> empty_irq i k'" using empty_irq_items [OF h(2) k(2) b] x by simp
  from fetch_single [OF h(2) k(2) b x] obtain tmp where
    tmp: "read_fetch i 1 k' = Inr (1, tmp)" "read_copy (\<lambda>_. 0) 1 tmp = ([x], False)" by fastforce
  from fetch_single [OF h(2) k(2) b x c] obtain tmp' where
    tmp': "read_fetch i c k' = Inr (1, tmp')" "read_copy (\<lambda>_. 0) 1 tmp' = ([x], False)" by blast
  let ?s1 = "s\<lparr>kern := k', produced := produced s @ [x]\<rparr>"
  let ?s2 = "at u (Want 1 False) ?s1"
  let ?s3 = "at u (Holding 1 False) (?s2\<lparr>holder := Some u\<rparr>)"
  let ?s4 = "at u (Ready 1) ?s3"
  let ?s5 = "at t (Ready c) ?s4"
  let ?s6 = "at u (Fetched 1 tmp) ?s5"
  let ?s7 = "at t (Fetched 1 tmp') ?s6"
  let ?s8 = "at u (Copied 1) (?s7\<lparr>seen := seen ?s7 @ [x]\<rparr>)"
  let ?s9 = "at t (Copied 1) (?s8\<lparr>seen := seen ?s8 @ [x]\<rparr>)"
  let ?m = "\<lambda>w z. at w (Finished 1) (z\<lparr>kern := read_move i 1 (kern z), holder := None,
      taken := taken z @ take (unat (1 :: u64)) (items i (kern z))\<rparr>)"
  have 1: "?R (s, {t}) (?s1, {t})"
    using tick [OF live h(1), of "\<lambda>_. 0" okc i] empty x by (intro goes) simp_all
  have 2: "?R (?s1, {t}) (?s2, {t})"
    by (rule goes [OF call_read]) (use pcs one in simp_all)
  have 3: "?R (?s2, {t}) (?s3, {t})"
    by (rule goes [OF lock]) (use pcs free in simp_all)
  have 4: "?R (?s3, {t}) (?s4, {t})"
    by (rule goes [OF go_on]) (use pcs some in simp_all)
  have "?R (?s4, {t}) (?s5, {t} - {t})"
    by (rule lost_data) (use pcs some in simp_all)
  then have 5: "?R (?s4, {t}) (?s5, {})" by simp
  have 6: "?R (?s5, {}) (?s6, {})"
    by (rule goes [OF fetch]) (use pcs tmp in simp_all)
  have 7: "?R (?s6, {}) (?s7, {})"
    by (rule goes [OF fetch]) (use pcs tmp' in simp_all)
  have 8: "?R (?s7, {}) (?s8, {})"
    by (rule goes [OF copy]) (use pcs tmp in simp_all)
  have 9: "?R (?s8, {}) (?s9, {})"
    by (rule goes [OF copy]) (use pcs tmp' in simp_all)
  have 10: "?R (?s9, {}) (?m u ?s9, {})"
    by (rule goes [OF move]) (use pcs in simp_all)
  have 11: "?R (?m u ?s9, {}) (?m t (?m u ?s9), {})"
    by (rule goes [OF move]) (use pcs in simp_all)
  have "?R\<^sup>*\<^sup>* (s, {t}) (?m t (?m u ?s9), {})"
    using 1 2 3 4 5 6 7 8 9 10 11 by (meson converse_rtranclp_into_rtranclp rtranclp.rtrancl_refl)
  moreover have "length (items i (kern (?m t (?m u ?s9)))) = 4095"
    using moved_twice [OF h(2) k(2) b x] by simp
  moreover have "produced (?m t (?m u ?s9)) = produced s @ [x]" "seen (?m t (?m u ?s9)) = seen s @ [x, x]"
    "pc (?m t (?m u ?s9)) t = Finished 1" "pc (?m t (?m u ?s9)) u = Finished 1"
    using pcs by simp_all
  ultimately show ?thesis by blast
qed

text \<open>A slot that was unregistered and registered again is registered and empty.\<close>

lemma registered_again:
  assumes inv: "irq_inv k" and i: "i < 8"
    and unreg: "chrdev_device_unregister_irq lbl (of_nat i) k = Inr (0, k1)" "is_cstr lbl"
    and known: "\<And>l. devices_of k i = Some l \<Longrightarrow> is_cstr l"
    and reg: "chrdev_device_register_irq e lbl' (of_nat i) ro owner parent k1 = Inr (0, k2)" "is_cstr lbl'"
      "mem_env_good e k1"
  shows "irq_inv k2" and "busy (slot k2 i)" and "items i k2 = []"
proof -
  have ui: "unat (of_nat i :: u32) = i" using i by (rule unat_small_id)
  from unregister_irq_returns [OF inv unreg(2), of "of_nat i"] known unreg(1) have
    k1: "irq_inv k1" "devices_of k1 = (devices_of k)(i := None)" by (auto simp: ui)
  from register_irq_returns [OF k1(1) reg(2,3), of "of_nat i" ro owner parent] reg(1) have
    k2: "irq_inv k2" "devices_of k2 = (devices_of k1)(i \<mapsto> label_array lbl')" by (auto simp: ui)
  then show "irq_inv k2" and b: "busy (slot k2 i)"
    using i devices_of_busy [of i k2] by auto
  have "\<not> busy (slot k1 i)" using k1(2) i devices_of_busy [of i k1] by simp
  with register_irq_effect(2) [OF reg(1) irq_invD(4) [OF k1(1)] _ i b] reg(3) have
    "head (slot k2 i) = 0 \<and> tail (slot k2 i) = 0" by (simp add: mem_env_good_def)
  then show "items i k2 = []" using items_length [of i k2] by simp
qed

section \<open>Properties\<close>

text \<open>C32: registering a device again under a sleeping reader breaks the mutual exclusion of its readers: if a
  reader sleeps in the device while it is unregistered and registered again, there is a run in which
  a signal wakes that reader while another one is inside the mutex, both are handed the one
  character that was produced, and the tail moves past the head, so that the device pretends to hold 4095
  characters that were never produced.\<close>

theorem reregister_reads_twice:
  assumes "irq_inv k" and "i < 8" and "busy (slot k i)"
    and "(irq_step (\<lambda>_. 0) okc i)\<^sup>*\<^sup>* (sys_start i k) s"
    and "pc s t = Holding c False" and "1 \<le> c" and "pc s u = Outside" and "okc 1"
    and "chrdev_device_unregister_irq lbl (of_nat i) (kern s) = Inr (0, k1)" and "is_cstr lbl"
    and "\<And>l. devices_of (kern s) i = Some l \<Longrightarrow> is_cstr l"
    and "chrdev_device_register_irq e lbl' (of_nat i) ro owner parent k1 = Inr (0, k2)" and "is_cstr lbl'"
    and "mem_env_good e k1"
  shows "\<exists>s' x. (life_step (\<lambda>_. 0) okc i)\<^sup>*\<^sup>* (s, {}) (s', {}) \<and> produced s' = produced s @ [x] \<and>
     seen s' = seen s @ [x, x] \<and> pc s' t = Finished 1 \<and> pc s' u = Finished 1 \<and>
     length (items i (kern s')) = 4095"
proof -
  let ?R = "life_step (\<lambda>_. 0) okc i"
  have inv: "irq_inv (kern s)"
    using sys_inv_reach [OF assms(4) sys_inv_start [OF assms(1-3)]] by (simp add: sys_inv_def)
  note again = registered_again [OF inv assms(2,9-14)]
  let ?s1 = "s\<lparr>kern := k1\<rparr>" let ?s2 = "?s1\<lparr>kern := k2, holder := None\<rparr>"
  have 1: "?R (s, {}) (?s1, {})" by (rule unregisters [OF assms(9)])
  have "?R (?s1, {}) (?s2, {} \<union> {t})"
    by (rule registers [of e lbl' i ro owner parent]) (use assms(5,12) in simp_all)
  then have 2: "?R (?s1, {}) (?s2, {t})" by simp
  have "t \<noteq> u" using assms(5,7) by auto
  with both_read [of ?s2 i t c u okc] again assms(2,5-8) obtain s' x where
    r: "?R\<^sup>*\<^sup>* (?s2, {t}) (s', {})" "produced s' = produced s @ [x]" "seen s' = seen s @ [x, x]"
      "pc s' t = Finished 1" "pc s' u = Finished 1" "length (items i (kern s')) = 4095" by auto
  have "?R\<^sup>*\<^sup>* (s, {}) (s', {})"
    using 1 2 r(1) by (meson converse_rtranclp_into_rtranclp)
  with r show ?thesis by blast
qed

text \<open>The sample device with thread 0 asleep in it, unregistered and registered again.\<close>

theorem reregister_reads_twice_witness:
  "\<exists>s s' x. pc s 0 = Holding 1 False \<and> seen s = [] \<and> (life_step (\<lambda>_. 0) (\<lambda>c. c \<le> 1) 0)\<^sup>*\<^sup>* (s, {}) (s', {}) \<and>
     produced s' = [x] \<and> seen s' = [x, x]"
proof -
  let ?R = "irq_step (\<lambda>_. 0) (\<lambda>c. c \<le> 1) 0" and ?s0 = "sys_start 0 sample_irq"
  let ?s1 = "at 0 (Want 1 False) ?s0" let ?z = "at 0 (Holding 1 False) (?s1\<lparr>holder := Some 0\<rparr>)"
  have "?R ?s0 ?s1" by (rule call_read) (simp_all add: sys_start_def)
  moreover have "?R ?s1 ?z" by (rule lock) (simp_all add: sys_start_def)
  ultimately have run: "?R\<^sup>*\<^sup>* ?s0 ?z" by (meson converse_rtranclp_into_rtranclp rtranclp.rtrancl_refl)
  have kern: "kern ?z = sample_irq" by (simp add: sys_start_def)
  have short: "length (str_of (cstr ''a'')) < 32" by (simp add: str_of_cstr NUL_def)
  obtain k1 where k1: "chrdev_device_unregister_irq (cstr ''a'') 0 sample_irq = Inr (0, k1)"
    using unregister_irq_returns [OF sample_irq_simps(1) is_cstr_cstr, of 0 "''a''"] sample_irq_label
      label_array_short [OF short]
    by (auto simp: names_def split: if_splits)
  with unregister_irq_returns [OF sample_irq_simps(1) is_cstr_cstr, of 0 "''a''"] sample_irq_label
    label_array_short [OF short] have
    inv1: "irq_inv k1" and free: "devices_of k1 0 = None" by (auto split: if_splits)
  let ?e = "sample_env_irq\<lparr>kzalloc_ret := Some (free_address k1)\<rparr>"
  have good: "mem_env_good ?e k1" and succ: "mem_env_success ?e k1"
    using free_address [of k1] inv1
    by (simp_all add: mem_env_good_def mem_env_success_def env_ok_def env_succeeds_def sample_env_irq_def irq_inv_def)
  have "is_cstr (cstr ''a'')" by simp
  from reg_irq.register_succeeds [OF inv1 this good succ, of 0 0 1 2] free obtain k2 where
    k2: "chrdev_device_register_irq ?e (cstr ''a'') 0 0 1 2 k1 = Inr (0, k2)" by auto
  have "\<exists>s' x. (life_step (\<lambda>_. 0) (\<lambda>c. c \<le> 1) 0)\<^sup>*\<^sup>* (?z, {}) (s', {}) \<and> produced s' = produced ?z @ [x] \<and>
     seen s' = seen ?z @ [x, x] \<and> pc s' 0 = Finished 1 \<and> pc s' 1 = Finished 1 \<and>
     length (items 0 (kern s')) = 4095"
    by (rule reregister_reads_twice [OF sample_irq_simps(1) _ sample_irq_simps(2) run, where c = 1 and
        lbl = "cstr ''a''" and lbl' = "cstr ''a''" and e = ?e and ro = 0 and owner = 1 and parent = 2])
      (use k1 k2 good kern sample_irq_label label_array_short(1) [OF short] in \<open>simp_all add: sys_start_def\<close>)
  then obtain s' x where "(life_step (\<lambda>_. 0) (\<lambda>c. c \<le> 1) 0)\<^sup>*\<^sup>* (?z, {}) (s', {})"
    "produced s' = produced ?z @ [x]" "seen s' = seen ?z @ [x, x]" by blast
  moreover have "produced ?z = []" "seen ?z = []"
    by (simp_all add: sys_start_def sample_irq_simps)
  moreover have "pc ?z 0 = Holding 1 False" by simp
  ultimately show ?thesis by (intro exI [of _ ?z] exI [of _ s'] exI [of _ x] conjI) simp_all
qed

end
