(* ===== verification/Irq_Life.thy ===== *)
theory Irq_Life
  imports Irq_Progress
begin

text \<open>
  The timer-fed driver from module start on: devices are registered and unregistered, in any number and any
  order, while one of them is read and polled and all their timers expire. One rule is kept: a device
  is unregistered only while no thread is inside a call on it, and it is not called while it is
  unregistered. Then nothing ever touches freed memory and every life of a device is a first-in
  first-out channel of its own. Without the rule it does not hold.
\<close>

section \<open>Several lives of a device\<close>

text \<open>\<open>H\<close> keeps, for each life of device \<open>i\<close> that has ended, what was stored and what was read in it.\<close>

definition new_life :: "drv_irq \<Rightarrow> irq_sys \<Rightarrow> irq_sys" where
  "new_life k s = s\<lparr>kern := k, holder := None, produced := [], taken := [], seen := []\<rparr>"

inductive quiet_step ::
  "copy_fun \<Rightarrow> (u64 \<Rightarrow> bool) \<Rightarrow> nat \<Rightarrow> irq_sys \<times> (byte list \<times> byte list) list \<Rightarrow>
   irq_sys \<times> (byte list \<times> byte list) list \<Rightarrow> bool"
  for f okc i where
    works: "irq_step f okc i s s' \<Longrightarrow>
      busy (slot (kern s) i) \<or> (\<forall>t. in_call (pc s' t) \<longrightarrow> in_call (pc s t)) \<Longrightarrow>
      quiet_step f okc i (s, H) (s', H)"
  | comes: "chrdev_device_register_irq e lbl ident ro owner parent (kern s) = Inr (r, k) \<Longrightarrow>
      is_cstr lbl \<Longrightarrow> length (str_of lbl) < 32 \<Longrightarrow> mem_env_good e (kern s) \<Longrightarrow>
      quiet_step f okc i (s, H) (if r = 0 \<and> unat ident = i then new_life k s else s\<lparr>kern := k\<rparr>, H)"
  | leaves: "chrdev_device_unregister_irq lbl ident (kern s) = Inr (r, k) \<Longrightarrow> is_cstr lbl \<Longrightarrow>
      (r = 0 \<and> unat ident = i \<Longrightarrow> \<forall>t. \<not> in_call (pc s t)) \<Longrightarrow>
      quiet_step f okc i (s, H)
        (s\<lparr>kern := k\<rparr>, if r = 0 \<and> unat ident = i then H @ [(produced s, seen s)] else H)"

text \<open>What can fault next: a timer, a read, a registration or an unregistration.\<close>

inductive life_fault :: "nat \<Rightarrow> irq_sys \<Rightarrow> fault \<Rightarrow> bool" for i where
    working: "irq_fault i s e \<Longrightarrow> life_fault i s e"
  | coming: "is_cstr lbl \<Longrightarrow> mem_env_good env (kern s) \<Longrightarrow>
      chrdev_device_register_irq env lbl ident ro owner parent (kern s) = Inl e \<Longrightarrow> life_fault i s e"
  | leaving: "is_cstr lbl \<Longrightarrow> chrdev_device_unregister_irq lbl ident (kern s) = Inl e \<Longrightarrow> life_fault i s e"

section \<open>Registrations of other devices\<close>

lemma new_life_simps [simp]:
  "kern (new_life k s) = k" "pc (new_life k s) = pc s" "holder (new_life k s) = None"
  "produced (new_life k s) = []" "taken (new_life k s) = []" "seen (new_life k s) = []"
  by (simp_all add: new_life_def)

lemma items_frame:
  "slot s' i = slot s i \<Longrightarrow> bufp (slot s i) = Some a \<Longrightarrow> heap s' a = heap s a \<Longrightarrow> items i s' = items i s"
  by (simp add: items_def ring_of_def)

lemma register_irq_frame:
  assumes "chrdev_device_register_irq e lbl ident ro owner parent s = Inr (r, s')"
    and "length (chrdev_array s) = 8" and "i < 8" and "busy (slot s i)"
    and "heap s a = Some b" and "mem_env_good e s"
  shows "slot s' i = slot s i" and "heap s' a = heap s a" and "r = 0 \<Longrightarrow> unat ident \<noteq> i"
  using assms
  by (auto simp: chrdev_device_register_irq_def MAX_DEVICES_le Let_def bindo_Inr_iff kfree_def
      mem_env_good_def env_ok_def device_create_def split: if_splits option.splits sum.splits)

lemma unregister_irq_frame:
  assumes "chrdev_device_unregister_irq lbl ident s = Inr (r, s')" and "length (chrdev_array s) = 8"
  shows "r \<noteq> 0 \<Longrightarrow> s' = s"
    and "unat ident \<noteq> i \<Longrightarrow> i < 8 \<Longrightarrow> slot s' i = slot s i"
    and "bufp (slot s (unat ident)) \<noteq> Some a \<Longrightarrow> heap s' a = heap s a"
    and "r = 0 \<Longrightarrow> unat ident < 8 \<and> busy (slot s (unat ident)) \<and> bufp (slot s' (unat ident)) = bufp (slot s (unat ident)) \<and>
      (\<forall>a. bufp (slot s (unat ident)) = Some a \<longrightarrow> heap s' a = None)"
  using assms
  by (auto simp: chrdev_device_unregister_irq_def MAX_DEVICES_le Let_def bindo_Inr_iff kfree_def
      split: if_splits option.splits dev_ptr.splits)

section \<open>Invariant\<close>

definition labels_ok :: "drv_irq \<Rightarrow> bool" where
  "labels_ok k \<longleftrightarrow> (\<forall>j l. devices_of k j = Some l \<longrightarrow> is_cstr l)"

definition life_inv :: "(u64 \<Rightarrow> bool) \<Rightarrow> nat \<Rightarrow> irq_sys \<Rightarrow> bool" where
  "life_inv okc i s \<longleftrightarrow> irq_inv (kern s) \<and> i < 8 \<and> labels_ok (kern s) \<and>
     (if busy (slot (kern s) i) then sys_inv okc i s \<and> seen_inv i s
      else (\<forall>t. \<not> in_call (pc s t)) \<and> holder s = None)"

definition lives_in_order :: "(byte list \<times> byte list) list \<Rightarrow> bool" where
  "lives_in_order H \<longleftrightarrow> (\<forall>(p, q) \<in> set H. \<exists>rest. p = q @ rest)"

lemma in_call_holds: "holds p \<Longrightarrow> in_call p"
  by (cases p) simp_all

lemma pc_ok_out: "\<not> in_call p \<Longrightarrow> pc_ok okc xs p"
  by (cases p) simp_all

text \<open>A driver step that leaves the queue of device \<open>i\<close> alone is not seen by its users.\<close>

lemma sys_inv_frame:
  assumes "sys_inv okc i s" and "seen_inv i s" and "irq_inv k" and "busy (slot k i)"
    and "items i k = items i (kern s)"
  shows "sys_inv okc i (s\<lparr>kern := k\<rparr>)" and "seen_inv i (s\<lparr>kern := k\<rparr>)"
  using assms by (simp_all add: sys_inv_def seen_inv_def split: option.splits)

lemma sys_inv_new:
  assumes "irq_inv k" and "i < 8" and "busy (slot k i)" and "items i k = []"
    and "\<And>t. \<not> in_call (pc s t)"
  shows "sys_inv okc i (new_life k s)" and "seen_inv i (new_life k s)"
proof -
  have "\<not> holds (pc s t)" for t using assms(5) [of t] in_call_holds by blast
  then show "sys_inv okc i (new_life k s)"
    using assms pc_ok_out by (simp add: sys_inv_def)
  show "seen_inv i (new_life k s)" by (simp add: seen_inv_def)
qed

text \<open>A new life starts with an empty queue.\<close>

lemma register_irq_fresh:
  assumes "chrdev_device_register_irq e lbl ident ro owner parent s = Inr (0, s')" and "irq_inv s"
    and "mem_env_good e s" and "irq_inv s'" and "unat ident < 8" and "\<not> busy (slot s (unat ident))"
    and "busy (slot s' (unat ident))"
  shows "items (unat ident) s' = []"
proof -
  have "env_ok e" using assms(3) by (simp add: mem_env_good_def)
  with register_irq_effect(2) [OF assms(1) irq_invD(4) [OF assms(2)] _ assms(5,7)] assms(6) have
    "head (slot s' (unat ident)) = 0 \<and> tail (slot s' (unat ident)) = 0" by blast
  then have "empty_irq (unat ident) s'" by (simp add: empty_irq_def cbuf_is_empty_def)
  then show ?thesis using empty_irq_items [OF assms(4,5,7)] by simp
qed

lemma comes_keeps:
  assumes inv: "life_inv okc i s"
    and reg: "chrdev_device_register_irq e lbl ident ro owner parent (kern s) = Inr (r, k)"
    and lbl: "is_cstr lbl" "length (str_of lbl) < 32" and env: "mem_env_good e (kern s)"
  shows "life_inv okc i (if r = 0 \<and> unat ident = i then new_life k s else s\<lparr>kern := k\<rparr>)"
proof -
  have k: "irq_inv (kern s)" "i < 8" "labels_ok (kern s)" using inv by (simp_all add: life_inv_def)
  from register_irq_returns [OF k(1) lbl(1) env, of ident ro owner parent] reg have
    k': "irq_inv k" and v: "if r = 0 then unat ident < 8 \<and> devices_of (kern s) (unat ident) = None \<and>
        devices_of k = (devices_of (kern s))(unat ident \<mapsto> label_array lbl)
      else devices_of k = devices_of (kern s)" by auto
  have labels: "labels_ok k"
    using k(3) v label_array_short(1) [OF lbl(2)] by (auto simp: labels_ok_def split: if_splits)
  show ?thesis
  proof (cases "busy (slot (kern s) i)")
    case True
    obtain a b where ab: "bufp (slot (kern s) i) = Some a" "heap (kern s) a = Some b"
      by (rule irq_buf [OF k(1,2) True])
    note frame = register_irq_frame [OF reg irq_invD(4) [OF k(1)] k(2) True ab(2) env]
    have "items i k = items i (kern s)" by (rule items_frame [OF frame(1) ab(1) frame(2)])
    moreover have "sys_inv okc i s" "seen_inv i s" using inv True by (simp_all add: life_inv_def)
    ultimately show ?thesis
      using sys_inv_frame [of okc i s k] k(2) k' True frame(1,3) labels by (auto simp: life_inv_def)
  next
    case False
    then have out: "\<And>t. \<not> in_call (pc s t)" "holder s = None" using inv by (simp_all add: life_inv_def)
    show ?thesis
    proof (cases "r = 0 \<and> unat ident = i")
      case True
      then have b: "busy (slot k i)" using v devices_of_busy [OF k(2), of k] by simp
      have "items i k = []"
        using register_irq_fresh [of e lbl ident ro owner parent "kern s" k] reg k env k' b False True by simp
      from sys_inv_new [OF k' k(2) b this out(1)] show ?thesis
        using True b k' k(2) labels by (simp add: life_inv_def)
    next
      case other: False
      then have "devices_of k i = devices_of (kern s) i" using v by (auto split: if_splits)
      then have "\<not> busy (slot k i)" using False devices_of_busy [OF k(2)] by metis
      with other out k' k(2) labels show ?thesis by (auto simp: life_inv_def)
    qed
  qed
qed

lemma leaves_keeps:
  assumes inv: "life_inv okc i s"
    and unreg: "chrdev_device_unregister_irq lbl ident (kern s) = Inr (r, k)" and lbl: "is_cstr lbl"
    and quiet: "r = 0 \<and> unat ident = i \<Longrightarrow> \<forall>t. \<not> in_call (pc s t)"
  shows "life_inv okc i (s\<lparr>kern := k\<rparr>)"
proof -
  have k: "irq_inv (kern s)" "i < 8" "labels_ok (kern s)" using inv by (simp_all add: life_inv_def)
  then have known: "\<And>l. devices_of (kern s) (unat ident) = Some l \<Longrightarrow> is_cstr l"
    by (simp add: labels_ok_def)
  from unregister_irq_returns [OF k(1) lbl, of ident] known unreg have
    k': "irq_inv k" and v: "if r = 0 then devices_of k = (devices_of (kern s))(unat ident := None)
      else devices_of k = devices_of (kern s)" by (auto split: if_splits)
  have labels: "labels_ok k" using k(3) v by (auto simp: labels_ok_def split: if_splits)
  note frame = unregister_irq_frame [OF unreg irq_invD(4) [OF k(1)]]
  consider "r \<noteq> 0" | "r = 0" "unat ident = i" | "r = 0" "unat ident \<noteq> i" by blast
  then show ?thesis
  proof cases
    case 1
    then show ?thesis using frame(1) inv by simp
  next
    case 2
    then have "\<not> busy (slot k i)" using v devices_of_busy [OF k(2), of k] by simp
    moreover have out: "\<forall>t. \<not> in_call (pc s t)" using quiet 2 by blast
    moreover have "holder s = None"
    proof (cases "holder s")
      case (Some t)
      have "busy (slot (kern s) i)" using frame(4) 2 by simp
      then have "holds (pc s t)" using inv Some by (simp add: life_inv_def sys_inv_def)
      then show ?thesis using out in_call_holds by blast
    qed
    ultimately show ?thesis using k' k(2) labels by (simp add: life_inv_def)
  next
    case 3
    have same: "slot k i = slot (kern s) i" using frame(2) 3 k(2) by blast
    show ?thesis
    proof (cases "busy (slot (kern s) i)")
      case True
      obtain a where a: "bufp (slot (kern s) i) = Some a" by (rule irq_buf [OF k(1,2) True])
      have "bufp (slot (kern s) (unat ident)) \<noteq> Some a"
        using bufs_differ [OF k(1,2) True] frame(4) 3 a by metis
      then have "items i k = items i (kern s)" by (intro items_frame [OF same a] frame(3))
      moreover have "sys_inv okc i s" "seen_inv i s" using inv True by (simp_all add: life_inv_def)
      ultimately show ?thesis
        using sys_inv_frame [of okc i s k] k(2) k' True same labels by (simp add: life_inv_def)
    next
      case False
      then show ?thesis using inv same k' k(2) labels by (simp add: life_inv_def)
    qed
  qed
qed

text \<open>A timer or a thread at work.\<close>

lemma tick_keeps:
  assumes "irq_inv k" and "j \<in> live_timers (ktrace k)" and "chrdev_timer_handler j k = Inr (r, k')"
  shows "irq_inv k'" and "devices_of k' = devices_of k"
proof -
  have "j < 8" "busy (slot k j)" using assms(2) irq_invD(5) [OF assms(1)] by (auto simp: busy_ids_def)
  from timer_handler_items [OF assms(1) this] assms(3) show "irq_inv k'" "devices_of k' = devices_of k"
    by auto
qed

lemma step_devices:
  assumes "irq_step f okc i s s'" and "sys_inv okc i s"
  shows "devices_of (kern s') = devices_of (kern s)"
  using assms(1)
proof cases
  case (tick j r k)
  then show ?thesis using tick_keeps(2) [of "kern s" j r k] assms(2) by (simp add: sys_inv_def)
next
  case (move t n)
  then have "pc_ok okc (items i (kern s)) (Copied n)" using assms(2) by (metis sys_inv_def)
  then show ?thesis using read_move_items(4) [of "kern s" i n] assms(2) move by (simp add: sys_inv_def)
qed simp_all

lemma run_devices:
  assumes "(irq_step f okc i)\<^sup>*\<^sup>* s s'" and "sys_inv okc i s"
  shows "devices_of (kern s') = devices_of (kern s)"
  using assms
proof (induction rule: rtranclp_induct)
  case (step t u)
  then show ?case using step_devices [OF step.hyps(2) sys_inv_reach [OF step.hyps(1) step.prems]] by simp
qed simp

lemma works_keeps:
  assumes inv: "life_inv okc i s" and step: "irq_step (\<lambda>_. 0) okc i s s'"
    and rule: "busy (slot (kern s) i) \<or> (\<forall>t. in_call (pc s' t) \<longrightarrow> in_call (pc s t))"
  shows "life_inv okc i s'"
proof (cases "busy (slot (kern s) i)")
  case True
  then have s: "sys_inv okc i s" "seen_inv i s" using inv by (simp_all add: life_inv_def)
  have "labels_ok (kern s')" using inv step_devices [OF step s(1)] by (simp add: life_inv_def labels_ok_def)
  with sys_inv_step [OF s(1) step] seen_inv_step [OF s step] show ?thesis
    by (simp add: life_inv_def sys_inv_def)
next
  case False
  then have out: "\<And>t. \<not> in_call (pc s t)" "holder s = None" and k: "irq_inv (kern s)" "i < 8" "labels_ok (kern s)"
    using inv by (simp_all add: life_inv_def)
  have still: "\<And>t. \<not> in_call (pc s' t)" using rule False out by blast
  have none: "pc s t \<noteq> p" if "in_call p" for t p using out that by metis
  from step have "irq_inv (kern s') \<and> devices_of (kern s') = devices_of (kern s) \<and> holder s' = None"
    by cases (use none k out in \<open>auto dest: tick_keeps\<close>)
  moreover from this have "\<not> busy (slot (kern s') i)" using False devices_of_busy [OF k(2)] by metis
  ultimately show ?thesis using still k by (simp add: life_inv_def labels_ok_def)
qed

lemma quiet_step_keeps:
  assumes "quiet_step (\<lambda>_. 0) okc i (s, H) (s', H')" and "life_inv okc i s"
  shows "life_inv okc i s'"
  using assms(1)
proof cases
  case works
  then show ?thesis using works_keeps [OF assms(2)] by blast
next
  case (comes e lbl ident ro owner parent r k)
  then show ?thesis using comes_keeps [OF assms(2) comes(3-6)] by simp
next
  case (leaves lbl ident r k)
  then show ?thesis using leaves_keeps [OF assms(2) leaves(3,4)] by simp
qed

text \<open>The order of what was read, also when the device is gone.\<close>

definition in_order :: "irq_sys \<Rightarrow> bool" where
  "in_order s \<longleftrightarrow> (\<exists>rest. produced s = seen s @ rest)"

lemma idle_step_order:
  assumes inv: "life_inv okc i s" and gone: "\<not> busy (slot (kern s) i)"
    and step: "irq_step f okc i s s'" and rule: "\<forall>t. in_call (pc s' t) \<longrightarrow> in_call (pc s t)"
  shows "produced s' = produced s \<and> seen s' = seen s"
proof -
  have out: "\<And>t. \<not> in_call (pc s t)" and k: "irq_inv (kern s)" "i < 8"
    using inv gone by (simp_all add: life_inv_def)
  have none: "pc s t \<noteq> p" if "in_call p" for t p using out that by metis
  have idle: "i \<notin> live_timers (ktrace (kern s))"
    using gone irq_invD(5) [OF k(1)] by (simp add: busy_ids_def)
  from step show ?thesis by cases (use none idle in auto)
qed

lemma quiet_step_order:
  assumes "quiet_step (\<lambda>_. 0) okc i (s, H) (s', H')" and inv: "life_inv okc i s"
    and "in_order s" and "lives_in_order H"
  shows "in_order s' \<and> lives_in_order H'"
  using assms(1)
proof cases
  case works
  have "in_order s'"
  proof (cases "busy (slot (kern s) i)")
    case True
    then have s: "sys_inv okc i s" "seen_inv i s" using inv by (simp_all add: life_inv_def)
    from seen_prefix [OF sys_inv_step [OF s(1) works(2)] seen_inv_step [OF s works(2)]]
    show ?thesis by (simp add: in_order_def)
  next
    case False
    then show ?thesis using idle_step_order [OF inv _ works(2)] works(3) assms(3) by (auto simp: in_order_def)
  qed
  then show ?thesis using works(1) assms(4) by simp
next
  case (comes e lbl ident ro owner parent r k)
  then show ?thesis using assms(3,4) by (simp add: in_order_def)
next
  case (leaves lbl ident r k)
  then show ?thesis using assms(3,4) by (auto simp: in_order_def lives_in_order_def)
qed

lemma life_inv_start: "i < 8 \<Longrightarrow> life_inv okc i (sys_start i start_irq)"
proof -
  have "devices_of start_irq j = None" for j
    by (simp add: devices_of_def slot_def start_irq_def zero_irq_def)
  moreover assume i: "i < 8"
  moreover have "\<not> busy (slot start_irq i)" using i by (simp add: slot_def start_irq_def zero_irq_def)
  ultimately show ?thesis
    using irq_inv_start by (simp add: life_inv_def sys_start_def labels_ok_def)
qed

lemma quiet_reach:
  assumes "(quiet_step (\<lambda>_. 0) okc i)\<^sup>*\<^sup>* (sys_start i start_irq, []) (s, H)" and "i < 8"
  shows "life_inv okc i s \<and> in_order s \<and> lives_in_order H"
proof -
  have "life_inv okc i (fst y) \<and> in_order (fst y) \<and> lives_in_order (snd y)"
    if "(quiet_step (\<lambda>_. 0) okc i)\<^sup>*\<^sup>* (sys_start i start_irq, []) y" for y
    using that
  proof (induction rule: rtranclp_induct)
    case base
    then show ?case
      using life_inv_start [OF assms(2)] by (simp add: in_order_def sys_start_def lives_in_order_def)
  next
    case (step y z)
    then have "quiet_step (\<lambda>_. 0) okc i (fst y, snd y) (fst z, snd z)" by simp
    with step.IH quiet_step_keeps quiet_step_order show ?case by blast
  qed
  from this [OF assms(1)] show ?thesis by simp
qed

text \<open>What may fault.\<close>

lemma life_fault_fetch:
  assumes inv: "life_inv okc i s" and bad: "life_fault i s e"
  shows "e = OutOfBounds \<and> (\<exists>c. okc c \<and> 1 < c)"
  using bad
proof cases
  have k: "irq_inv (kern s)" "i < 8" "labels_ok (kern s)" using inv by (simp_all add: life_inv_def)
  case working
  then show ?thesis
  proof cases
    case (tick_fault j)
    then have "j < 8" "busy (slot (kern s) j)"
      using irq_invD(5) [OF k(1)] by (auto simp: busy_ids_def)
    with timer_handler_items [OF k(1)] tick_fault(2) show ?thesis by fastforce
  next
    case (fetch_fault t c)
    then have "in_call (pc s t)" by simp
    then have b: "busy (slot (kern s) i)" and "sys_inv okc i s"
      using inv by (auto simp: life_inv_def split: if_splits)
    then have "pc_ok okc (items i (kern s)) (Ready c)" using fetch_fault(1) by (metis sys_inv_def)
    then have c: "okc c" by simp
    have e: "e = OutOfBounds" and over: "\<not> (unat (tail (slot (kern s) i)) + unat (clip i c (kern s)) \<le> 4096 \<and>
        unat (clip i c (kern s)) \<le> 256)"
      using read_fetch_returns [OF k(1,2) b, of c] fetch_fault(2) by auto
    have "unat (tail (slot (kern s) i)) < 4096" using k b by (simp add: irq_inv_def)
    with over have "1 < unat (clip i c (kern s))" by linarith
    then have "1 < unat c" using unat_clip [OF k(1,2) b, of c] by simp
    then have "1 < c" by (simp add: word_less_nat_alt)
    with e c show ?thesis by blast
  qed
next
  case (coming lbl env ident ro owner parent)
  have "irq_inv (kern s)" using inv by (simp add: life_inv_def)
  from register_irq_returns [OF this coming(1,2), of ident ro owner parent] coming(3) show ?thesis by auto
next
  case (leaving lbl ident)
  have k: "irq_inv (kern s)" "labels_ok (kern s)" using inv by (simp_all add: life_inv_def)
  from unregister_irq_returns [OF k(1) leaving(1), of ident] leaving(2) k(2) show ?thesis
    by (auto simp: labels_ok_def)
qed

section \<open>Properties\<close>


text \<open>As long as the device stays registered, its users are free.\<close>

lemma registered_run:
  assumes "(irq_step (\<lambda>_. 0) okc i)\<^sup>*\<^sup>* s s'" and "sys_inv okc i s"
  shows "(quiet_step (\<lambda>_. 0) okc i)\<^sup>*\<^sup>* (s, H) (s', H)"
  using assms
proof (induction rule: rtranclp_induct)
  case (step t u)
  have "busy (slot (kern t) i)" using sys_inv_reach [OF step.hyps(1) step.prems] by (simp add: sys_inv_def)
  then have "quiet_step (\<lambda>_. 0) okc i (t, H) (u, H)" by (intro works step.hyps(2) disjI1)
  with step.IH [OF step.prems] show ?case by simp
qed simp

text \<open>In all these lives, a call that asks for one character at most can end.\<close>

lemma quiet_calls_can_end:
  assumes "(quiet_step (\<lambda>_. 0) (\<lambda>c. c \<le> 1) i)\<^sup>*\<^sup>* (sys_start i start_irq, []) (s, H)" and "i < 8"
    and "in_call (pc s t)"
  shows "\<exists>s'. (quiet_step (\<lambda>_. 0) (\<lambda>c. c \<le> 1) i)\<^sup>*\<^sup>* (s, H) (s', H) \<and> finished_with_count (pc s' t)"
proof -
  have "life_inv (\<lambda>c. c \<le> 1) i s" using quiet_reach [OF assms(1,2)] by simp
  then have inv: "sys_inv (\<lambda>c. c \<le> 1) i s" using assms(3) by (auto simp: life_inv_def split: if_splits)
  have "\<exists>s'. (irq_step (\<lambda>_. 0) (\<lambda>c. c \<le> 1) i)\<^sup>*\<^sup>* s s' \<and> finished_with_count (pc s' t)"
  proof (cases "holds (pc s t)")
    case True
    with holder_ends [OF inv] show ?thesis unfolding can_end_def by blast
  next
    case False
    with assms(3) obtain c nb where "pc s t = Want c nb \<or> pc s t = PollWant" by (cases "pc s t") auto
    with waiting_ends [OF inv] show ?thesis by blast
  qed
  then show ?thesis using registered_run [OF _ inv] by blast
qed

lemma sample_irq_starts:
  "chrdev_device_register_irq sample_env_irq (cstr ''a'') 0 0 1 2 start_irq = Inr (0, sample_irq)"
proof -
  have "node_name (cstr ''a'') 0 = Inr ''a@0''"
    by (simp add: node_name_def str_of_cstr NUL_def fmt_d_def fmt_nat.simps char_of_def bit_0)
  moreover have "\<not> busy (slot start_irq 0)" "length (chrdev_array start_irq) = 8"
    by (simp_all add: start_irq_def slot_def zero_irq_def)
  ultimately show ?thesis
    unfolding register_irq_eq sample_irq_def
    by (auto simp: register_mem_def MAX_DEVICES_le Let_def registered_mem_def opt_call_def sample_env_irq_def
        device_create_def strncpy_label [unfolded NAME_LEN_nat] upd_slot_call upd_slot_comp comp_def
        split: option.splits)
qed

text \<open>Device 0 is registered, stores a character that is read, and is unregistered.\<close>

lemma sample_life:
  "\<exists>s p. (quiet_step (\<lambda>_. 0) (\<lambda>c. c \<le> 1) 0)\<^sup>*\<^sup>* (sys_start 0 start_irq, []) (s, [(p, [65])]) \<and>
     devices_of (kern s) 0 = None"
proof -
  let ?R = "quiet_step (\<lambda>_. 0) (\<lambda>c. c \<le> 1) 0" and ?s0 = "sys_start 0 sample_irq"
  have short: "length (str_of (cstr ''a'')) < 32" by (simp add: str_of_cstr NUL_def)
  have good: "mem_env_good sample_env_irq start_irq"
    by (simp add: mem_env_good_def env_ok_def sample_env_irq_def start_irq_def)
  have "?R (sys_start 0 start_irq, []) (if (0 :: s32) = 0 \<and> unat (0 :: u32) = 0
      then new_life sample_irq (sys_start 0 start_irq) else (sys_start 0 start_irq)\<lparr>kern := sample_irq\<rparr>, [])"
    by (rule comes [of sample_env_irq "cstr ''a''" 0 0 1 2])
      (use sample_irq_starts short good in \<open>simp_all add: sys_start_def\<close>)
  moreover have "new_life sample_irq (sys_start 0 start_irq) = ?s0"
    by (simp add: new_life_def sys_start_def sample_irq_simps(3))
  ultimately have 1: "?R (sys_start 0 start_irq, []) (?s0, [])" by simp
  have inv0: "sys_inv (\<lambda>c. c \<le> 1) 0 ?s0"
    by (rule sys_inv_start [OF sample_irq_simps(1) _ sample_irq_simps(2)]) simp
  obtain s where s: "(irq_step (\<lambda>_. 0) (\<lambda>c. c \<le> 1) 0)\<^sup>*\<^sup>* ?s0 s" "seen s = [65]"
    "\<forall>t. pc s t = Outside \<or> (\<exists>r. pc s t = Finished r)"
    using sample_run_idle by blast
  have out: "\<not> in_call (pc s t)" for t using spec [OF s(3), of t] by auto
  note 2 = registered_run [OF s(1) inv0, of "[]"]
  have s_inv: "irq_inv (kern s)" using sys_inv_reach [OF s(1) inv0] by (simp add: sys_inv_def)
  have d: "devices_of (kern s) 0 = Some (label_array (cstr ''a''))"
    using run_devices [OF s(1) inv0] sample_irq_label by (simp add: sys_start_def)
  obtain k where k: "chrdev_device_unregister_irq (cstr ''a'') 0 (kern s) = Inr (0, k)"
      "devices_of k 0 = None"
    using unregister_irq_returns [OF s_inv is_cstr_cstr, of 0 "''a''"] d label_array_short [OF short]
    by (auto simp: names_def split: if_splits)
  have "?R (s, []) (s\<lparr>kern := k\<rparr>, if (0 :: s32) = 0 \<and> unat (0 :: u32) = 0 then [] @ [(produced s, seen s)] else [])"
    by (rule leaves [OF k(1)]) (use out in simp_all)
  then have 3: "?R (s, []) (s\<lparr>kern := k\<rparr>, [(produced s, [65])])" using s(2) by simp
  have "?R\<^sup>*\<^sup>* (sys_start 0 start_irq, []) (s\<lparr>kern := k\<rparr>, [(produced s, [65])])"
    using 1 2 3 by (meson converse_rtranclp_into_rtranclp rtranclp.rtrancl_into_rtrancl)
  then show ?thesis using k(2) by (intro exI [of _ "s\<lparr>kern := k\<rparr>"] exI [of _ "produced s"]) simp
qed


section \<open>Without the rule\<close>

text \<open>A reader that is before its copy from the page, at whatever point.\<close>

fun will_fetch :: "u64 \<Rightarrow> rpc \<Rightarrow> bool" where
  "will_fetch c (Want d nb) = (d = c)"
| "will_fetch c (Holding d nb) = (d = c)"
| "will_fetch c (Ready d) = (d = c)"
| "will_fetch c p = False"

lemma freed_fetch:
  assumes inv: "irq_inv k" and i: "i < 8" and data: "items i k \<noteq> []" and c: "1 \<le> c"
    and unreg: "chrdev_device_unregister_irq lbl (of_nat i) k = Inr (0, k')"
  shows "read_fetch i c k' = Inl UseAfterFree" and "\<not> empty_irq i k'"
proof -
  have ui: "unat (of_nat i :: u32) = i" using i by (rule unat_small_id)
  note frame = unregister_irq_frame [OF unreg irq_invD(4) [OF inv], unfolded ui]
  note eff = unregister_irq_effect(2) [OF unreg irq_invD(4) [OF inv] i]
  have b: "busy (slot k i)" using frame(4) by simp
  obtain a where a: "bufp (slot k i) = Some a" by (rule irq_buf [OF inv i b])
  have "\<not> empty_irq i k" using empty_irq_items [OF inv i b] data by simp
  then show "\<not> empty_irq i k'" using eff by (simp add: empty_irq_def)
  have "unat c \<noteq> 0" using c by (auto simp: word_le_nat_alt)
  then have "unat (clip i c k) \<noteq> 0" using unat_clip [OF inv i b, of c] data by simp
  then have "clip i c k' \<noteq> 0" using eff by (auto simp: clip_def)
  moreover have "load_buf k' (bufp (slot k' i)) = Inl UseAfterFree"
    using frame(4) a by (simp add: load_buf_def)
  ultimately show "read_fetch i c k' = Inl UseAfterFree"
    by (simp add: read_fetch_def Let_def flip: clip_def)
qed

text \<open>C28: the rule is needed: if a device with unread characters is unregistered while a reader is inside a call on
  it, before its copy from the page, there is a run, of that reader alone, at the end of which
  it reads the page that was freed.\<close>

theorem unregister_under_reader:
  assumes "irq_inv k" and "i < 8" and "busy (slot k i)"
    and "(irq_step f okc i)\<^sup>*\<^sup>* (sys_start i k) s"
    and "will_fetch c (pc s t)" and "1 \<le> c" and "holder s = None \<or> holder s = Some t"
    and "items i (kern s) \<noteq> []"
    and "chrdev_device_unregister_irq lbl (of_nat i) (kern s) = Inr (0, k')"
  shows "\<exists>s'. (irq_step f okc i)\<^sup>*\<^sup>* (s\<lparr>kern := k'\<rparr>) s' \<and> (\<forall>u. u \<noteq> t \<longrightarrow> pc s' u = pc s u) \<and>
     kern s' = k' \<and> irq_fault i s' UseAfterFree"
proof -
  let ?R = "irq_step f okc i"
  have inv: "sys_inv okc i s" by (rule sys_inv_reach [OF assms(4) sys_inv_start [OF assms(1-3)]])
  then have k: "irq_inv (kern s)" and h: "holds (pc s t) \<longleftrightarrow> holder s = Some t" by (simp_all add: sys_inv_def)
  note freed = freed_fetch [OF k assms(2,8,6,9)]
  have ready: ?thesis if "?R\<^sup>*\<^sup>* (s\<lparr>kern := k'\<rparr>) z" "pc z t = Ready c" "kern z = k'"
    "\<forall>u. u \<noteq> t \<longrightarrow> pc z u = pc s u" for z
    using that fetch_fault [of z t c i UseAfterFree] freed(1) by blast
  have holding: ?thesis if "?R\<^sup>*\<^sup>* (s\<lparr>kern := k'\<rparr>) z" "pc z t = Holding c nb" "kern z = k'"
    "\<forall>u. u \<noteq> t \<longrightarrow> pc z u = pc s u" for z nb
  proof -
    have "?R z (at t (Ready c) z)" by (rule go_on) (use that(2,3) freed(2) in simp_all)
    with that(1) have "?R\<^sup>*\<^sup>* (s\<lparr>kern := k'\<rparr>) (at t (Ready c) z)" by simp
    then show ?thesis by (rule ready) (use that in simp_all)
  qed
  from assms(5) consider nb where "pc s t = Want c nb" | nb where "pc s t = Holding c nb" | "pc s t = Ready c"
    by (cases "pc s t") auto
  then show ?thesis
  proof cases
    case (1 nb)
    let ?z = "at t (Holding c nb) ((s\<lparr>kern := k'\<rparr>)\<lparr>holder := Some t\<rparr>)"
    have "holder s = None" using assms(7) h 1 by auto
    then have "?R (s\<lparr>kern := k'\<rparr>) ?z" by (intro lock) (use 1 in simp_all)
    then have "?R\<^sup>*\<^sup>* (s\<lparr>kern := k'\<rparr>) ?z" by simp
    then show ?thesis by (rule holding) simp_all
  next
    case (2 nb)
    then show ?thesis by (intro holding [of "s\<lparr>kern := k'\<rparr>" nb]) simp_all
  next
    case 3
    then show ?thesis by (intro ready [of "s\<lparr>kern := k'\<rparr>"]) simp_all
  qed
qed

text \<open>The sample device: one expiry, then thread 0 calls read and the device is unregistered.\<close>

theorem unregister_under_reader_witness:
  "\<exists>s k' s'. (irq_step (\<lambda>_. 0) (\<lambda>c. c \<le> 1) 0)\<^sup>*\<^sup>* (sys_start 0 sample_irq) s \<and> pc s 0 = Want 1 False \<and>
     chrdev_device_unregister_irq (cstr ''a'') 0 (kern s) = Inr (0, k') \<and>
     (irq_step (\<lambda>_. 0) (\<lambda>c. c \<le> 1) 0)\<^sup>*\<^sup>* (s\<lparr>kern := k'\<rparr>) s' \<and> irq_fault 0 s' UseAfterFree"
proof -
  let ?R = "irq_step (\<lambda>_. 0) (\<lambda>c. c \<le> 1) 0" and ?s0 = "sys_start 0 sample_irq"
  have inv0: "sys_inv (\<lambda>c. c \<le> 1) 0 ?s0"
    by (rule sys_inv_start [OF sample_irq_simps(1) _ sample_irq_simps(2)]) simp
  have "items 0 (kern ?s0) = []" by (simp add: sys_start_def sample_irq_simps(3))
  from tick_possible [OF inv0 this] obtain k ys where
    1: "?R ?s0 (?s0\<lparr>kern := k, produced := produced ?s0 @ ys\<rparr>)" and data: "items 0 k \<noteq> []" by blast
  let ?s1 = "?s0\<lparr>kern := k, produced := produced ?s0 @ ys\<rparr>" let ?z = "at 0 (Want 1 False) ?s1"
  have 2: "?R ?s1 ?z" by (rule call_read) (simp_all add: sys_start_def)
  have run: "?R\<^sup>*\<^sup>* ?s0 ?z" using 1 2 by (meson converse_rtranclp_into_rtranclp rtranclp.rtrancl_refl)
  have z: "irq_inv k" "devices_of k 0 = Some (label_array (cstr ''a''))"
    using sys_inv_reach [OF run inv0] run_devices [OF run inv0] sample_irq_label
    by (simp_all add: sys_inv_def sys_start_def)
  have short: "length (str_of (cstr ''a'')) < 32" by (simp add: str_of_cstr NUL_def)
  obtain k' where k': "chrdev_device_unregister_irq (cstr ''a'') 0 k = Inr (0, k')"
    using unregister_irq_returns [OF z(1) is_cstr_cstr, of 0 "''a''"] z(2) label_array_short [OF short]
    by (auto simp: names_def split: if_splits)
  have "\<exists>s'. ?R\<^sup>*\<^sup>* (?z\<lparr>kern := k'\<rparr>) s' \<and> (\<forall>u. u \<noteq> 0 \<longrightarrow> pc s' u = pc ?z u) \<and>
      kern s' = k' \<and> irq_fault 0 s' UseAfterFree"
    by (rule unregister_under_reader [OF sample_irq_simps(1) _ sample_irq_simps(2) run, where c = 1 and
        lbl = "cstr ''a''"]) (use data k' in \<open>simp_all add: sys_start_def\<close>)
  then obtain s' where s': "?R\<^sup>*\<^sup>* (?z\<lparr>kern := k'\<rparr>) s'" "irq_fault 0 s' UseAfterFree" by blast
  have z0: "pc ?z 0 = Want 1 False" "kern ?z = k" by simp_all
  show ?thesis
    by (intro exI [of _ ?z] exI [of _ k'] exI [of _ s'] conjI run s' z0(1)) (simp only: z0(2) k')
qed

end
