(* ===== verification/Irq_Window.thy ===== *)
theory Irq_Window
  imports Irq_Progress
begin

text \<open>
  The registration of the timer-fed driver in two parts. The first ends with \<open>device_create()\<close>: from then on
  the device can be opened and read. The second initialises the queue, the locks and the timer. A reader that
  comes in between finds the indices of the slot's former life over a new page.
\<close>

section \<open>The two parts\<close>

text \<open>\<open>None\<close>: no error, the second part follows.\<close>

definition register_irq_visible ::
  "reg_env_mem \<Rightarrow> char list \<Rightarrow> u32 \<Rightarrow> nat \<Rightarrow> nat \<Rightarrow> drv_irq \<Rightarrow> fault + (s32 option \<times> drv_irq)" where
  "register_irq_visible e lbl ident owner parent s =
     (if MAX_DEVICES \<le> ident then Inr (Some (- EINVAL), s)
      else let i = unat ident in
      if busy (slot s i) then Inr (Some (- EBUSY), s)
      else
        let p = kzalloc_ret e;
            s = call (Kzalloc (unat BUF_LEN_irq) p) (upd_slot i (\<lambda>c. c\<lparr>bufp := p\<rparr>) s)
        in case p of
          None \<Rightarrow> bindo (dev_print (ktrace s) (dev (slot s i))) (\<lambda>_. Inr (Some (- ENOMEM), s))
        | Some a \<Rightarrow>
          let s = s\<lparr>heap := (heap s)(a \<mapsto> replicate (unat BUF_LEN_irq) 0)\<rparr>;
              s = call (Cdev_Init i owner) s;
              devt = MKDEV (MAJOR (chrdev_devt s)) ident;
              ret = cdev_add_ret e;
              s = call (Cdev_Add i devt ret) s
          in if ret \<noteq> 0 then bindo (kfree (bufp (slot s i)) s) (\<lambda>s. Inr (Some ret, s))
          else bindo (node_name lbl ident) (\<lambda>name.
            let d = device_create e devt;
                s = call (Device_Create parent devt name d) (upd_slot i (\<lambda>c. c\<lparr>dev := d\<rparr>) s)
            in case d of
                 ErrDev err \<Rightarrow>
                   bindo (kfree (bufp (slot s i)) (call (Cdev_Del i) s)) (\<lambda>s. Inr (Some err, s))
               | _ \<Rightarrow> Inr (None, s)))"

definition register_irq_init :: "char list \<Rightarrow> u32 \<Rightarrow> u32 \<Rightarrow> drv_irq \<Rightarrow> fault + (s32 \<times> drv_irq)" where
  "register_irq_init lbl ident ro s =
     (let i = unat ident in
      bindo (strncpy lbl NAME_LEN) (\<lambda>l.
        Inr (0, call (Timer_Start i)
          (upd_slot i (\<lambda>c. (c\<lparr>devid := ident, read_only := ro, busy := True, label := l\<rparr>)
                             \<lparr>head := 0, tail := 0, fasync_queue := []\<rparr>) s))))"

lemma register_irq_parts:
  "chrdev_device_register_irq e lbl ident ro owner parent s =
     bindo (register_irq_visible e lbl ident owner parent s) (\<lambda>(r, s).
       case r of Some ret \<Rightarrow> Inr (ret, s) | None \<Rightarrow> register_irq_init lbl ident ro s)"
  by (cases "MAX_DEVICES \<le> ident"; cases "busy (slot s (unat ident))"; cases "kzalloc_ret e";
      cases "cdev_add_ret e = 0"; cases "node_name lbl ident";
      cases "device_create e (MKDEV (MAJOR (chrdev_devt s)) ident)")
    (simp_all add: chrdev_device_register_irq_def register_irq_visible_def register_irq_init_def Let_def bindo_assoc)

text \<open>What the first part leaves: a page of zeros, a device, and the former indices.\<close>

lemma register_irq_visible_effect:
  assumes "register_irq_visible e lbl (of_nat i) owner parent s = Inr (None, s')"
    and "length (chrdev_array s) = 8" and "i < 8"
  shows "\<exists>a h devt. bufp (slot s' i) = Some a \<and> heap s' a = Some (replicate 4096 0) \<and>
     dev (slot s' i) = Dev h devt \<and> head (slot s' i) = head (slot s i) \<and> tail (slot s' i) = tail (slot s i)"
  using assms unat_small_id [OF assms(3)]
  by (auto simp: register_irq_visible_def MAX_DEVICES_le Let_def bindo_Inr_iff kfree_def device_create_def
      split: if_splits option.splits sum.splits)

lemma register_irq_visible_timers:
  assumes "register_irq_visible e lbl ident owner parent s = Inr (r, s')"
  shows "live_timers (ktrace s') = live_timers (ktrace s)"
  using assms
  by (auto simp: register_irq_visible_def Let_def bindo_Inr_iff kfree_def device_create_def
      split: if_splits option.splits sum.splits)

text \<open>A read of one character from a page of zeros.\<close>

lemma read_irq_zero:
  assumes "bufp (slot s i) = Some a" and "heap s a = Some (replicate 4096 0)"
    and "head (slot s i) \<noteq> tail (slot s i)" and "unat (head (slot s i)) < 4096" "unat (tail (slot s i)) < 4096"
    and "private_data filp = Some i"
  shows "chrdev_read_irq (\<lambda>_. 0) sig s filp 1 = Inr (Returns 1 [0] (read_move i 1 s))"
proof -
  have n: "unat (cbuf_count_to_end (head (slot s i)) (tail (slot s i)) BUF_LEN_irq) \<noteq> 0"
    using assms(3-5) ring_count_alt [of "unat (head (slot s i))" 4096 "unat (tail (slot s i))"]
    by (simp add: cbuf_count_to_end_nat word_unat_eq_iff split: if_splits)
  then have "1 \<le> cbuf_count_to_end (head (slot s i)) (tail (slot s i)) BUF_LEN_irq"
    by (simp add: word_le_nat_alt)
  then have clip: "clip i 1 s = 1" by (simp add: clip_def min_def)
  have "mem_read (replicate 4096 0) (unat (tail (slot s i))) 1 = Inr [0 :: byte]"
    using assms(5) by (simp add: mem_read_def)
  moreover have "\<exists>tmp. mem_write (replicate TMP_LEN 0) 0 [0 :: byte] = Inr tmp \<and> take 1 tmp = [0]"
    by (simp add: mem_write_def TMP_LEN_def)
  ultimately obtain tmp where "read_fetch i 1 s = Inr (1, tmp)" "take 1 tmp = [0]"
    using clip assms(1,2) by (auto simp: read_fetch_def Let_def load_buf_def simp flip: clip_def)
  moreover have "\<not> empty_irq i s" using assms(3) by (simp add: empty_irq_def cbuf_is_empty_def)
  moreover have "\<not> negative (0 :: s32)" by (simp add: negative_def)
  ultimately show ?thesis using assms(6) by (simp add: chrdev_read_irq_def read_copy_def)
qed

lemma register_irq_visible_done:
  assumes "mem_env_success e s" and "is_cstr lbl" and "unat ident < 8" and "\<not> busy (slot s (unat ident))"
  shows "\<exists>s'. register_irq_visible e lbl ident owner parent s = Inr (None, s')"
  using assms
  by (auto simp: register_irq_visible_def mem_env_success_def env_succeeds_def MAX_DEVICES_le Let_def
      node_name_def device_create_def)

lemma unregister_irq_slots:
  "chrdev_device_unregister_irq lbl ident s = Inr (r, s') \<Longrightarrow>
   length (chrdev_array s') = length (chrdev_array s) \<and> (r = 0 \<longrightarrow> busy (slot s (unat ident)))"
  by (auto simp: chrdev_device_unregister_irq_def Let_def bindo_Inr_iff kfree_def
      split: if_splits option.splits dev_ptr.splits)

section \<open>Properties\<close>

text \<open>C29: a device registered again can be opened before its queue is reset: if it was unregistered with
  characters unread, a program that opens it right after \<open>device_create()\<close> and reads a character gets a zero
  byte from the new page at once, although nothing has been stored there and the device's timer does not run yet.\<close>

theorem early_reader_gets_zeros:
  assumes "irq_inv s" and "i < 8" and "items i s \<noteq> []"
    and "chrdev_device_unregister_irq lbl (of_nat i) s = Inr (0, s1)"
    and "register_irq_visible e lbl' (of_nat i) owner parent s1 = Inr (None, s2)"
  shows "\<exists>filp' s3 s4. chrdev_open_irq i filp s2 = Inr (0, filp', s3) \<and> i \<notin> live_timers (ktrace s3) \<and>
     chrdev_read_irq (\<lambda>_. 0) sig s3 filp' 1 = Inr (Returns 1 [0] s4)"
proof -
  have ui: "unat (of_nat i :: u32) = i" using assms(2) by (rule unat_small_id)
  note len = irq_invD(4) [OF assms(1)]
  note slots = unregister_irq_slots [OF assms(4), unfolded ui len]
  note eff = unregister_irq_effect [OF assms(4) len, unfolded ui]
  have b: "busy (slot s i)" using slots by simp
  have ht: "head (slot s i) \<noteq> tail (slot s i)"
    using empty_irq_items [OF assms(1,2) b] assms(3) by (simp add: empty_irq_def cbuf_is_empty_def)
  have bd: "unat (head (slot s i)) < 4096" "unat (tail (slot s i)) < 4096"
    using assms(1,2) b by (simp_all add: irq_inv_def)
  from register_irq_visible_effect [OF assms(5) _ assms(2)] slots obtain a h devt where
    v: "bufp (slot s2 i) = Some a" "heap s2 a = Some (replicate 4096 0)" "dev (slot s2 i) = Dev h devt"
      "head (slot s2 i) = head (slot s1 i)" "tail (slot s2 i) = tail (slot s1 i)" by auto
  have timers: "i \<notin> live_timers (ktrace s2)"
    using register_irq_visible_timers [OF assms(5)] eff(1) by simp
  let ?filp = "filp\<lparr>private_data := Some i\<rparr>" and ?s3 = "call (Kobject_Get h) s2"
  have "chrdev_read_irq (\<lambda>_. 0) sig ?s3 ?filp 1 = Inr (Returns 1 [0] (read_move i 1 ?s3))"
    by (rule read_irq_zero [of _ _ a]) (use v ht bd eff(2) [OF assms(2)] in simp_all)
  moreover have "chrdev_open_irq i filp s2 = Inr (0, ?filp, ?s3)"
    using v(3) by (simp add: chrdev_open_irq_def)
  moreover have "i \<notin> live_timers (ktrace ?s3)" using timers by simp
  ultimately show ?thesis by blast
qed

text \<open>The sample device, unregistered after one expiry of its timer.\<close>

theorem early_reader_gets_zeros_witness:
  "\<exists>k k1 k2 filp' k3 k4. chrdev_timer_handler 0 sample_irq = Inr (HRTIMER_RESTART, k) \<and>
     chrdev_device_unregister_irq (cstr ''a'') 0 k = Inr (0, k1) \<and>
     register_irq_visible (sample_env_irq\<lparr>kzalloc_ret := Some (free_address k1)\<rparr>) (cstr ''a'') 0 1 2 k1 = Inr (None, k2) \<and>
     chrdev_open_irq 0 sample_file_irq k2 = Inr (0, filp', k3) \<and>
     chrdev_read_irq (\<lambda>_. 0) False k3 filp' 1 = Inr (Returns 1 [0] k4)"
proof -
  from timer_handler_items [OF sample_irq_simps(1) _ sample_irq_simps(2)] obtain k where
    k: "chrdev_timer_handler 0 sample_irq = Inr (HRTIMER_RESTART, k)" "irq_inv k"
      "devices_of k = devices_of sample_irq" "items 0 k \<noteq> []"
    by (auto simp: sample_irq_simps)
  have short: "length (str_of (cstr ''a'')) < 32" by (simp add: str_of_cstr NUL_def)
  obtain k1 where k1: "chrdev_device_unregister_irq (cstr ''a'') 0 k = Inr (0, k1)" "devices_of k1 0 = None"
    using unregister_irq_returns [OF k(2) is_cstr_cstr, of 0 "''a''"] k(3) sample_irq_label
      label_array_short [OF short]
    by (auto simp: names_def split: if_splits)
  let ?e = "sample_env_irq\<lparr>kzalloc_ret := Some (free_address k1)\<rparr>"
  have "mem_env_success ?e k1"
    by (simp add: mem_env_success_def env_succeeds_def sample_env_irq_def)
  moreover have "\<not> busy (slot k1 0)" using k1(2) devices_of_busy [of 0 k1] by simp
  ultimately obtain k2 where k2: "register_irq_visible ?e (cstr ''a'') 0 1 2 k1 = Inr (None, k2)"
    using register_irq_visible_done [of ?e k1 "cstr ''a''" 0 1 2] by auto
  have "\<exists>filp' s3 s4. chrdev_open_irq 0 sample_file_irq k2 = Inr (0, filp', s3) \<and> 0 \<notin> live_timers (ktrace s3) \<and>
      chrdev_read_irq (\<lambda>_. 0) False s3 filp' 1 = Inr (Returns 1 [0] s4)"
    by (rule early_reader_gets_zeros [OF k(2) _ k(4)]) (use k1 k2 in simp_all)
  then show ?thesis using k(1) k1(1) k2 by blast
qed

end
