(* ===== verification/Mmap_Reuse.thy ===== *)
theory Mmap_Reuse
  imports Chrdev7_System
begin

text \<open>
  What becomes of the page a program has mapped with \<open>mmap\<close> when its device of chapter 7 is unregistered.
  The driver maps the page frame of the buffer and keeps no account of it: the buffer is freed under the mapping.
\<close>

section \<open>Mapping, unregistering, registering\<close>

lemma mmap7_maps:
  assumes "private_data filp = Some i" and "vm_pgoff vma = 0" and "vm_end vma - vm_start vma = 4096"
  shows "chrdev_mmap v2p 0 s filp vma =
     Inr (0, call (Remap_Pfn_Range i (vm_start vma) (drop_bit 12 (v2p (bufp (slot s i)))) 4096 0) s)"
proof -
  have "unat (vm_end vma - vm_start vma) = 4096" "vm_start vma \<noteq> vm_end vma" using assms(3) by auto
  with mmap7_result [OF assms(1), of vma v2p 0 s] assms(2,3) show ?thesis by simp
qed

lemma unregister7_effect:
  assumes "chrdev_device_unregister7 lbl (of_nat i) s = Inr (0, s')" and "length (chrdev_array s) = 8" and "i < 8"
  shows "\<exists>rest. ktrace s' = ktrace s @ rest" and "bufp (slot s i) = Some a \<Longrightarrow> heap s' a = None"
    and "length (chrdev_array s') = 8"
  using assms unat_small_id [OF assms(3)]
  by (auto simp: chrdev_device_unregister7_def MAX_DEVICES_le Let_def bindo_Inr_iff kfree_def
      split: if_splits option.splits dev_ptr.splits)

lemma register7_done:
  assumes "length (chrdev_array s) = 8" and "j < 8" and "devices_of s j = None" and "is_cstr lbl"
    and "env_succeeds e" and "kzalloc_ret e = Some a"
  shows "\<exists>s' rest. chrdev_device_register7 e lbl (of_nat j) ro owner parent s = Inr (0, s') \<and>
     ktrace s' = ktrace s @ rest \<and> bufp (slot s' j) = Some a \<and> busy (slot s' j) \<and> read_only (slot s' j) = ro"
proof -
  have uj: "unat (of_nat j :: u32) = j" using assms(2) by (rule unat_small_id)
  have free: "\<not> busy (slot s j)" using assms(2,3) by (simp add: devices_of_busy)
  from assms(5) obtain h where e: "cdev_add_ret e = 0" "device_create_ret e = Inr h" by (auto simp: env_succeeds_def)
  from register_mem_done [OF assms(1) _ _ assms(6,4) e, of "of_nat j" "\<lambda>c. c" "\<lambda>_. None" ro owner parent]
  obtain name where "chrdev_device_register7 e lbl (of_nat j) ro owner parent s =
      Inr (0, registered_mem (\<lambda>c. c) (\<lambda>_. None) e lbl (of_nat j) ro owner parent name a s)"
    using assms(2) free uj by (auto simp: register7_eq)
  then show ?thesis
    using assms(1,2) uj by (simp add: registered_mem_def Let_def opt_call_def)
qed

section \<open>Properties\<close>

text \<open>C27: a mapping outlives the device it shows: if a program has mapped the buffer of a device of chapter 7 and the
  device is unregistered, the allocator may hand the same page to the next registration, of whatever device, and
  then the frame still mapped into the program is the buffer of that device, also when it is registered as
  read-only.\<close>

theorem mapping_outlives_device:
  assumes "mem_inv s" and "i < 8" and "busy (slot s i)"
    and "private_data filp = Some i" and "vm_pgoff vma = 0" and "vm_end vma - vm_start vma = 4096"
    and "chrdev_mmap v2p 0 s filp vma = Inr (r, s1)"
    and "chrdev_device_unregister7 lbl (of_nat i) s1 = Inr (0, s2)"
    and "j < 8" and "devices_of s2 j = None" and "is_cstr lbl'"
    and "env_succeeds e" and "kzalloc_ret e = bufp (slot s i)"
  shows "r = 0 \<and> mem_env_good e s2 \<and>
     (\<exists>s3. chrdev_device_register7 e lbl' (of_nat j) ro owner parent s2 = Inr (0, s3) \<and>
        Remap_Pfn_Range i (vm_start vma) (drop_bit 12 (v2p (bufp (slot s3 j)))) 4096 0 \<in> set (ktrace s3) \<and>
        busy (slot s3 j) \<and> read_only (slot s3 j) = ro)"
proof -
  have h: "heap_inv s" and len: "length (chrdev_array s) = 8"
    using assms(1) by (simp_all add: mem_inv_def mem_inv_length)
  obtain a where a: "bufp (slot s i) = Some a" by (rule heap_inv_buf [OF h assms(2,3)])
  let ?m = "Remap_Pfn_Range i (vm_start vma) (drop_bit 12 (v2p (Some a))) 4096 0"
  have s1: "r = 0" "s1 = call ?m s" using mmap7_maps [OF assms(4-6), of v2p s] assms(7) a by simp_all
  note u = unregister7_effect [OF assms(8) _ assms(2)]
  have good: "mem_env_good e s2"
    using assms(12,13) a u(2) [of a] s1(2) len by (auto simp: mem_env_good_def env_ok_def env_succeeds_def)
  have "?m \<in> set (ktrace s2)" using u(1) s1(2) len by auto
  moreover from register7_done [OF u(3) assms(9-12), of a ro owner parent] a assms(13) s1(2) len obtain s3 rest where
    "chrdev_device_register7 e lbl' (of_nat j) ro owner parent s2 = Inr (0, s3)"
    "ktrace s3 = ktrace s2 @ rest" "bufp (slot s3 j) = Some a" "busy (slot s3 j)" "read_only (slot s3 j) = ro" by auto
  ultimately show ?thesis using s1(1) good by auto
qed

text \<open>The sample device is mapped and unregistered; device 5 gets its page.\<close>

theorem mapping_outlives_device_witness:
  "\<exists>s1 s2 s3. chrdev_mmap (\<lambda>_. 0x80000000) 0 sample7 sample_file7 \<lparr>vm_start = 0x10000, vm_end = 0x11000, vm_pgoff = 0\<rparr> = Inr (0, s1) \<and>
     chrdev_device_unregister7 (cstr ''a'') 0 s1 = Inr (0, s2) \<and>
     chrdev_device_register7 sample_env7 (cstr ''b'') 5 1 1 2 s2 = Inr (0, s3) \<and>
     Remap_Pfn_Range 0 0x10000 (drop_bit 12 0x80000000) 4096 0 \<in> set (ktrace s3) \<and> read_only (slot s3 5) = 1"
proof -
  let ?v = "\<lparr>vm_start = 0x10000, vm_end = 0x11000, vm_pgoff = 0\<rparr> :: vm_area"
  let ?m = "Remap_Pfn_Range 0 0x10000 (drop_bit 12 0x80000000) 4096 0" let ?s1 = "call ?m sample7"
  have m: "chrdev_mmap (\<lambda>_. 0x80000000) 0 sample7 sample_file7 ?v = Inr (0, ?s1)"
    using mmap7_maps [of sample_file7 0 ?v "\<lambda>_. 0x80000000" sample7] by (simp add: sample_file7_def)
  have inv: "mem_inv ?s1" and dev: "devices_of ?s1 = devices_of sample7"
    using mem_inv_call [OF sample7_inv, of ?m] no_effect [of ?m] by blast+
  have short: "length (str_of (cstr ''a'')) < 32" by (simp add: str_of_cstr NUL_def)
  have "devices_of sample7 = (devices_of start7)(0 \<mapsto> label_array (cstr ''a''))"
    unfolding sample7_def
    by (subst registered_mem_inv(2) [OF mem_inv_start7 _ _ _ _ no_extras, of _ _ _ 7])
      (simp_all add: start7_free zero_dev7_def sample_env7_def, simp add: start7_def)
  moreover have "devices_of start7 5 = None" by (simp add: devices_of_def start7_free zero_dev7_def)
  ultimately have "devices_of sample7 0 = Some (label_array (cstr ''a''))" "devices_of sample7 5 = None"
    by simp_all
  then obtain s2 where s2: "chrdev_device_unregister7 (cstr ''a'') 0 ?s1 = Inr (0, s2)" "devices_of s2 5 = None"
    using reg7.unregister_returns [OF inv is_cstr_cstr, of 0 "''a''"] dev label_array_short [OF short]
    by (auto simp: names_def split: if_splits)
  have "0 = (0 :: s32) \<and> mem_env_good sample_env7 s2 \<and>
     (\<exists>s3. chrdev_device_register7 sample_env7 (cstr ''b'') (of_nat 5) 1 1 2 s2 = Inr (0, s3) \<and>
        Remap_Pfn_Range 0 (vm_start ?v) (drop_bit 12 ((\<lambda>_. 0x80000000) (bufp (slot s3 5)))) 4096 0 \<in> set (ktrace s3) \<and>
        busy (slot s3 5) \<and> read_only (slot s3 5) = 1)"
    by (rule mapping_outlives_device [OF sample7_inv _ _ _ _ _ m _ _ s2(2) is_cstr_cstr, where lbl = "cstr ''a''"])
      (use s2(1) in \<open>simp_all add: sample7_slot sample_file7_def sample_env7_def env_succeeds_def\<close>)
  then show ?thesis using m s2(1) by auto
qed

end
