(* ===== verification/Klist.thy ===== *)
theory Klist
  imports Prelude "HOL-Library.Multiset"
begin

text \<open>
  \<^verbatim>\<open>Chapter06/list/list.c\<close>: a list kept in decreasing order on the kernel's
  circular doubly-linked lists. The list operations of \<open><linux/list.h>\<close> are the argument
  \<open>api\<close>; the locale \<open>kernel_list\<close> states their documented behaviour (what they do to the
  sequence of nodes a head leads to), and the interpretation \<open>dl\<close> provides it for links kept
  in memory. The loops of \<^verbatim>\<open>list.c\<close> follow the links until they are back at the head, so
  they are partial functions; that they end on a well-formed list is part of each property.
\<close>

section \<open>The list operations used\<close>

record 'm list_api =
  api_next :: "'m \<Rightarrow> nat \<Rightarrow> nat"              \<comment> \<open>\<open>ptr->next\<close>\<close>
  api_add_tail :: "nat \<Rightarrow> nat \<Rightarrow> 'm \<Rightarrow> 'm"    \<comment> \<open>\<open>list_add_tail(new, head)\<close>\<close>
  api_del :: "nat \<Rightarrow> 'm \<Rightarrow> 'm"               \<comment> \<open>\<open>list_del(entry)\<close>\<close>

section \<open>The functions of list.c\<close>

text \<open>
  Nodes are addresses; \<open>data\<close> is the field of the structure around a node. \<open>head\<close> is
  \<open>&data_list\<close>. The loop starts at \<open>head->next\<close>.
\<close>

partial_function (option) add_scan ::
  "'m list_api \<Rightarrow> (nat \<Rightarrow> s32) \<Rightarrow> nat \<Rightarrow> nat \<Rightarrow> 'm \<Rightarrow> nat \<Rightarrow> 'm option" where
  "add_scan api data head new m ptr =
     (if ptr = head then Some (api_add_tail api new head m)
      else if sint (data ptr) < sint (data new) then Some (api_add_tail api new ptr m)
      else add_scan api data head new m (api_next api m ptr))"

definition add_ordered_entry ::
  "'m list_api \<Rightarrow> (nat \<Rightarrow> s32) \<Rightarrow> nat \<Rightarrow> nat \<Rightarrow> 'm \<Rightarrow> 'm option" where
  "add_ordered_entry api data head new m = add_scan api data head new m (api_next api m head)"

partial_function (option) del_scan ::
  "'m list_api \<Rightarrow> (nat \<Rightarrow> s32) \<Rightarrow> nat \<Rightarrow> s32 \<Rightarrow> 'm \<Rightarrow> nat \<Rightarrow> 'm option" where
  "del_scan api data head x m ptr =
     (if ptr = head then Some m
      else if data ptr = x then Some (api_del api ptr m)
      else del_scan api data head x m (api_next api m ptr))"

definition del_entry ::
  "'m list_api \<Rightarrow> (nat \<Rightarrow> s32) \<Rightarrow> nat \<Rightarrow> s32 \<Rightarrow> 'm \<Rightarrow> 'm option" where
  "del_entry api data head x m = del_scan api data head x m (api_next api m head)"

text \<open>The values printed, in order.\<close>

partial_function (option) print_scan ::
  "'m list_api \<Rightarrow> (nat \<Rightarrow> s32) \<Rightarrow> nat \<Rightarrow> 'm \<Rightarrow> nat \<Rightarrow> s32 list option" where
  "print_scan api data head m ptr =
     (if ptr = head then Some []
      else Option.bind (print_scan api data head m (api_next api m ptr)) (\<lambda>r. Some (data ptr # r)))"

definition print_entries :: "'m list_api \<Rightarrow> (nat \<Rightarrow> s32) \<Rightarrow> nat \<Rightarrow> 'm \<Rightarrow> s32 list option" where
  "print_entries api data head m = print_scan api data head m (api_next api m head)"

text \<open>\<open>list_init()\<close>: what it returns, and what each \<open>print_entries()\<close> prints.\<close>

definition list_init ::
  "'m list_api \<Rightarrow> nat \<Rightarrow> nat \<Rightarrow> nat \<Rightarrow> nat \<Rightarrow> 'm \<Rightarrow> (s32 \<times> s32 list list \<times> 'm) option" where
  "list_init api head e1 e2 e3 m =
     (let data = (\<lambda>_. 0)(e1 := 5, e2 := 1, e3 := 7) in
      Option.bind (add_ordered_entry api data head e1 m) (\<lambda>m.
      Option.bind (print_entries api data head m) (\<lambda>p1.
      Option.bind (add_ordered_entry api data head e2 m) (\<lambda>m.
      Option.bind (add_ordered_entry api data head e3 m) (\<lambda>m.
      Option.bind (print_entries api data head m) (\<lambda>p2.
      Option.bind (del_entry api data head 5 m) (\<lambda>m.
      Option.bind (print_entries api data head m) (\<lambda>p3.
      Some (- EINVAL, [p1, p2, p3], m)))))))))"

definition list_exit :: "string list" where
  "list_exit = [''unloaded'' @ [CHR 0x0A]]"

section \<open>The contract of the kernel's lists\<close>

locale kernel_list =
  fixes api :: "'m list_api" and holds_list :: "'m \<Rightarrow> nat \<Rightarrow> nat list \<Rightarrow> bool"
  assumes nodes_distinct: "holds_list m h ns \<Longrightarrow> distinct (h # ns)"
    and next_node: "holds_list m h ns \<Longrightarrow> k \<le> length ns \<Longrightarrow> api_next api m ((h # ns) ! k) = (ns @ [h]) ! k"
    and add_tail: "holds_list m h ns \<Longrightarrow> new \<notin> set (h # ns) \<Longrightarrow> k \<le> length ns \<Longrightarrow>
       holds_list (api_add_tail api new ((ns @ [h]) ! k) m) h (take k ns @ new # drop k ns)"
    and del: "holds_list m h ns \<Longrightarrow> k < length ns \<Longrightarrow>
       holds_list (api_del api (ns ! k) m) h (take k ns @ drop (Suc k) ns)"
begin

lemma at_head: "holds_list m h ns \<Longrightarrow> k \<le> length ns \<Longrightarrow> (ns @ [h]) ! k = h \<longleftrightarrow> k = length ns"
  using nodes_distinct [of m h ns] by (auto simp: nth_append)

lemma step_node: "holds_list m h ns \<Longrightarrow> k < length ns \<Longrightarrow> api_next api m ((ns @ [h]) ! k) = (ns @ [h]) ! Suc k"
  using next_node [of m h ns "Suc k"] by (simp add: nth_append)

text \<open>The scan for the place of a new entry stops before the first smaller one.\<close>

lemma add_scan_from:
  assumes "holds_list m h ns" and "k \<le> length ns"
  shows "add_scan api data h new m ((ns @ [h]) ! k) =
     Some (api_add_tail api new
       ((ns @ [h]) ! (k + length (takeWhile (\<lambda>p. \<not> sint (data p) < sint (data new)) (drop k ns)))) m)"
  using assms(2)
proof (induction "length ns - k" arbitrary: k)
  case 0
  then show ?case
    by (subst add_scan.simps) (simp add: at_head [OF assms(1)] nth_append)
next
  case (Suc n)
  then have k: "k < length ns" by simp
  then have node: "(ns @ [h]) ! k = ns ! k" "(ns @ [h]) ! k \<noteq> h"
    using at_head [OF assms(1), of k] by (simp_all add: nth_append)
  have drop: "drop k ns = ns ! k # drop (Suc k) ns"
    using k by (simp add: Cons_nth_drop_Suc)
  show ?case
  proof (cases "sint (data (ns ! k)) < sint (data new)")
    case True
    with node drop show ?thesis by (subst add_scan.simps) simp
  next
    case False
    have "add_scan api data h new m ((ns @ [h]) ! k) = add_scan api data h new m ((ns @ [h]) ! Suc k)"
      using node False step_node [OF assms(1) k]
      by (subst add_scan.simps) simp
    with Suc.hyps(1) [of "Suc k"] Suc.hyps(2) Suc.prems k False drop show ?thesis by simp
  qed
qed

lemma del_scan_from:
  assumes "holds_list m h ns" and "k \<le> length ns"
  shows "del_scan api data h x m ((ns @ [h]) ! k) =
     Some (let j = k + length (takeWhile (\<lambda>p. data p \<noteq> x) (drop k ns)) in
           if j < length ns then api_del api (ns ! j) m else m)"
  using assms(2)
proof (induction "length ns - k" arbitrary: k)
  case 0
  then show ?case
    by (subst del_scan.simps) (simp add: at_head [OF assms(1)])
next
  case (Suc n)
  then have k: "k < length ns" by simp
  then have node: "(ns @ [h]) ! k = ns ! k" "(ns @ [h]) ! k \<noteq> h"
    using at_head [OF assms(1), of k] by (simp_all add: nth_append)
  have drop: "drop k ns = ns ! k # drop (Suc k) ns"
    using k by (simp add: Cons_nth_drop_Suc)
  show ?case
  proof (cases "data (ns ! k) = x")
    case True
    with node drop k show ?thesis by (subst del_scan.simps) simp
  next
    case False
    have "del_scan api data h x m ((ns @ [h]) ! k) = del_scan api data h x m ((ns @ [h]) ! Suc k)"
      using node False step_node [OF assms(1) k]
      by (subst del_scan.simps) simp
    with Suc.hyps(1) [of "Suc k"] Suc.hyps(2) Suc.prems k False drop show ?thesis by simp
  qed
qed

lemma print_scan_from:
  assumes "holds_list m h ns" and "k \<le> length ns"
  shows "print_scan api data h m ((ns @ [h]) ! k) = Some (map data (drop k ns))"
  using assms(2)
proof (induction "length ns - k" arbitrary: k)
  case 0
  then show ?case
    by (subst print_scan.simps) (simp add: at_head [OF assms(1)])
next
  case (Suc n)
  then have k: "k < length ns" by simp
  then have node: "(ns @ [h]) ! k = ns ! k" "(ns @ [h]) ! k \<noteq> h"
    using at_head [OF assms(1), of k] by (simp_all add: nth_append)
  have "print_scan api data h m ((ns @ [h]) ! k) =
        Option.bind (print_scan api data h m ((ns @ [h]) ! Suc k)) (\<lambda>r. Some (data (ns ! k) # r))"
    using node step_node [OF assms(1) k] by (subst print_scan.simps) simp
  with Suc.hyps(1) [of "Suc k"] Suc.hyps(2) k show ?case
    by (simp flip: Cons_nth_drop_Suc)
qed

text \<open>The three functions on the sequence of nodes.\<close>

lemma first_node: "holds_list m h ns \<Longrightarrow> api_next api m h = (ns @ [h]) ! 0"
  using next_node [of m h ns 0] by simp

lemma add_ordered:
  assumes "holds_list m h ns" and "new \<notin> set (h # ns)"
  shows "\<exists>m'. add_ordered_entry api data h new m = Some m' \<and>
     holds_list m' h (takeWhile (\<lambda>p. \<not> sint (data p) < sint (data new)) ns @ new #
                      dropWhile (\<lambda>p. \<not> sint (data p) < sint (data new)) ns)"
proof -
  let ?P = "\<lambda>p. \<not> sint (data p) < sint (data new)"
  let ?k = "length (takeWhile ?P ns)"
  have k: "?k \<le> length ns" by (rule length_takeWhile_le)
  have "take ?k ns = takeWhile ?P ns" "drop ?k ns = dropWhile ?P ns"
    by (simp_all add: takeWhile_eq_take [symmetric] dropWhile_eq_drop [symmetric])
  with add_tail [OF assms k] add_scan_from [OF assms(1), of 0 data new] show ?thesis
    by (simp add: add_ordered_entry_def first_node [OF assms(1)])
qed

lemma del_first:
  assumes "holds_list m h ns"
  shows "\<exists>m'. del_entry api data h x m = Some m' \<and>
     holds_list m' h (takeWhile (\<lambda>p. data p \<noteq> x) ns @ tl (dropWhile (\<lambda>p. data p \<noteq> x) ns))"
proof -
  let ?P = "\<lambda>p. data p \<noteq> x"
  let ?k = "length (takeWhile ?P ns)"
  have "take ?k ns = takeWhile ?P ns" "drop ?k ns = dropWhile ?P ns"
    by (simp_all add: takeWhile_eq_take [symmetric] dropWhile_eq_drop [symmetric])
  then have eq: "takeWhile ?P ns @ tl (dropWhile ?P ns) = take ?k ns @ drop (Suc ?k) ns"
    by (metis drop_Suc tl_drop)
  have run: "del_entry api data h x m = Some (if ?k < length ns then api_del api (ns ! ?k) m else m)"
    using del_scan_from [OF assms, of 0 data x]
    by (simp add: del_entry_def first_node [OF assms] Let_def)
  show ?thesis
  proof (cases "?k < length ns")
    case True
    with del [OF assms True] run show ?thesis unfolding eq by simp
  next
    case False
    then have "?k = length ns" using length_takeWhile_le [of ?P ns] by linarith
    with assms run show ?thesis unfolding eq by simp
  qed
qed

lemma print_all: "holds_list m h ns \<Longrightarrow> print_entries api data h m = Some (map data ns)"
  using print_scan_from [of m h ns 0] by (simp add: print_entries_def first_node)

end

section \<open>Doubly-linked lists in memory provide it\<close>

record links =
  next_p :: "nat \<Rightarrow> nat"
  prev_p :: "nat \<Rightarrow> nat"

definition dl_add_tail :: "nat \<Rightarrow> nat \<Rightarrow> links \<Rightarrow> links" where
  "dl_add_tail new head m =
     (let prev = prev_p m head in
      m\<lparr>next_p := (next_p m)(new := head, prev := new), prev_p := (prev_p m)(head := new, new := prev)\<rparr>)"

definition dl_del :: "nat \<Rightarrow> links \<Rightarrow> links" where
  "dl_del entry m =
     (let prev = prev_p m entry; next = next_p m entry in
      m\<lparr>next_p := (next_p m)(prev := next), prev_p := (prev_p m)(next := prev)\<rparr>)"

definition dl_api :: "links list_api" where
  "dl_api = \<lparr>api_next = next_p, api_add_tail = dl_add_tail, api_del = dl_del\<rparr>"

text \<open>
  In a list with nodes \<open>ns\<close>, the successors of \<open>h # ns\<close> are \<open>ns @ [h]\<close>, and the predecessors
  the other way round.
\<close>

definition linked :: "links \<Rightarrow> nat list \<Rightarrow> nat list \<Rightarrow> bool" where
  "linked m A B \<longleftrightarrow> length A = length B \<and> distinct A \<and> distinct B \<and>
     (\<forall>k < length A. next_p m (A ! k) = B ! k \<and> prev_p m (B ! k) = A ! k)"

definition dl_holds :: "links \<Rightarrow> nat \<Rightarrow> nat list \<Rightarrow> bool" where
  "dl_holds m h ns \<longleftrightarrow> linked m (h # ns) (ns @ [h])"

text \<open>\<open>LIST_HEAD\<close>: a head that points to itself.\<close>

definition dl_empty :: links where
  "dl_empty = \<lparr>next_p = (\<lambda>n. n), prev_p = (\<lambda>n. n)\<rparr>"

lemma dl_holds_empty: "dl_holds dl_empty h []"
  by (simp add: dl_holds_def linked_def dl_empty_def)

definition insert_at :: "nat \<Rightarrow> 'a \<Rightarrow> 'a list \<Rightarrow> 'a list" where
  "insert_at k x xs = take k xs @ x # drop k xs"

definition remove_at :: "nat \<Rightarrow> 'a list \<Rightarrow> 'a list" where
  "remove_at k xs = take k xs @ drop (Suc k) xs"

lemma insert_at:
  assumes "k \<le> length xs"
  shows "length (insert_at k x xs) = Suc (length xs)"
    and "insert_at k x xs ! j = (if j < k then xs ! j else if j = k then x else xs ! (j - 1))"
    and "distinct (insert_at k x xs) \<longleftrightarrow> distinct xs \<and> x \<notin> set xs"
proof -
  show "length (insert_at k x xs) = Suc (length xs)" using assms by (simp add: insert_at_def)
  show "insert_at k x xs ! j = (if j < k then xs ! j else if j = k then x else xs ! (j - 1))"
    using assms by (auto simp: insert_at_def nth_append nth_Cons' min_def)
  have "mset (insert_at k x xs) = mset (x # xs)"
    using mset_append [of "take k xs" "drop k xs"] by (simp add: insert_at_def)
  then have "distinct (insert_at k x xs) \<longleftrightarrow> distinct (x # xs)" by (rule mset_eq_imp_distinct_iff)
  then show "distinct (insert_at k x xs) \<longleftrightarrow> distinct xs \<and> x \<notin> set xs" by auto
qed

lemma remove_at:
  assumes "k < length xs"
  shows "length (remove_at k xs) = length xs - 1"
    and "remove_at k xs ! j = (if j < k then xs ! j else xs ! Suc j)"
    and "distinct xs \<Longrightarrow> distinct (remove_at k xs)"
proof -
  show "length (remove_at k xs) = length xs - 1" using assms by (simp add: remove_at_def)
  show "remove_at k xs ! j = (if j < k then xs ! j else xs ! Suc j)"
    using assms by (auto simp: remove_at_def nth_append min_def)
  have "xs = insert_at k (xs ! k) (remove_at k xs)"
    using assms by (simp add: insert_at_def remove_at_def id_take_nth_drop min_def)
  then show "distinct (remove_at k xs)" if "distinct xs"
    using that insert_at(3) [of k "remove_at k xs" "xs ! k"] assms
    by (simp add: remove_at_def)
qed

lemma linked_add:
  assumes l: "linked m A B" and k: "k < length A" and new: "new \<notin> set A \<union> set B"
  shows "linked (dl_add_tail new (B ! k) m) (insert_at (Suc k) new A) (insert_at k new B)"
proof -
  let ?m = "dl_add_tail new (B ! k) m"
  have len: "length A = length B" and d: "distinct A" "distinct B"
    and nx: "\<And>j. j < length B \<Longrightarrow> next_p m (A ! j) = B ! j"
    and pv: "\<And>j. j < length B \<Longrightarrow> prev_p m (B ! j) = A ! j"
    using l by (auto simp: linked_def)
  have eq: "A ! i = A ! j \<longleftrightarrow> i = j" "B ! i = B ! j \<longleftrightarrow> i = j" if "i < length B" "j < length B" for i j
    using that d len by (simp_all add: nth_eq_iff_index_eq)
  have ne: "A ! j \<noteq> new" "B ! j \<noteq> new" if "j < length B" for j
    using that new len nth_mem [of j A] nth_mem [of j B] by auto
  have next': "next_p ?m = (next_p m)(new := B ! k, A ! k := new)"
    and prev': "prev_p ?m = (prev_p m)(B ! k := new, new := A ! k)"
    using pv k len by (simp_all add: dl_add_tail_def Let_def)
  have A: "insert_at (Suc k) new A ! j = (if j < Suc k then A ! j else if j = Suc k then new else A ! (j - 1))"
    and B: "insert_at k new B ! j = (if j < k then B ! j else if j = k then new else B ! (j - 1))" for j
    using insert_at(2) [of "Suc k" A] insert_at(2) [of k B] k len by auto
  have "next_p ?m (insert_at (Suc k) new A ! j) = insert_at k new B ! j \<and>
        prev_p ?m (insert_at k new B ! j) = insert_at (Suc k) new A ! j"
    if j: "j < Suc (length B)" for j
  proof -
    consider "j < k" | "j = k" | "j = Suc k" | i where "j = Suc i" "k < i" "i < length B"
      using j by (metis Suc_lessE Suc_lessI less_Suc_eq linorder_neqE_nat not_less_eq)
    then show ?thesis
      unfolding A B next' prev' using k len nx pv ne eq by cases auto
  qed
  moreover have "distinct (insert_at (Suc k) new A)" "distinct (insert_at k new B)"
    using insert_at(3) [of "Suc k" A new] insert_at(3) [of k B new] k len d new by auto
  ultimately show ?thesis
    using insert_at(1) [of "Suc k" A new] insert_at(1) [of k B new] k len by (simp add: linked_def)
qed

lemma linked_del:
  assumes l: "linked m A B" and k: "Suc k < length A" and node: "A ! Suc k = B ! k"
  shows "linked (dl_del (B ! k) m) (remove_at (Suc k) A) (remove_at k B)"
proof -
  let ?m = "dl_del (B ! k) m"
  have len: "length A = length B" and d: "distinct A" "distinct B"
    and nx: "\<And>j. j < length B \<Longrightarrow> next_p m (A ! j) = B ! j"
    and pv: "\<And>j. j < length B \<Longrightarrow> prev_p m (B ! j) = A ! j"
    using l by (auto simp: linked_def)
  have eq: "A ! i = A ! j \<longleftrightarrow> i = j" "B ! i = B ! j \<longleftrightarrow> i = j" if "i < length B" "j < length B" for i j
    using that d len by (simp_all add: nth_eq_iff_index_eq)
  have "next_p m (B ! k) = B ! Suc k" "prev_p m (B ! k) = A ! k"
    using nx [of "Suc k"] pv [of k] k len node by simp_all
  then have next': "next_p ?m = (next_p m)(A ! k := B ! Suc k)"
    and prev': "prev_p ?m = (prev_p m)(B ! Suc k := A ! k)"
    by (simp_all add: dl_del_def Let_def)
  have A: "remove_at (Suc k) A ! j = (if j < Suc k then A ! j else A ! Suc j)"
    and B: "remove_at k B ! j = (if j < k then B ! j else B ! Suc j)" for j
    using remove_at(2) [of "Suc k" A] remove_at(2) [of k B] k len by auto
  have "next_p ?m (remove_at (Suc k) A ! j) = remove_at k B ! j \<and>
        prev_p ?m (remove_at k B ! j) = remove_at (Suc k) A ! j"
    if j: "j < length B - 1" for j
  proof -
    consider "j < k" | "j = k" | "k < j" by linarith
    then show ?thesis
      unfolding A B next' prev' using k j len nx pv eq by cases auto
  qed
  moreover have "distinct (remove_at (Suc k) A)" "distinct (remove_at k B)"
    using remove_at(3) [of "Suc k" A] remove_at(3) [of k B] k len d by auto
  ultimately show ?thesis
    using remove_at(1) [of "Suc k" A] remove_at(1) [of k B] k len by (simp add: linked_def)
qed

interpretation dl: kernel_list dl_api dl_holds
proof (unfold_locales, goal_cases)
  case (1 m h ns)
  then show ?case by (simp add: dl_holds_def linked_def)
next
  case (2 m h ns k)
  then show ?case
    unfolding dl_holds_def linked_def dl_api_def by simp
next
  case (3 m h ns new k)
  have "linked (dl_add_tail new ((ns @ [h]) ! k) m) (insert_at (Suc k) new (h # ns)) (insert_at k new (ns @ [h]))"
    using 3 by (intro linked_add) (auto simp: dl_holds_def)
  moreover have "insert_at (Suc k) new (h # ns) = h # (take k ns @ new # drop k ns)"
    "insert_at k new (ns @ [h]) = (take k ns @ new # drop k ns) @ [h]"
    using 3(3) by (simp_all add: insert_at_def)
  ultimately show ?case by (simp add: dl_holds_def dl_api_def)
next
  case (4 m h ns k)
  have "linked (dl_del ((ns @ [h]) ! k) m) (remove_at (Suc k) (h # ns)) (remove_at k (ns @ [h]))"
    using 4 by (intro linked_del) (auto simp: dl_holds_def nth_append)
  moreover have "remove_at (Suc k) (h # ns) = h # (take k ns @ drop (Suc k) ns)"
    "remove_at k (ns @ [h]) = (take k ns @ drop (Suc k) ns) @ [h]"
    using 4(2) by (simp_all add: remove_at_def)
  moreover have "(ns @ [h]) ! k = ns ! k" using 4(2) by (simp add: nth_append)
  ultimately show ?case by (simp add: dl_holds_def dl_api_def)
qed

section \<open>Properties\<close>

abbreviation decreasing :: "(nat \<Rightarrow> s32) \<Rightarrow> nat list \<Rightarrow> bool" where
  "decreasing data \<equiv> sorted_wrt (\<lambda>p q. sint (data q) \<le> sint (data p))"

lemma decreasing_insert:
  assumes "decreasing data ns"
    and P_def: "P = (\<lambda>p. \<not> sint (data p) < sint (data new))"
  shows "decreasing data (takeWhile P ns @ new # dropWhile P ns)"
proof -
  have before: "sint (data new) \<le> sint (data p)" if "p \<in> set (takeWhile P ns)" for p
    using set_takeWhileD [OF that] by (simp add: P_def)
  have after: "sint (data p) \<le> sint (data new)" if "p \<in> set (dropWhile P ns)" for p
  proof (cases "dropWhile P ns")
    case Nil
    with that show ?thesis by simp
  next
    case (Cons q qs)
    then have "\<not> P q" by (metis hd_dropWhile list.distinct(1) list.sel(1))
    moreover have "decreasing data (takeWhile P ns @ q # qs)"
      using assms(1) Cons by (metis takeWhile_dropWhile_id)
    ultimately show ?thesis
      using that Cons by (auto simp: P_def sorted_wrt_append)
  qed
  have "decreasing data (takeWhile P ns @ dropWhile P ns)"
    using assms(1) by simp
  then have "decreasing data (takeWhile P ns)" "decreasing data (dropWhile P ns)"
    unfolding sorted_wrt_append by blast+
  then show ?thesis
    using before after by (force simp: sorted_wrt_append intro: order_trans)
qed

text \<open>C17: adding an entry to a decreasing list ends and leaves a decreasing list that holds the new
  entry once and all the others in their order; it comes after the entries with the same value. This
  holds for any list operations that behave as documented.\<close>

theorem add_ordered_entry_sorted:
  assumes "kernel_list api holds_list" and "holds_list m h ns" and "new \<notin> set (h # ns)"
    and "decreasing data ns"
  shows "\<exists>m' xs ys. add_ordered_entry api data h new m = Some m' \<and>
     holds_list m' h (xs @ new # ys) \<and> ns = xs @ ys \<and> decreasing data (xs @ new # ys) \<and>
     (\<forall>p \<in> set ys. data p \<noteq> data new)"
proof -
  let ?P = "\<lambda>p. \<not> sint (data p) < sint (data new)"
  from kernel_list.add_ordered [OF assms(1-3)] obtain m' where
    "add_ordered_entry api data h new m = Some m'"
    "holds_list m' h (takeWhile ?P ns @ new # dropWhile ?P ns)" by blast
  moreover have "decreasing data (takeWhile ?P ns @ new # dropWhile ?P ns)"
    by (rule decreasing_insert [OF assms(4) refl])
  moreover have "data p \<noteq> data new" if "p \<in> set (dropWhile ?P ns)" for p
  proof (cases "dropWhile ?P ns")
    case Nil
    with that show ?thesis by simp
  next
    case (Cons q qs)
    then have "sint (data q) < sint (data new)"
      by (metis hd_dropWhile list.distinct(1) list.sel(1))
    moreover have "decreasing data (takeWhile ?P ns @ q # qs)"
      using assms(4) Cons by (metis takeWhile_dropWhile_id)
    ultimately have "sint (data p) < sint (data new)"
      using that Cons by (auto simp: sorted_wrt_append)
    then show ?thesis by auto
  qed
  ultimately show ?thesis by (metis takeWhile_dropWhile_id)
qed

theorem add_ordered_entry_sorted_witness:
  "\<exists>m' xs ys. add_ordered_entry dl_api (\<lambda>_. 5) 1 2 dl_empty = Some m' \<and>
     dl_holds m' 1 (xs @ 2 # ys) \<and> [] = xs @ ys"
  using add_ordered_entry_sorted [OF dl.kernel_list_axioms dl_holds_empty, of 2 1 "\<lambda>_. 5"] by fastforce

text \<open>Deleting a value ends and takes out the first entry that has it, and nothing else; a list
  without the value is left as it is, and a decreasing list stays decreasing.\<close>

lemma del_entry_first:
  assumes "kernel_list api holds_list" and "holds_list m h ns" and "decreasing data ns"
  shows "\<exists>m' ns'. del_entry api data h x m = Some m' \<and> holds_list m' h ns' \<and> decreasing data ns' \<and>
     (if x \<in> data ` set ns
      then \<exists>xs p ys. ns = xs @ p # ys \<and> data p = x \<and> x \<notin> data ` set xs \<and> ns' = xs @ ys
      else ns' = ns)"
proof -
  let ?P = "\<lambda>p. data p \<noteq> x"
  from kernel_list.del_first [OF assms(1,2), of data x] obtain m' where
    m': "del_entry api data h x m = Some m'"
      "holds_list m' h (takeWhile ?P ns @ tl (dropWhile ?P ns))" by blast
  show ?thesis
  proof (cases "dropWhile ?P ns")
    case Nil
    then have all: "\<forall>p \<in> set ns. data p \<noteq> x" by (simp add: dropWhile_eq_Nil_conv)
    then have "x \<notin> data ` set ns" by auto
    have eq: "takeWhile ?P ns = ns" using all by (simp add: takeWhile_eq_all_conv)
    have "holds_list m' h ns" using m'(2) unfolding eq Nil by simp
    with m'(1) assms(3) \<open>x \<notin> data ` set ns\<close> show ?thesis by auto
  next
    case (Cons p ys)
    then have p: "data p = x"
      using hd_dropWhile [of ?P ns] by simp
    define xs where "xs = takeWhile ?P ns"
    have ns: "ns = xs @ p # ys"
      unfolding xs_def using takeWhile_dropWhile_id [of ?P ns] Cons by simp
    have "holds_list m' h (xs @ ys)"
      using m'(2) by (simp add: Cons xs_def)
    moreover have "x \<in> data ` set ns" using p by (simp add: ns)
    moreover have "decreasing data (xs @ ys)"
      using assms(3) by (auto simp: ns sorted_wrt_append)
    moreover have "x \<notin> data ` set xs" by (auto simp: xs_def dest: set_takeWhileD)
    ultimately show ?thesis
      using m'(1) ns p by (intro exI [of _ m'] exI [of _ "xs @ ys"]) auto
  qed
qed

lemma del_entry_first_witness:
  "\<exists>m' ns'. del_entry dl_api (\<lambda>_. 5) 1 5 dl_empty = Some m' \<and> dl_holds m' 1 ns'"
  using del_entry_first [OF dl.kernel_list_axioms dl_holds_empty, of "\<lambda>_. 5" 1 5] by auto

text \<open>Loading the module, with its list empty and its three entries apart, prints 5, then 7 5 1, then
  7 1, and reports \<open>-EINVAL\<close>, so that the module is not kept.\<close>

lemma list_init_prints:
  assumes "kernel_list api holds_list" and "holds_list m h []" and "distinct [h, e1, e2, e3]"
  shows "\<exists>m'. list_init api h e1 e2 e3 m = Some (- EINVAL, [[5], [7, 5, 1], [7, 1]], m') \<and>
              holds_list m' h [e3, e2]"
proof -
  define data :: "nat \<Rightarrow> s32" where "data = (\<lambda>_. 0)(e1 := 5, e2 := 1, e3 := 7)"
  have d: "data e1 = 5" "data e2 = 1" "data e3 = 7"
    using assms(3) by (auto simp: data_def)
  note add = kernel_list.add_ordered [OF assms(1), of _ h _ _ data]
  from add [OF assms(2), of e1] assms(3) obtain m1 where
    m1: "add_ordered_entry api data h e1 m = Some m1" "holds_list m1 h [e1]" by auto
  from add [OF m1(2), of e2] assms(3) d obtain m2 where
    m2: "add_ordered_entry api data h e2 m1 = Some m2" "holds_list m2 h [e1, e2]" by auto
  from add [OF m2(2), of e3] assms(3) d obtain m3 where
    m3: "add_ordered_entry api data h e3 m2 = Some m3" "holds_list m3 h [e3, e1, e2]" by auto
  from kernel_list.del_first [OF assms(1) m3(2), of data 5] d obtain m4 where
    m4: "del_entry api data h 5 m3 = Some m4" "holds_list m4 h [e3, e2]" by auto
  have "print_entries api data h m1 = Some [5]" "print_entries api data h m3 = Some [7, 5, 1]"
    "print_entries api data h m4 = Some [7, 1]"
    using kernel_list.print_all [OF assms(1) m1(2), of data] kernel_list.print_all [OF assms(1) m3(2), of data]
      kernel_list.print_all [OF assms(1) m4(2), of data] d by simp_all
  with m1 m2 m3 m4 show ?thesis
    unfolding list_init_def data_def [symmetric] Let_def by simp
qed

lemma list_init_prints_witness:
  "\<exists>m'. list_init dl_api 0 1 2 3 dl_empty = Some (- EINVAL, [[5], [7, 5, 1], [7, 1]], m')"
  using list_init_prints [OF dl.kernel_list_axioms dl_holds_empty, of 0 1 2 3] by auto

end
