(* ===== verification/Khash.thy ===== *)
theory Khash
  imports Prelude "HOL-Library.Multiset" "HOL-Library.Signed_Division"
begin

text \<open>
  \<^verbatim>\<open>Chapter06/hashtable/hashtable.c\<close>: entries in one of the kernel's hash tables, under a
  key computed by \<open>hash_func()\<close>. The operations of \<open><linux/hashtable.h>\<close> are the argument
  \<open>api\<close>; a table may put several keys in one bucket, so what a loop over a key's bucket
  visits may include entries with other keys. The locale \<open>kernel_hash\<close> states the documented
  behaviour of the operations, \<open>buckets\<close> interprets it for a table of two chains.
\<close>

section \<open>The operations used\<close>

record 't hash_api =
  h_add :: "nat \<Rightarrow> s32 \<Rightarrow> 't \<Rightarrow> 't"         \<comment> \<open>\<open>hash_add(table, node, key)\<close>\<close>
  h_del :: "nat \<Rightarrow> 't \<Rightarrow> 't"                \<comment> \<open>\<open>hash_del(node)\<close>\<close>
  h_possible :: "'t \<Rightarrow> s32 \<Rightarrow> nat list"     \<comment> \<open>\<open>hash_for_each_possible\<close>\<close>
  h_all :: "'t \<Rightarrow> nat list"                 \<comment> \<open>\<open>hash_for_each\<close>\<close>

section \<open>The functions of hashtable.c\<close>

text \<open>C's \<open>%\<close> takes the sign of the dividend: the key of an odd negative number is -1.\<close>

definition hash_func :: "s32 \<Rightarrow> s32" where
  "hash_func data = word_of_int (sint data smod 2)"

definition add_node :: "'t hash_api \<Rightarrow> (nat \<Rightarrow> s32) \<Rightarrow> nat \<Rightarrow> 't \<Rightarrow> 't" where
  "add_node api data new t = h_add api new (hash_func (data new)) t"

fun del_loop :: "'t hash_api \<Rightarrow> (nat \<Rightarrow> s32) \<Rightarrow> s32 \<Rightarrow> nat list \<Rightarrow> 't \<Rightarrow> 't" where
  "del_loop api data x [] t = t"
| "del_loop api data x (n # ns) t = (if data n = x then h_del api n t else del_loop api data x ns t)"

definition del_node :: "'t hash_api \<Rightarrow> (nat \<Rightarrow> s32) \<Rightarrow> s32 \<Rightarrow> 't \<Rightarrow> 't" where
  "del_node api data x t = (let key = hash_func x in del_loop api data x (h_possible api t key) t)"

definition print_nodes :: "'t hash_api \<Rightarrow> (nat \<Rightarrow> s32) \<Rightarrow> 't \<Rightarrow> s32 list" where
  "print_nodes api data t = map data (h_all api t)"

definition hashtable_init :: "'t hash_api \<Rightarrow> nat \<Rightarrow> nat \<Rightarrow> nat \<Rightarrow> 't \<Rightarrow> s32 \<times> s32 list list \<times> 't" where
  "hashtable_init api e1 e2 e3 t =
     (let data = (\<lambda>_. 0)(e1 := 5, e2 := 2, e3 := 7);
          t1 = add_node api data e1 t;
          p1 = print_nodes api data t1;
          t2 = add_node api data e3 (add_node api data e2 t1);
          p2 = print_nodes api data t2;
          t3 = del_node api data 5 t2;
          p3 = print_nodes api data t3
      in (- EINVAL, [p1, p2, p3], t3))"

definition hashtable_exit :: "string list" where
  "hashtable_exit = [''unloaded'' @ [CHR 0x0A]]"

section \<open>The contract of the kernel's tables\<close>

text \<open>Every entry is found under the key of its data.\<close>

definition findable :: "'t hash_api \<Rightarrow> ('t \<Rightarrow> bool) \<Rightarrow> (nat \<Rightarrow> s32) \<Rightarrow> 't \<Rightarrow> bool" where
  "findable api table_ok data t \<longleftrightarrow> table_ok t \<and>
     (\<forall>n \<in> set (h_all api t). n \<in> set (h_possible api t (hash_func (data n))))"

locale kernel_hash =
  fixes api :: "'t hash_api" and table_ok :: "'t \<Rightarrow> bool"
  assumes nodes_distinct: "table_ok t \<Longrightarrow> distinct (h_all api t)"
    and possible_held: "table_ok t \<Longrightarrow> set (h_possible api t k) \<subseteq> set (h_all api t)"
    and add: "table_ok t \<Longrightarrow> n \<notin> set (h_all api t) \<Longrightarrow>
       table_ok (h_add api n k t) \<and> mset (h_all api (h_add api n k t)) = add_mset n (mset (h_all api t)) \<and>
       n \<in> set (h_possible api (h_add api n k t) k) \<and>
       (\<forall>j. set (h_possible api t j) \<subseteq> set (h_possible api (h_add api n k t) j))"
    and del: "table_ok t \<Longrightarrow> n \<in> set (h_all api t) \<Longrightarrow>
       table_ok (h_del api n t) \<and> mset (h_all api (h_del api n t)) = mset (h_all api t) - {#n#} \<and>
       (\<forall>j. set (h_possible api t j) - {n} \<subseteq> set (h_possible api (h_del api n t) j))"
begin

lemma add_findable:
  assumes "findable api table_ok data t" and "new \<notin> set (h_all api t)"
  shows "findable api table_ok data (add_node api data new t)"
    and "mset (h_all api (add_node api data new t)) = add_mset new (mset (h_all api t))"
proof -
  let ?t = "add_node api data new t" and ?k = "hash_func (data new)"
  have a: "table_ok ?t" and m: "mset (h_all api ?t) = add_mset new (mset (h_all api t))"
    and i: "new \<in> set (h_possible api ?t ?k)"
    and sub: "\<And>j. set (h_possible api t j) \<subseteq> set (h_possible api ?t j)"
    using add [OF _ assms(2), of ?k] assms(1) by (simp_all add: findable_def add_node_def)
  show "mset (h_all api ?t) = add_mset new (mset (h_all api t))" by (rule m)
  have "set_mset (mset (h_all api ?t)) = insert new (set_mset (mset (h_all api t)))"
    by (simp only: m set_mset_add_mset_insert)
  then have "set (h_all api ?t) = insert new (set (h_all api t))"
    by (simp only: set_mset_mset)
  moreover have "n \<in> set (h_possible api ?t (hash_func (data n)))" if "n \<in> set (h_all api t)" for n
    using that assms(1) sub [THEN subsetD] by (simp add: findable_def)
  ultimately show "findable api table_ok data ?t"
    using a i by (simp add: findable_def)
qed

lemma del_loop_first:
  "(\<exists>n \<in> set ns. data n = x) \<Longrightarrow> \<exists>n \<in> set ns. data n = x \<and> del_loop api data x ns t = h_del api n t"
  "\<not> (\<exists>n \<in> set ns. data n = x) \<Longrightarrow> del_loop api data x ns t = t"
  by (induction ns) auto

lemma del_findable:
  assumes "findable api table_ok data t"
  shows "x \<notin> data ` set (h_all api t) \<Longrightarrow> del_node api data x t = t"
    and "x \<in> data ` set (h_all api t) \<Longrightarrow> \<exists>n \<in> set (h_all api t). data n = x \<and>
       findable api table_ok data (del_node api data x t) \<and>
       mset (h_all api (del_node api data x t)) = mset (h_all api t) - {#n#}"
proof -
  let ?ns = "h_possible api t (hash_func x)"
  have ok: "table_ok t" using assms by (simp add: findable_def)
  have sub: "set ?ns \<subseteq> set (h_all api t)" by (rule possible_held [OF ok])
  have found: "n \<in> set ?ns" if "n \<in> set (h_all api t)" "data n = x" for n
    using assms that by (auto simp: findable_def)
  show "del_node api data x t = t" if "x \<notin> data ` set (h_all api t)"
    using that sub del_loop_first(2) [of ?ns data x t] by (auto simp: del_node_def)
  show "\<exists>n \<in> set (h_all api t). data n = x \<and> findable api table_ok data (del_node api data x t) \<and>
       mset (h_all api (del_node api data x t)) = mset (h_all api t) - {#n#}"
    if "x \<in> data ` set (h_all api t)"
  proof -
    from that obtain m where "m \<in> set (h_all api t)" "data m = x" by auto
    with found have "\<exists>n \<in> set ?ns. data n = x" by auto
    from del_loop_first(1) [OF this, of t] obtain n where
      n: "n \<in> set ?ns" "data n = x" "del_node api data x t = h_del api n t"
      by (auto simp: del_node_def)
    then have all: "n \<in> set (h_all api t)" using sub by blast
    note d = del [OF ok all]
    have "findable api table_ok data (h_del api n t)"
      unfolding findable_def
    proof (intro conjI ballI)
      show "table_ok (h_del api n t)" using d by blast
      fix p
      assume p: "p \<in> set (h_all api (h_del api n t))"
      have "mset (h_all api (h_del api n t)) = mset (remove1 n (h_all api t))"
        using d by simp
      then have "set (h_all api (h_del api n t)) = set (remove1 n (h_all api t))"
        by (rule mset_eq_setD)
      with p have held: "p \<in> set (h_all api t)" "p \<noteq> n"
        using set_remove1_eq [OF nodes_distinct [OF ok]] by simp_all
      show "p \<in> set (h_possible api (h_del api n t) (hash_func (data p)))"
        using d held assms by (auto simp: findable_def)
    qed
    with n all d show ?thesis by auto
  qed
qed

end

section \<open>Two chains provide it\<close>

text \<open>New nodes go to the front of their chain, as \<open>hlist_add_head()\<close> puts them.\<close>

definition chain_of :: "s32 \<Rightarrow> bool" where "chain_of key \<longleftrightarrow> even (unat key)"

definition buckets :: "(nat list \<times> nat list) hash_api" where
  "buckets =
     \<lparr>h_add = (\<lambda>n k (b0, b1). if chain_of k then (n # b0, b1) else (b0, n # b1)),
      h_del = (\<lambda>n (b0, b1). (remove1 n b0, remove1 n b1)),
      h_possible = (\<lambda>(b0, b1) k. if chain_of k then b0 else b1),
      h_all = (\<lambda>(b0, b1). b0 @ b1)\<rparr>"

definition buckets_ok :: "nat list \<times> nat list \<Rightarrow> bool" where
  "buckets_ok = (\<lambda>(b0, b1). distinct (b0 @ b1))"

interpretation bk: kernel_hash buckets buckets_ok
proof (unfold_locales, goal_cases)
  case (4 t n)
  obtain b0 b1 where t: "t = (b0, b1)" by (cases t)
  have "mset (remove1 n b0 @ remove1 n b1) = mset (b0 @ b1) - {#n#}"
  proof (cases "n \<in> set b0")
    case True
    with 4(1) have "n \<notin> set b1" by (auto simp: t buckets_ok_def)
    with True show ?thesis by (simp add: remove1_idem)
  next
    case False
    with 4(2) have "n \<in> set b1" by (simp add: t buckets_def)
    with False show ?thesis by (simp add: remove1_idem)
  qed
  with 4 show ?case
    by (auto simp: t buckets_def buckets_ok_def distinct_remove1 dest: notin_set_remove1 set_remove1_subset [THEN subsetD])
qed (auto simp: buckets_def buckets_ok_def disjoint_iff split: if_splits)

section \<open>Properties\<close>

text \<open>C19: entries are found again whatever their sign: after adding entries under their keys, deleting a
  value takes out exactly one entry with that value if there is one, and nothing otherwise; all other
  entries stay and stay findable. This holds for any table operations that behave as documented, also
  when keys share a bucket.\<close>

theorem hash_add_del:
  assumes "kernel_hash api table_ok" and "findable api table_ok data t" and "new \<notin> set (h_all api t)"
  defines "t1 \<equiv> add_node api data new t"
  shows "findable api table_ok data t1 \<and> mset (h_all api t1) = add_mset new (mset (h_all api t)) \<and>
     (x \<notin> data ` set (h_all api t1) \<longrightarrow> del_node api data x t1 = t1) \<and>
     (x \<in> data ` set (h_all api t1) \<longrightarrow>
        (\<exists>n \<in> set (h_all api t1). data n = x \<and> findable api table_ok data (del_node api data x t1) \<and>
           mset (h_all api (del_node api data x t1)) = mset (h_all api t1) - {#n#}))"
proof -
  note a = kernel_hash.add_findable [OF assms(1-3), folded t1_def]
  note d = kernel_hash.del_findable [OF assms(1) a(1), of x]
  show ?thesis using a d by blast
qed

theorem hash_add_del_witness:
  "findable buckets buckets_ok (\<lambda>_. - 3) (add_node buckets (\<lambda>_. - 3) 7 ([], [])) \<and>
   mset (h_all buckets (del_node buckets (\<lambda>_. - 3) (- 3) (add_node buckets (\<lambda>_. - 3) 7 ([], [])))) = {#}"
proof -
  have "findable buckets buckets_ok (\<lambda>_. - 3) ([], [])"
    by (simp add: findable_def buckets_def buckets_ok_def)
  moreover have all: "h_all buckets ([], []) = []" by (simp add: buckets_def)
  ultimately have h: "findable buckets buckets_ok (\<lambda>_. - 3) ([], [])" "7 \<notin> set (h_all buckets ([], []))"
    by simp_all
  let ?t = "add_node buckets (\<lambda>_. - 3) 7 ([], [])"
  note r = hash_add_del [OF bk.kernel_hash_axioms h, of "- 3"]
  then have m: "mset (h_all buckets ?t) = {#7#}" by (simp add: all)
  then have "set (h_all buckets ?t) = {7}" by (metis set_mset_mset set_mset_single)
  with r m show ?thesis by auto
qed

end
