(* ===== verification/Timers.thy ===== *)
theory Timers
  imports Kernel_Iface
begin

text \<open>
  The timer modules of chapter 5: \<^verbatim>\<open>timer/ktimer.c\<close>, \<^verbatim>\<open>timer/hires_timer.c\<close>,
  \<^verbatim>\<open>notifier/hires_timer.c\<close> and \<^verbatim>\<open>atomic/atomic.c\<close>. A module's state is its static
  structure, with the time its timer will expire (\<open>None\<close>: not pending). What the kernel
  answers (\<open>jiffies\<close>, \<open>msecs_to_jiffies()\<close>, the new expiry \<open>hrtimer_forward_now()\<close>
  chooses, the atomic operations) are arguments. The locale \<open>periodic\<close> states what makes a
  high-resolution timer's handler usable: each run moves the expiry past the present.
\<close>

section \<open>ktimer.c\<close>

record ktimer =
  expires :: "u64 option"
  delay_jiffies :: s64
  kdata :: u32

definition ktimer_zero :: ktimer where
  "ktimer_zero = \<lparr>expires = None, delay_jiffies = 0, kdata = 0\<rparr>"

text \<open>The module parameter's value unless another is given, in milliseconds.\<close>

definition ktimer_delay_ms :: s32 where "ktimer_delay_ms = 1000"

definition ktimer_handler :: "u64 \<Rightarrow> ktimer \<Rightarrow> ktimer" where
  "ktimer_handler jiffies info =
     (let info = info\<lparr>kdata := kdata info + 1\<rparr>
      in info\<lparr>expires := Some (jiffies + delay_jiffies info)\<rparr>)"

definition ktimer_init :: "(u32 \<Rightarrow> u64) \<Rightarrow> u64 \<Rightarrow> s32 \<Rightarrow> ktimer \<Rightarrow> s32 \<times> ktimer" where
  "ktimer_init msecs_to_jiffies jiffies delay_ms info =
     (let info = info\<lparr>delay_jiffies := msecs_to_jiffies delay_ms\<rparr>
      in (0, info\<lparr>expires := Some (jiffies + delay_jiffies info)\<rparr>))"

definition ktimer_exit :: "ktimer \<Rightarrow> ktimer" where
  "ktimer_exit info = info\<lparr>expires := None\<rparr>"

section \<open>The two hires_timer.c\<close>

text \<open>Expiry times are nanoseconds; a timer that was never initialised has no clock base.\<close>

record hires_timer =
  based :: bool
  hexpires :: "int option"
  hdata :: u32

definition hires_zero :: hires_timer where
  "hires_zero = \<lparr>based = False, hexpires = None, hdata = 0\<rparr>"

definition hires_delay_ns :: s32 where "hires_delay_ns = 1000000000"
definition hires_delay_ns_nb :: s32 where "hires_delay_ns_nb = 1000000000"

text \<open>A second fits in the parameter's 32 bits; three do not.\<close>

lemma hires_delay_fits: "sint hires_delay_ns = 10 ^ 9" "sint (3 * hires_delay_ns) < 0"
  by (simp_all add: hires_delay_ns_def)

definition hrtimer_start :: "int \<Rightarrow> s32 \<Rightarrow> hires_timer \<Rightarrow> fault + hires_timer" where
  "hrtimer_start now delay_ns t =
     (if based t then Inr (t\<lparr>hexpires := Some (now + sint delay_ns)\<rparr>) else Inl BadPointer)"

definition hires_timer_handler ::
  "(int \<Rightarrow> int \<Rightarrow> int \<Rightarrow> int) \<Rightarrow> s32 \<Rightarrow> int \<Rightarrow> hires_timer \<Rightarrow> hrtimer_restart \<times> hires_timer" where
  "hires_timer_handler forward delay_ns now info =
     (let info = info\<lparr>hdata := hdata info + 1\<rparr>;
          info = info\<lparr>hexpires := map_option (forward now (sint delay_ns)) (hexpires info)\<rparr>
      in (HRTIMER_RESTART, info))"

definition hires_timer_init :: "int \<Rightarrow> s32 \<Rightarrow> hires_timer \<Rightarrow> fault + (s32 \<times> hires_timer)" where
  "hires_timer_init now delay_ns info =
     (let info = info\<lparr>based := True\<rparr>
      in bindo (hrtimer_start now delay_ns info) (\<lambda>info. Inr (0, info)))"

definition hires_timer_exit :: "hires_timer \<Rightarrow> hires_timer" where
  "hires_timer_exit info = info\<lparr>hexpires := None\<rparr>"

text \<open>The copy in the \<^verbatim>\<open>notifier\<close> directory (the \<^verbatim>\<open>Makefile\<close> there does not build it).\<close>

definition hires_timer_handler_nb :: "int \<Rightarrow> hires_timer \<Rightarrow> hrtimer_restart \<times> hires_timer" where
  "hires_timer_handler_nb now info =
     (let info = info\<lparr>hdata := hdata info + 1\<rparr> in (HRTIMER_RESTART, info))"

definition hires_timer_init_nb :: "int \<Rightarrow> s32 \<Rightarrow> hires_timer \<Rightarrow> fault + (s32 \<times> hires_timer)" where
  "hires_timer_init_nb now delay_ns info =
     bindo (hrtimer_start now delay_ns info) (\<lambda>info. Inr (0, info))"

definition hires_timer_exit_nb :: "hires_timer \<Rightarrow> hires_timer" where
  "hires_timer_exit_nb info = info\<lparr>hexpires := None\<rparr>"

section \<open>Expiry\<close>

text \<open>
  The timer interrupt at time \<open>now\<close>: as long as the timer is due its handler runs, and a
  timer whose handler asks to be restarted stays queued with the expiry it then has.
\<close>

partial_function (option) hrtimer_interrupt ::
  "(int \<Rightarrow> hires_timer \<Rightarrow> hrtimer_restart \<times> hires_timer) \<Rightarrow> int \<Rightarrow> hires_timer \<Rightarrow> hires_timer option" where
  "hrtimer_interrupt handler now t =
     (case hexpires t of
        None \<Rightarrow> Some t
      | Some e \<Rightarrow>
          if now < e then Some t
          else (case handler now t of
                  (HRTIMER_RESTART, t') \<Rightarrow> hrtimer_interrupt handler now t'
                | (HRTIMER_NORESTART, t') \<Rightarrow> Some (t'\<lparr>hexpires := None\<rparr>)))"

locale periodic =
  fixes handler :: "int \<Rightarrow> hires_timer \<Rightarrow> hrtimer_restart \<times> hires_timer"
  assumes moves_on: "hexpires t \<noteq> None \<Longrightarrow>
     \<exists>t' e. handler now t = (HRTIMER_RESTART, t') \<and> hexpires t' = Some e \<and> now < e"
begin

text \<open>An interrupt runs the handler once if the timer is due, and leaves it pending.\<close>

lemma interrupt_once:
  assumes "hexpires t = Some e"
  shows "hrtimer_interrupt handler now t = Some (if now < e then t else snd (handler now t))"
proof (cases "now < e")
  case True
  with assms show ?thesis by (subst hrtimer_interrupt.simps) simp
next
  case False
  from moves_on [of t now] assms obtain t' e' where
    t': "handler now t = (HRTIMER_RESTART, t')" "hexpires t' = Some e'" "now < e'" by auto
  have "hrtimer_interrupt handler now t' = Some t'"
    using t'(2,3) by (subst hrtimer_interrupt.simps) simp
  with False assms t'(1) show ?thesis
    by (subst hrtimer_interrupt.simps) simp
qed

text \<open>So the number of runs over a sequence of interrupts is at most their number.\<close>

fun interrupts :: "int list \<Rightarrow> hires_timer \<Rightarrow> hires_timer option" where
  "interrupts [] t = Some t"
| "interrupts (now # ns) t = Option.bind (hrtimer_interrupt handler now t) (interrupts ns)"

lemma interrupts_return:
  "hexpires t \<noteq> None \<Longrightarrow> \<exists>t'. interrupts ns t = Some t' \<and> hexpires t' \<noteq> None"
proof (induction ns arbitrary: t)
  case Nil
  then show ?case by simp
next
  case (Cons now ns)
  then obtain e where e: "hexpires t = Some e" by auto
  from moves_on [OF Cons.prems, of now] obtain t' e' where
    "handler now t = (HRTIMER_RESTART, t')" "hexpires t' = Some e'" by blast
  with interrupt_once [OF e, of now] Cons.prems have
    "\<exists>u. hrtimer_interrupt handler now t = Some u \<and> hexpires u \<noteq> None" by auto
  with Cons.IH show ?case by auto
qed

end

definition forward_ok :: "(int \<Rightarrow> int \<Rightarrow> int \<Rightarrow> int) \<Rightarrow> bool" where
  "forward_ok forward \<longleftrightarrow> (\<forall>now delay e. now < forward now delay e)"

lemma hires_periodic: "forward_ok forward \<Longrightarrow> periodic (hires_timer_handler forward delay_ns)"
  by unfold_locales (auto simp: hires_timer_handler_def forward_ok_def Let_def)

text \<open>\<open>hrtimer_forward_now()\<close> adds the smallest number of intervals (of at least a nanosecond).\<close>

definition forward_now :: "int \<Rightarrow> int \<Rightarrow> int \<Rightarrow> int" where
  "forward_now now delay e =
     (let d = max 1 delay in if now < e then e else e + ((now - e) div d + 1) * d)"

lemma forward_now_ok: "forward_ok forward_now"
proof -
  have "now < e + ((now - e) div d + 1) * d" if "0 < d" for now e d :: int
  proof -
    define q r where "q = (now - e) div d" and "r = (now - e) mod d"
    have "now - e = d * q + r" unfolding q_def r_def by (rule mult_div_mod_eq [symmetric])
    moreover have "r < d" using that by (simp add: r_def)
    ultimately have "now < e + (d * q + d)" by linarith
    then show ?thesis by (simp add: q_def [symmetric] algebra_simps)
  qed
  then show ?thesis by (simp add: forward_ok_def forward_now_def Let_def)
qed

interpretation hires: periodic "hires_timer_handler forward_now delay_ns" for delay_ns
  by (rule hires_periodic [OF forward_now_ok])

section \<open>Properties of the high-resolution timers\<close>

text \<open>After the module of \<^verbatim>\<open>timer/hires_timer.c\<close> is loaded, every interrupt at which its timer is
  due runs the handler exactly once, counts one more expiry and leaves the timer pending at a later
  time; unloading leaves nothing pending. It relies only on \<open>hrtimer_forward_now()\<close> moving the expiry
  past the present.\<close>

lemma hires_timer_runs_once:
  assumes "forward_ok forward"
  shows "\<exists>t. hires_timer_init now delay_ns hires_zero = Inr (0, t) \<and> hexpires t = Some (now + sint delay_ns) \<and>
     (\<forall>later. now + sint delay_ns \<le> later \<longrightarrow>
        (\<exists>t1 e. hrtimer_interrupt (hires_timer_handler forward delay_ns) later t = Some t1 \<and>
           hdata t1 = hdata t + 1 \<and> hexpires t1 = Some e \<and> later < e \<and>
           hrtimer_interrupt (hires_timer_handler forward delay_ns) later t1 = Some t1)) \<and>
     hexpires (hires_timer_exit t) = None"
proof -
  note per = hires_periodic [OF assms, of delay_ns]
  let ?t = "hires_zero\<lparr>based := True, hexpires := Some (now + sint delay_ns)\<rparr>"
  have init: "hires_timer_init now delay_ns hires_zero = Inr (0, ?t)"
    by (simp add: hires_timer_init_def hrtimer_start_def)
  have "\<exists>t1 e. hrtimer_interrupt (hires_timer_handler forward delay_ns) later ?t = Some t1 \<and>
           hdata t1 = hdata ?t + 1 \<and> hexpires t1 = Some e \<and> later < e \<and>
           hrtimer_interrupt (hires_timer_handler forward delay_ns) later t1 = Some t1"
    if "now + sint delay_ns \<le> later" for later
  proof -
    let ?e = "forward later (sint delay_ns) (now + sint delay_ns)"
    let ?t1 = "?t\<lparr>hdata := hdata ?t + 1, hexpires := Some ?e\<rparr>"
    have e: "later < ?e" using assms by (simp add: forward_ok_def)
    have "hrtimer_interrupt (hires_timer_handler forward delay_ns) later ?t = Some ?t1"
      using periodic.interrupt_once [OF per, of ?t "now + sint delay_ns" later] that
      by (simp add: hires_timer_handler_def)
    moreover have "hrtimer_interrupt (hires_timer_handler forward delay_ns) later ?t1 = Some ?t1"
      using periodic.interrupt_once [OF per, of ?t1 ?e later] e by simp
    ultimately show ?thesis using e by auto
  qed
  with init show ?thesis by (auto simp: hires_timer_exit_def)
qed

lemma hires_timer_runs_once_witness:
  "\<exists>t t1. hires_timer_init 100 5 hires_zero = Inr (0, t) \<and>
     hrtimer_interrupt (hires_timer_handler forward_now 5) 112 t = Some t1 \<and> hdata t1 = hdata t + 1"
proof -
  from hires_timer_runs_once [OF forward_now_ok, of 100 5] obtain t where
    t: "hires_timer_init 100 5 hires_zero = Inr (0, t)"
    and r: "\<forall>later. 100 + sint (5 :: s32) \<le> later \<longrightarrow>
        (\<exists>t1 e. hrtimer_interrupt (hires_timer_handler forward_now 5) later t = Some t1 \<and>
           hdata t1 = hdata t + 1 \<and> hexpires t1 = Some e \<and> later < e \<and>
           hrtimer_interrupt (hires_timer_handler forward_now 5) later t1 = Some t1)" by blast
  have "100 + sint (5 :: s32) \<le> 112" by simp
  with r t show ?thesis by blast
qed

lemma interrupt_never_returns:
  assumes "hexpires t = Some e" and "e \<le> now"
  shows "hrtimer_interrupt hires_timer_handler_nb now t = None"
proof -
  have "h = hires_timer_handler_nb \<longrightarrow> hexpires t = Some e \<longrightarrow> e \<le> now \<longrightarrow> False"
    if "hrtimer_interrupt h now t = Some r" for h now t r
    using that
  proof (rule hrtimer_interrupt.raw_induct [rotated])
    show "h = hires_timer_handler_nb \<longrightarrow> hexpires t = Some e \<longrightarrow> e \<le> now \<longrightarrow> False"
      if ih: "\<And>h now t r. f h now t = Some r \<Longrightarrow>
          h = hires_timer_handler_nb \<longrightarrow> hexpires t = Some e \<longrightarrow> e \<le> now \<longrightarrow> False"
        and run: "(case hexpires t of None \<Rightarrow> Some t
           | Some e \<Rightarrow> if now < e then Some t
              else (case h now t of (HRTIMER_RESTART, t') \<Rightarrow> f h now t'
                    | (HRTIMER_NORESTART, t') \<Rightarrow> Some (t'\<lparr>hexpires := None\<rparr>))) = Some r" for f h now t r
      using run ih [of h now "t\<lparr>hdata := hdata t + 1\<rparr>" r]
      by (auto simp: hires_timer_handler_nb_def Let_def)
  qed
  with assms show ?thesis by fastforce
qed

text \<open>The copy of the module in the \<^verbatim>\<open>notifier\<close> directory neither initialises nor forwards its timer:
  starting it goes through a null clock base; and even with a base, once the timer is due the interrupt
  runs the handler over and over and never returns.\<close>

lemma hires_timer_nb_broken:
  assumes "hexpires t = Some e" and "e \<le> now"
  shows "hires_timer_init_nb start delay_ns hires_zero = Inl BadPointer \<and>
     hrtimer_interrupt hires_timer_handler_nb now t = None"
proof -
  have "hrtimer_interrupt hires_timer_handler_nb now t = None"
    by (rule interrupt_never_returns [OF assms])
  then show ?thesis
    by (simp add: hires_timer_init_nb_def hrtimer_start_def hires_zero_def)
qed

lemma hires_timer_nb_broken_witness:
  "hrtimer_interrupt hires_timer_handler_nb 7 \<lparr>based = True, hexpires = Some 3, hdata = 0\<rparr> = None"
  using hires_timer_nb_broken [of "\<lparr>based = True, hexpires = Some 3, hdata = 0\<rparr>" 3 7] by simp

section \<open>atomic.c\<close>

record atomic_timer =
  aexpires :: "u64 option"
  adelay :: s64
  adata :: s32
  bitmap :: s32

definition atomic_zero :: atomic_timer where
  "atomic_zero = \<lparr>aexpires = None, adelay = 0, adata = 0, bitmap = 0xff\<rparr>"

text \<open>\<open>atomic_dec_if_positive()\<close> answers the decremented value and leaves the new one.\<close>

definition atomic_handler :: "(s32 \<Rightarrow> s32 \<times> s32) \<Rightarrow> (s32 \<Rightarrow> s32 \<Rightarrow> s32) \<Rightarrow> u64 \<Rightarrow> atomic_timer \<Rightarrow> atomic_timer" where
  "atomic_handler dec_if_positive atomic_xor jiffies info =
     (let (printed, d) = dec_if_positive (adata info);
          info = info\<lparr>adata := d\<rparr>;
          info = info\<lparr>bitmap := atomic_xor 0xff (bitmap info)\<rparr>
      in info\<lparr>aexpires := Some (jiffies + adelay info)\<rparr>)"

definition atomic_delay_ms :: s32 where "atomic_delay_ms = 1000"

definition atomic_init :: "(u32 \<Rightarrow> u64) \<Rightarrow> u64 \<Rightarrow> s32 \<Rightarrow> atomic_timer \<Rightarrow> s32 \<times> atomic_timer" where
  "atomic_init msecs_to_jiffies jiffies delay_ms info =
     (let info = info\<lparr>adelay := msecs_to_jiffies delay_ms\<rparr>;
          info = info\<lparr>adata := 10\<rparr>
      in (0, info\<lparr>aexpires := Some (jiffies + adelay info)\<rparr>))"

definition atomic_exit :: "atomic_timer \<Rightarrow> atomic_timer" where
  "atomic_exit info = info\<lparr>aexpires := None\<rparr>"

definition dec_ok :: "(s32 \<Rightarrow> s32 \<times> s32) \<Rightarrow> bool" where
  "dec_ok f \<longleftrightarrow> (\<forall>v. f v = (v - 1, if 0 < sint v then v - 1 else v))"

lemma sint_of_small: "n \<le> 10 \<Longrightarrow> sint (of_nat n :: s32) = int n"
  by (simp add: signed_of_nat signed_take_bit_int_eq_self)

text \<open>Whatever the times, after any number of expirations the counter of \<^verbatim>\<open>atomic.c\<close> has gone down
  from 10 by one for each and stays at zero from the tenth on, the bit map has been inverted each time,
  and the timer is pending again.\<close>

lemma atomic_counts_down:
  assumes "dec_ok dec" and "atomic_init m2j start delay_ms atomic_zero = (r, s)"
  shows "r = 0 \<and> (let t = fold (atomic_handler dec (\<lambda>m b. xor b m)) js s in
     adata t = of_nat (10 - length js) \<and>
     bitmap t = (if even (length js) then 0xff else 0) \<and> aexpires t \<noteq> None)"
proof -
  have init: "r = 0" "adata s = of_nat (10 - 0)" "bitmap s = 0xff" "aexpires s \<noteq> None"
    using assms(2) by (auto simp: atomic_init_def atomic_zero_def Let_def)
  let ?h = "atomic_handler dec (\<lambda>m b. xor b m)"
  have step: "adata (?h j t) = of_nat (10 - Suc n) \<and> bitmap (?h j t) = (if even (Suc n) then 0xff else 0) \<and>
      aexpires (?h j t) \<noteq> None"
    if "adata t = of_nat (10 - n)" "bitmap t = (if even n then 0xff else 0)" for t n j
  proof -
    have "sint (adata t) = int (10 - n)" unfolding that(1) by (rule sint_of_small) simp
    then have "snd (dec (adata t)) = (of_nat (10 - Suc n) :: s32)"
      using assms(1) that(1) by (cases "n < 10") (simp_all add: dec_ok_def of_nat_diff)
    with that(2) show ?thesis
      by (cases "dec (adata t)") (simp add: atomic_handler_def Let_def)
  qed
  have "adata (fold ?h js s) = of_nat (10 - length js) \<and>
     bitmap (fold ?h js s) = (if even (length js) then 0xff else 0) \<and> aexpires (fold ?h js s) \<noteq> None"
  proof (induction js rule: rev_induct)
    case Nil
    then show ?case using init by simp
  next
    case (snoc j js)
    with step [of "fold ?h js s" "length js" j] show ?case by simp
  qed
  with init(1) show ?thesis by (simp add: Let_def)
qed

lemma atomic_counts_down_witness:
  "adata (fold (atomic_handler (\<lambda>v. (v - 1, if 0 < sint v then v - 1 else v)) (\<lambda>m b. xor b m)) [5, 9, 12]
     (snd (atomic_init (\<lambda>m. ucast m) 3 1000 atomic_zero))) = 7"
proof -
  have "dec_ok (\<lambda>v. (v - 1, if 0 < sint v then v - 1 else v))" by (simp add: dec_ok_def)
  from atomic_counts_down [OF this surjective_pairing, of "\<lambda>m. ucast m" 3 1000 "[5, 9, 12]"] show ?thesis
    by (simp add: Let_def)
qed

end
