(* ===== verification/Locks.thy ===== *)
theory Locks
  imports Prelude
begin

text \<open>
  The synchronisation modules of chapter 5: \<^verbatim>\<open>atomic/spinlock.c\<close>, \<^verbatim>\<open>atomic/mutex.c\<close>,
  \<^verbatim>\<open>wait_event/waitqueue.c\<close> and \<^verbatim>\<open>wait_event/completion.c\<close>. In each, the module's
  init function and its timer handler share the static structure; both are broken at the
  operations the other can observe, and a step relation interleaves them. The timer interrupt
  either runs on the processor of the init function, which then stands still until the handler
  is over, or on another one. A step that reads \<open>jiffies\<close> reads any value, and a pending timer
  may expire at any time, so every timing of the real clock is one of the model's.
  \<open>del_timer_sync()\<close> waits for a running handler and then cancels the timer. Log messages are
  left out.
\<close>

section \<open>Program points\<close>

datatype party = Init_Fun | Handler_Fun

text \<open>
  Init: before the timer is set up, before the lock, in the critical section before and after
  the increment, past it; and after the module's exit function.
\<close>

datatype init_pc = I_Setup | I_Lock | I_Inc | I_Unlock | I_Done | I_Unloaded

datatype handler_pc = H_Idle | H_Lock | H_Inc | H_Unlock | H_Rearm

record lock_sys =
  ipc :: init_pc
  hpc :: handler_pc
  lock_owner :: "party option"
  ldata :: s32
  delay_jiffies :: s64
  pending :: "u64 option"   \<comment> \<open>when the timer expires\<close>
  bumps :: nat              \<comment> \<open>increments made so far\<close>
  missed :: nat             \<comment> \<open>handler runs that did not get the lock\<close>

text \<open>
  What a run depends on: the processor the interrupt comes on, the module parameter and the
  kernel's conversion of it.
\<close>

record lock_env =
  same_cpu :: bool
  delay_ms :: s32
  msecs_to_jiffies :: "u32 \<Rightarrow> u64"

text \<open>The parameter's default: of \<^verbatim>\<open>spinlock.c\<close>, \<^verbatim>\<open>mutex.c\<close>, \<^verbatim>\<open>waitqueue.c\<close> and \<^verbatim>\<open>completion.c\<close>.\<close>

definition spin_delay_ms :: s32 where "spin_delay_ms = 1000"
definition mutex_delay_ms :: s32 where "mutex_delay_ms = 1000"
definition wait_delay_ms :: s32 where "wait_delay_ms = 1000"
definition compl_delay_ms :: s32 where "compl_delay_ms = 5000"

definition lock_start :: lock_sys where
  "lock_start = \<lparr>ipc = I_Setup, hpc = H_Idle, lock_owner = None, ldata = 0, delay_jiffies = 0,
                 pending = None, bumps = 0, missed = 0\<rparr>"

text \<open>Init up to and with \<open>mod_timer()\<close>: the timer is to expire at once.\<close>

definition lock_setup :: "lock_env \<Rightarrow> u64 \<Rightarrow> lock_sys \<Rightarrow> lock_sys" where
  "lock_setup e jiffies s =
     s\<lparr>ipc := I_Lock, delay_jiffies := msecs_to_jiffies e (delay_ms e), pending := Some jiffies\<rparr>"

definition lock_rearm :: "u64 \<Rightarrow> lock_sys \<Rightarrow> lock_sys" where
  "lock_rearm jiffies s = s\<lparr>hpc := H_Idle, pending := Some (jiffies + delay_jiffies s)\<rparr>"

text \<open>The exit function; it gets past \<open>del_timer_sync()\<close> when no handler runs.\<close>

definition lock_exit :: "lock_sys \<Rightarrow> lock_sys" where
  "lock_exit s = s\<lparr>ipc := I_Unloaded, pending := None\<rparr>"

definition init_runs :: "lock_env \<Rightarrow> lock_sys \<Rightarrow> bool" where
  "init_runs e s \<longleftrightarrow> \<not> same_cpu e \<or> hpc s = H_Idle"

definition bump :: "lock_sys \<Rightarrow> lock_sys" where
  "bump s = s\<lparr>ldata := ldata s + 1, bumps := Suc (bumps s)\<rparr>"

section \<open>spinlock.c\<close>

inductive spin_step :: "lock_env \<Rightarrow> lock_sys \<Rightarrow> lock_sys \<Rightarrow> bool" for e where
    s_setup: "ipc s = I_Setup \<Longrightarrow> spin_step e s (lock_setup e jiffies s)"
  | s_expire: "pending s = Some t \<Longrightarrow> hpc s = H_Idle \<Longrightarrow>
      spin_step e s (s\<lparr>hpc := H_Lock, pending := None\<rparr>)"
  | s_hlock: "hpc s = H_Lock \<Longrightarrow> lock_owner s = None \<Longrightarrow>
      spin_step e s (s\<lparr>hpc := H_Inc, lock_owner := Some Handler_Fun\<rparr>)"
  | s_hinc: "hpc s = H_Inc \<Longrightarrow> spin_step e s ((bump s)\<lparr>hpc := H_Unlock\<rparr>)"
  | s_hunlock: "hpc s = H_Unlock \<Longrightarrow> spin_step e s (s\<lparr>hpc := H_Rearm, lock_owner := None\<rparr>)"
  | s_rearm: "hpc s = H_Rearm \<Longrightarrow> spin_step e s (lock_rearm jiffies s)"
  | s_ilock: "init_runs e s \<Longrightarrow> ipc s = I_Lock \<Longrightarrow> lock_owner s = None \<Longrightarrow>
      spin_step e s (s\<lparr>ipc := I_Inc, lock_owner := Some Init_Fun\<rparr>)"
  | s_iinc: "init_runs e s \<Longrightarrow> ipc s = I_Inc \<Longrightarrow> spin_step e s ((bump s)\<lparr>ipc := I_Unlock\<rparr>)"
  | s_iunlock: "init_runs e s \<Longrightarrow> ipc s = I_Unlock \<Longrightarrow>
      spin_step e s (s\<lparr>ipc := I_Done, lock_owner := None\<rparr>)"
  | s_exit: "ipc s = I_Done \<Longrightarrow> hpc s = H_Idle \<Longrightarrow> spin_step e s (lock_exit s)"

section \<open>mutex.c\<close>

text \<open>The handler only tries: if the mutex is taken it complains and goes on.\<close>

inductive mutex_step :: "lock_env \<Rightarrow> lock_sys \<Rightarrow> lock_sys \<Rightarrow> bool" for e where
    m_setup: "ipc s = I_Setup \<Longrightarrow> mutex_step e s (lock_setup e jiffies s)"
  | m_expire: "pending s = Some t \<Longrightarrow> hpc s = H_Idle \<Longrightarrow>
      mutex_step e s (s\<lparr>hpc := H_Lock, pending := None\<rparr>)"
  | m_trylock: "hpc s = H_Lock \<Longrightarrow> lock_owner s = None \<Longrightarrow>
      mutex_step e s (s\<lparr>hpc := H_Inc, lock_owner := Some Handler_Fun\<rparr>)"
  | m_busy: "hpc s = H_Lock \<Longrightarrow> lock_owner s \<noteq> None \<Longrightarrow>
      mutex_step e s (s\<lparr>hpc := H_Rearm, missed := Suc (missed s)\<rparr>)"
  | m_hinc: "hpc s = H_Inc \<Longrightarrow> mutex_step e s ((bump s)\<lparr>hpc := H_Unlock\<rparr>)"
  | m_hunlock: "hpc s = H_Unlock \<Longrightarrow> mutex_step e s (s\<lparr>hpc := H_Rearm, lock_owner := None\<rparr>)"
  | m_rearm: "hpc s = H_Rearm \<Longrightarrow> mutex_step e s (lock_rearm jiffies s)"
  | m_ilock: "init_runs e s \<Longrightarrow> ipc s = I_Lock \<Longrightarrow> lock_owner s = None \<Longrightarrow>
      mutex_step e s (s\<lparr>ipc := I_Inc, lock_owner := Some Init_Fun\<rparr>)"
  | m_iinc: "init_runs e s \<Longrightarrow> ipc s = I_Inc \<Longrightarrow> mutex_step e s ((bump s)\<lparr>ipc := I_Unlock\<rparr>)"
  | m_iunlock: "init_runs e s \<Longrightarrow> ipc s = I_Unlock \<Longrightarrow>
      mutex_step e s (s\<lparr>ipc := I_Done, lock_owner := None\<rparr>)"
  | m_exit: "ipc s = I_Done \<Longrightarrow> hpc s = H_Idle \<Longrightarrow> mutex_step e s (lock_exit s)"

inductive_cases spin_stepE: "spin_step e s s'"
inductive_cases mutex_stepE: "mutex_step e s s'"

lemmas lock_defs = lock_start_def lock_setup_def lock_rearm_def lock_exit_def bump_def

section \<open>Invariant\<close>

text \<open>
  The lock is held by whoever is in its critical section, and while the module is loaded the
  timer is armed between runs of the handler.
\<close>

definition lock_inv :: "lock_sys \<Rightarrow> bool" where
  "lock_inv s \<longleftrightarrow>
     (ipc s \<in> {I_Inc, I_Unlock} \<longleftrightarrow> lock_owner s = Some Init_Fun) \<and>
     (hpc s \<in> {H_Inc, H_Unlock} \<longleftrightarrow> lock_owner s = Some Handler_Fun) \<and>
     (ipc s \<in> {I_Setup, I_Unloaded} \<longrightarrow> hpc s = H_Idle \<and> pending s = None) \<and>
     (hpc s = H_Idle \<longrightarrow> ipc s \<notin> {I_Setup, I_Unloaded} \<longrightarrow> pending s \<noteq> None) \<and>
     ldata s = of_nat (bumps s)"

lemma lock_inv_start: "lock_inv lock_start"
  by (simp add: lock_inv_def lock_start_def)

lemma spin_inv_step: "spin_step e s s' \<Longrightarrow> lock_inv s \<Longrightarrow> lock_inv s'"
  by (erule spin_stepE) (auto simp: lock_inv_def lock_defs)

lemma mutex_inv_step: "mutex_step e s s' \<Longrightarrow> lock_inv s \<Longrightarrow> lock_inv s'"
  by (erule mutex_stepE) (auto simp: lock_inv_def lock_defs)

lemma spin_inv: "(spin_step e)\<^sup>*\<^sup>* lock_start s \<Longrightarrow> lock_inv s"
  by (induction rule: rtranclp_induct) (auto intro: lock_inv_start spin_inv_step)

lemma mutex_inv: "(mutex_step e)\<^sup>*\<^sup>* lock_start s \<Longrightarrow> lock_inv s"
  by (induction rule: rtranclp_induct) (auto intro: lock_inv_start mutex_inv_step)

lemma unloaded_over:
  assumes "lock_inv s" and "ipc s = I_Unloaded"
  shows "\<not> spin_step e s s'" and "\<not> mutex_step e s s'"
  using assms by (auto simp: lock_inv_def elim!: spin_stepE mutex_stepE)

text \<open>The handler can go on unless it waits for the lock.\<close>

lemma spin_handler_goes_on:
  assumes "lock_inv s" and "ipc s \<notin> {I_Setup, I_Unloaded}" and "hpc s = H_Lock \<longrightarrow> lock_owner s = None"
  shows "\<exists>s'. spin_step e s s'"
proof (cases "hpc s")
  case H_Idle
  with assms obtain t where "pending s = Some t" by (auto simp: lock_inv_def)
  with H_Idle show ?thesis using s_expire by blast
qed (use assms in \<open>blast intro: spin_step.intros\<close>)+

section \<open>Properties\<close>

definition sample_lock :: "bool \<Rightarrow> lock_env" where
  "sample_lock c = \<lparr>same_cpu = c, delay_ms = spin_delay_ms, msecs_to_jiffies = (\<lambda>m. ucast m div 4)\<rparr>"

text \<open>C36: in \<^verbatim>\<open>spinlock.c\<close> the handler takes with \<open>spin_lock()\<close> a lock that init takes without disabling
  the timer interrupt: if the timer expires on init's processor while init holds the lock, nothing can
  ever happen again.\<close>

theorem spinlock_deadlock:
  assumes "same_cpu e"
  shows "\<exists>s. (spin_step e)\<^sup>*\<^sup>* lock_start s \<and> lock_owner s = Some Init_Fun \<and> hpc s = H_Lock \<and>
             (\<forall>s'. \<not> spin_step e s s')"
proof (intro exI conjI allI)
  let ?s0 = "lock_setup e 0 lock_start"
  let ?s1 = "?s0\<lparr>ipc := I_Inc, lock_owner := Some Init_Fun\<rparr>"
  let ?s2 = "?s1\<lparr>hpc := H_Lock, pending := None\<rparr>"
  have "spin_step e lock_start ?s0" by (rule s_setup) (simp add: lock_start_def)
  moreover have "spin_step e ?s0 ?s1"
    by (rule s_ilock) (simp_all add: lock_defs init_runs_def)
  moreover have "spin_step e ?s1 ?s2"
    by (rule s_expire) (simp_all add: lock_defs)
  ultimately show "(spin_step e)\<^sup>*\<^sup>* lock_start ?s2"
    by (meson converse_rtranclp_into_rtranclp rtranclp.rtrancl_refl)
  show "\<not> spin_step e ?s2 s'" for s'
    using assms by (auto simp: lock_defs init_runs_def elim!: spin_stepE)
qed simp_all

theorem spinlock_deadlock_witness:
  "\<exists>s. (spin_step (sample_lock True))\<^sup>*\<^sup>* lock_start s \<and> lock_owner s = Some Init_Fun \<and>
       (\<forall>s'. \<not> spin_step (sample_lock True) s s')"
  using spinlock_deadlock [of "sample_lock True"] by (auto simp: sample_lock_def)

text \<open>With the timer interrupt on another processor \<^verbatim>\<open>spinlock.c\<close> is never stuck before it is unloaded,
  init and handler are never in the critical section together and no increment is lost; once it is
  unloaded the handler never runs again.\<close>

lemma spinlock_two_processors:
  assumes "\<not> same_cpu e" and "(spin_step e)\<^sup>*\<^sup>* lock_start s"
  shows "(ipc s \<noteq> I_Unloaded \<longleftrightarrow> (\<exists>s'. spin_step e s s')) \<and> ldata s = of_nat (bumps s) \<and>
     \<not> (ipc s \<in> {I_Inc, I_Unlock} \<and> hpc s \<in> {H_Inc, H_Unlock})"
proof -
  have inv: "lock_inv s" using assms(2) by (rule spin_inv)
  have "\<exists>s'. spin_step e s s'" if "ipc s \<noteq> I_Unloaded"
  proof (cases "hpc s = H_Lock \<and> lock_owner s \<noteq> None")
    case True
    with inv have "ipc s = I_Inc \<or> ipc s = I_Unlock"
      by (auto simp: lock_inv_def) (metis party.exhaust)+
    moreover have "init_runs e s" using assms(1) by (simp add: init_runs_def)
    ultimately show ?thesis using s_iinc s_iunlock by blast
  next
    case False
    with that inv show ?thesis
      by (cases "ipc s = I_Setup") (auto intro: s_setup spin_handler_goes_on)
  qed
  with inv unloaded_over(1) [OF inv] show ?thesis by (auto simp: lock_inv_def)
qed

lemma spinlock_two_processors_witness:
  "\<exists>s. (spin_step (sample_lock False))\<^sup>*\<^sup>* lock_start s \<and> ipc s = I_Lock \<and>
       (\<exists>s'. spin_step (sample_lock False) s s')"
proof -
  let ?s = "lock_setup (sample_lock False) 7 lock_start"
  have "spin_step (sample_lock False) lock_start ?s" by (rule s_setup) (simp add: lock_start_def)
  then have "(spin_step (sample_lock False))\<^sup>*\<^sup>* lock_start ?s" by blast
  moreover from spinlock_two_processors [OF _ this]
  have "\<exists>s'. spin_step (sample_lock False) ?s s'" by (simp add: sample_lock_def lock_setup_def)
  moreover have "ipc ?s = I_Lock" by (simp add: lock_setup_def)
  ultimately show ?thesis by blast
qed



section \<open>waitqueue.c\<close>

datatype wait_pc = W_Setup | Waiting | Returned s32 | Unloaded

record wait_sys =
  wpc :: wait_pc
  wdata :: u32
  wdelay_jiffies :: s64
  wpending :: "u64 option"
  ticks :: nat          \<comment> \<open>handler runs so far\<close>

definition wait_start :: wait_sys where
  "wait_start = \<lparr>wpc = W_Setup, wdata = 0, wdelay_jiffies = 0, wpending = None, ticks = 0\<rparr>"

text \<open>Init up to and with \<open>mod_timer()\<close>.\<close>

definition wait_setup :: "lock_env \<Rightarrow> u64 \<Rightarrow> wait_sys \<Rightarrow> wait_sys" where
  "wait_setup e jiffies s =
     (let d = msecs_to_jiffies e (delay_ms e)
      in s\<lparr>wpc := Waiting, wdelay_jiffies := d, wpending := Some (jiffies + d)\<rparr>)"

definition wait_handler :: "u64 \<Rightarrow> wait_sys \<Rightarrow> wait_sys" where
  "wait_handler jiffies s =
     s\<lparr>wdata := wdata s + 1, wpending := Some (jiffies + wdelay_jiffies s), ticks := Suc (ticks s)\<rparr>"

inductive wait_step :: "lock_env \<Rightarrow> wait_sys \<Rightarrow> wait_sys \<Rightarrow> bool" for e where
    w_setup: "wpc s = W_Setup \<Longrightarrow> wait_step e s (wait_setup e jiffies s)"
  | w_expire: "wpending s = Some t \<Longrightarrow> wait_step e s (wait_handler jiffies s)"
  | w_event: "wpc s = Waiting \<Longrightarrow> 5 < wdata s \<Longrightarrow> wait_step e s (s\<lparr>wpc := Returned 0\<rparr>)"
  | w_signal: "wpc s = Waiting \<Longrightarrow> \<not> 5 < wdata s \<Longrightarrow>
      wait_step e s (s\<lparr>wpc := Returned (- ERESTARTSYS), wpending := None\<rparr>)"
  | w_exit: "wpc s = Returned 0 \<Longrightarrow> wait_step e s (s\<lparr>wpc := Unloaded, wpending := None\<rparr>)"

inductive_cases wait_stepE: "wait_step e s s'"

definition wait_inv :: "wait_sys \<Rightarrow> bool" where
  "wait_inv s \<longleftrightarrow> wdata s = of_nat (ticks s) \<and>
     (case wpc s of
        W_Setup \<Rightarrow> wpending s = None
      | Waiting \<Rightarrow> wpending s \<noteq> None
      | Returned r \<Rightarrow> if r = 0 then 5 < ticks s \<and> wpending s \<noteq> None
                      else r = - ERESTARTSYS \<and> wpending s = None
      | Unloaded \<Rightarrow> wpending s = None)"

lemma wait_inv_step:
  assumes "wait_step e s s'" and inv: "wait_inv s"
  shows "wait_inv s'"
  using assms(1)
proof cases
  case w_event
  have "5 < ticks s"
  proof (rule ccontr)
    assume "\<not> 5 < ticks s"
    then have "unat (of_nat (ticks s) :: u32) = ticks s"
      by (simp only: unsigned_of_nat) (simp add: take_bit_nat_eq_self)
    with w_event(3) inv \<open>\<not> 5 < ticks s\<close> show False
      by (simp add: wait_inv_def word_less_nat_alt)
  qed
  with w_event inv show ?thesis by (simp add: wait_inv_def)
qed (use inv in \<open>auto simp: wait_inv_def wait_handler_def wait_setup_def Let_def
       split: wait_pc.splits if_splits\<close>)



section \<open>completion.c\<close>

datatype compl_pc = C_Setup | C_Waiting | C_Loaded | C_Unloaded

record compl_sys =
  cpc :: compl_pc
  cdone :: nat          \<comment> \<open>the count in the completion\<close>
  cdata :: u32
  cdelay_jiffies :: s64
  cpending :: "u64 option"

definition compl_start :: compl_sys where
  "compl_start = \<lparr>cpc = C_Setup, cdone = 0, cdata = 0, cdelay_jiffies = 0, cpending = None\<rparr>"

definition compl_setup :: "lock_env \<Rightarrow> u64 \<Rightarrow> compl_sys \<Rightarrow> compl_sys" where
  "compl_setup e jiffies s =
     (let d = msecs_to_jiffies e (delay_ms e)
      in s\<lparr>cpc := C_Waiting, cdone := 0, cdelay_jiffies := d, cpending := Some (jiffies + d)\<rparr>)"

text \<open>The handler does not arm the timer again.\<close>

definition compl_handler :: "compl_sys \<Rightarrow> compl_sys" where
  "compl_handler s = s\<lparr>cdata := cdata s + 1, cdone := Suc (cdone s), cpending := None\<rparr>"

inductive compl_step :: "lock_env \<Rightarrow> compl_sys \<Rightarrow> compl_sys \<Rightarrow> bool" for e where
    c_setup: "cpc s = C_Setup \<Longrightarrow> compl_step e s (compl_setup e jiffies s)"
  | c_expire: "cpending s = Some t \<Longrightarrow> compl_step e s (compl_handler s)"
  | c_wait: "cpc s = C_Waiting \<Longrightarrow> cdone s = Suc n \<Longrightarrow>
      compl_step e s (s\<lparr>cpc := C_Loaded, cdone := n\<rparr>)"
  | c_exit: "cpc s = C_Loaded \<Longrightarrow> compl_step e s (s\<lparr>cpc := C_Unloaded, cpending := None\<rparr>)"

inductive_cases compl_stepE: "compl_step e s s'"

text \<open>Loading waits for the one run of the handler, and unloading finds no timer pending.\<close>

lemma completion_once:
  assumes "(compl_step e)\<^sup>*\<^sup>* compl_start s"
  shows "cpc s = C_Setup \<and> s = compl_start \<or>
         cpc s = C_Waiting \<and> cpending s \<noteq> None \<and> cdata s = 0 \<and> cdone s = 0 \<or>
         cpc s \<noteq> C_Setup \<and> cpending s = None \<and> cdata s = 1 \<and>
           cdone s = (if cpc s = C_Waiting then 1 else 0)"
  using assms
proof (induction rule: rtranclp_induct)
  case base
  then show ?case by (simp add: compl_start_def)
next
  case (step t u)
  from step.hyps(2) step.IH show ?case
    by (elim compl_stepE)
      (auto simp: compl_handler_def compl_setup_def compl_start_def Let_def split: if_splits)
qed

end
