(* ===== verification/User_Test.thy ===== *)
theory User_Test
  imports File_Refine Modules
begin

text \<open>
  The user-space program \<^verbatim>\<open>Chapter03/chrdev_test.c\<close>, which writes a string to a device and then
  reads as many bytes back. The system calls are its arguments, over any state of the system; it
  is then run on the buffer drivers. The bytes it prints are the results that count; file
  descriptors are left implicit, since it opens one file.
\<close>

section \<open>Programs\<close>

text \<open>
  How a piece of a program ends: the process has exited, with what it printed; it has done
  something undefined, in user space or in the kernel; or it goes on.
\<close>

datatype 's outcome = Exited s32 "string list" 's | Crashed fault | Goes_On "string list" 's

abbreviation EXIT_FAILURE :: s32 where "EXIT_FAILURE \<equiv> 1"

type_synonym 's sys_open = "string \<Rightarrow> 's \<Rightarrow> fault + (s32 \<times> 's)"
type_synonym 's sys_write = "byte list \<Rightarrow> u64 \<Rightarrow> 's \<Rightarrow> fault + (s64 \<times> 's)"
type_synonym 's sys_read = "u64 \<Rightarrow> 's \<Rightarrow> fault + (s64 \<times> byte list \<times> 's)"

definition newline :: string where "newline = [CHR 0x0A]"

text \<open>\<open>%02x\<close> of a \<open>char\<close>, which is unsigned on the target.\<close>

definition hex_digit :: "nat \<Rightarrow> char" where
  "hex_digit n = (if n < 10 then char_of (48 + n) else char_of (87 + n))"

definition fmt_02x :: "byte \<Rightarrow> string" where
  "fmt_02x b = [hex_digit (unat b div 16), hex_digit (unat b mod 16)]"

section \<open>chrdev_test.c\<close>

definition dump_text :: "string \<Rightarrow> byte list \<Rightarrow> string" where
  "dump_text str bs = str @ concat (map (\<lambda>b. fmt_02x b @ '' '') bs) @ newline"

definition dump :: "string \<Rightarrow> byte list \<Rightarrow> s32 \<Rightarrow> fault + string list" where
  "dump str buf n =
     (if sint n \<le> 0 then Inr []
      else bindo (mem_read buf 0 (nat (sint n))) (\<lambda>bs. Inr [dump_text str bs]))"

definition wrote_line :: "s32 \<Rightarrow> string \<Rightarrow> string" where
  "wrote_line n name = ''wrote '' @ fmt_d n @ '' bytes into file '' @ name @ newline"

definition read_line :: "s32 \<Rightarrow> string \<Rightarrow> string" where
  "read_line n name = ''read '' @ fmt_d n @ '' bytes from file '' @ name @ newline"

text \<open>\<open>c\<close> is an \<open>int\<close>, converted to \<open>unsigned long\<close> where it meets \<open>sizeof(buf)\<close>.\<close>

partial_function (option) write_loop ::
  "'s sys_write \<Rightarrow> string \<Rightarrow> byte list \<Rightarrow> s32 \<Rightarrow> string list \<Rightarrow> 's \<Rightarrow> 's outcome option" where
  "write_loop wr name buf c out s =
     (if scast c < (of_nat (length buf) :: u64)
      then (case wr (drop (unat c) buf) (of_nat (length buf) - scast c) s of
              Inl f \<Rightarrow> Some (Crashed f)
            | Inr (r, s1) \<Rightarrow>
                let ret = (ucast r :: s32) in
                if negative ret then Some (Exited EXIT_FAILURE out s1)
                else (case dump ''data written are: '' (drop (unat c) buf) ret of
                        Inl f \<Rightarrow> Some (Crashed f)
                      | Inr l \<Rightarrow> write_loop wr name buf (c + ret) (out @ [wrote_line ret name] @ l) s1))
      else Some (Goes_On out s))"

partial_function (option) read_loop ::
  "'s sys_read \<Rightarrow> string \<Rightarrow> byte list \<Rightarrow> s32 \<Rightarrow> string list \<Rightarrow> 's \<Rightarrow> 's outcome option" where
  "read_loop rd name buf c out s =
     (if scast c < (of_nat (length buf) :: u64)
      then (case rd (of_nat (length buf)) s of
              Inl f \<Rightarrow> Some (Crashed f)
            | Inr (r, data, s1) \<Rightarrow>
                let ret = (ucast r :: s32) in
                if ret = 0 then Some (Goes_On (out @ [''read EOF'' @ newline]) s1)
                else if negative ret then Some (Exited EXIT_FAILURE out s1)
                else (case bindo (mem_write buf 0 data) (\<lambda>buf. map_sum id (Pair buf) (dump ''data read are: '' buf ret)) of
                        Inl f \<Rightarrow> Some (Crashed f)
                      | Inr (buf, l) \<Rightarrow>
                          read_loop rd name buf (c + ret) (out @ [read_line ret name] @ l) s1))
      else Some (Goes_On out s))"

definition test_data :: "byte list" where
  "test_data = map of_char (cstr ''DUMMY DATA'')"

text \<open>The rest of a program after a piece of it; a piece that never ends has no rest.\<close>

fun and_then :: "'s outcome option \<Rightarrow> (string list \<Rightarrow> 's \<Rightarrow> 's outcome option) \<Rightarrow> 's outcome option" where
  "and_then (Some (Goes_On out s)) g = g out s"
| "and_then p g = p"

definition chrdev_test ::
  "'s sys_open \<Rightarrow> 's sys_write \<Rightarrow> 's sys_read \<Rightarrow> ('s \<Rightarrow> 's) \<Rightarrow> string list \<Rightarrow> 's \<Rightarrow> 's outcome option" where
  "chrdev_test opn wr rd cls argv s =
     (if length argv < 2 then Some (Exited EXIT_FAILURE [] s)
      else
        let name = argv ! 1 in
        case opn name s of
          Inl f \<Rightarrow> Some (Crashed f)
        | Inr (ret, s1) \<Rightarrow>
            if negative ret then Some (Exited EXIT_FAILURE [] s1)
            else and_then
              (write_loop wr name test_data 0 [''file '' @ name @ '' opened'' @ newline] s1)
              (\<lambda>out s2. and_then (read_loop rd name test_data 0 out s2)
                 (\<lambda>out s3. Some (Exited 0 out (cls s3)))))"

section \<open>Lemmas on the loops\<close>

lemma test_data_length [simp]: "length test_data = 11"
  by (simp add: test_data_def cstr_def)

lemma dump_whole: "length bs = 11 \<Longrightarrow> dump str bs 11 = Inr [dump_text str bs]"
  by (simp add: dump_def mem_read_def)

lemma not_negative_small_numerals [simp]: "\<not> negative (11 :: s32)" "\<not> negative (3 :: s32)"
  by (simp_all add: negative_def)

text \<open>A device that takes everything is written once.\<close>

lemma write_loop_whole:
  assumes "wr test_data 11 s = Inr (11, s1)"
  shows "write_loop wr name test_data 0 out s =
     Some (Goes_On (out @ [wrote_line 11 name, dump_text ''data written are: '' test_data]) s1)"
proof -
  have "write_loop wr name test_data 11 out' s1 = Some (Goes_On out' s1)" for out'
    by (subst write_loop.simps) simp
  then show ?thesis
    by (subst write_loop.simps) (simp add: assms dump_whole)
qed

text \<open>A device that answers 0 keeps the program writing for ever.\<close>

lemma write_loop_stuck:
  assumes "\<And>s. \<exists>s1. wr test_data 11 s = Inr (0, s1)"
  shows "write_loop wr name test_data 0 out s = None"
proof -
  have "w = wr \<longrightarrow> b = test_data \<longrightarrow> c = 0 \<longrightarrow> False"
    if "write_loop w n b c out s = Some v" for w n b c out s v
    using that
  proof (rule write_loop.raw_induct [rotated])
    show "w = wr \<longrightarrow> b = test_data \<longrightarrow> c = 0 \<longrightarrow> False"
      if ih: "\<And>w n b c out s v. f w n b c out s = Some v \<Longrightarrow>
          w = wr \<longrightarrow> b = test_data \<longrightarrow> c = 0 \<longrightarrow> False"
        and run: "(if scast c < (of_nat (length b) :: u64)
          then (case w (drop (unat c) b) (of_nat (length b) - scast c) s of
                  Inl f \<Rightarrow> Some (Crashed f)
                | Inr (r, s1) \<Rightarrow>
                    let ret = (ucast r :: s32) in
                    if negative ret then Some (Exited EXIT_FAILURE out s1)
                    else (case dump ''data written are: '' (drop (unat c) b) ret of
                            Inl f \<Rightarrow> Some (Crashed f)
                          | Inr l \<Rightarrow> f w n b (c + ret) (out @ [wrote_line ret n] @ l) s1))
          else Some (Goes_On out s)) = Some v" for f w n b c out s v
    proof (intro impI)
      assume eq: "w = wr" "b = test_data" "c = 0"
      obtain s1 where "wr test_data 11 s = Inr (0, s1)" using assms by blast
      with run eq have "f w n b 0 (out @ [wrote_line 0 n]) s1 = Some v" by (simp add: dump_def)
      with ih eq show False by blast
    qed
  qed
  then show ?thesis by (cases "write_loop wr name test_data 0 out s") blast+
qed

lemma read_loop_whole:
  assumes "rd 11 s = Inr (11, data, s1)" and "length data = 11"
  shows "read_loop rd name test_data 0 out s =
     Some (Goes_On (out @ [read_line 11 name, dump_text ''data read are: '' data]) s1)"
proof -
  have "read_loop rd name data 11 out' s1 = Some (Goes_On out' s1)" for out'
    by (subst read_loop.simps) (simp add: assms(2))
  then show ?thesis
    by (subst read_loop.simps) (simp add: assms mem_write_in dump_whole)
qed

lemma read_loop_eof:
  assumes "rd 11 s = Inr (0, data, s1)"
  shows "read_loop rd name test_data 0 out s = Some (Goes_On (out @ [''read EOF'' @ newline]) s1)"
  by (subst read_loop.simps) (simp add: assms)

section \<open>The program on a buffer device\<close>

definition dev_write :: "'s read_method \<Rightarrow> 's write_method \<Rightarrow> ('s \<times> s64) sys_write" where
  "dev_write rd wr data n t =
     bindo (dev_call rd wr (\<lambda>_ p _ _. (p, p)) (Write (\<lambda>_. 0) data n) t) (\<lambda>((r, _), t1). Inr (r, t1))"

definition dev_read :: "'s read_method \<Rightarrow> 's write_method \<Rightarrow> ('s \<times> s64) sys_read" where
  "dev_read rd wr n t =
     bindo (dev_call rd wr (\<lambda>_ p _ _. (p, p)) (Read (\<lambda>_. 0) n) t) (\<lambda>((r, out), t1). Inr (r, out, t1))"

context buffer_device
begin

lemma test_on_device:
  assumes "opened s" and "writable s" and big: "22 \<le> unat blen" "unat blen < 2 ^ 63"
    and opn: "opn name s0 = Inr (fd, (s, 0))" "\<not> negative fd"
  shows "\<exists>s' pos. chrdev_test opn (dev_write rd wr) (dev_read rd wr) cls [prog, name] s0 =
       Some (Exited 0
         [''file '' @ name @ '' opened'' @ newline,
          wrote_line 11 name, dump_text ''data written are: '' test_data,
          read_line 11 name, dump_text ''data read are: '' (take 11 (drop 11 (contents s)))]
         (cls (s', pos))) \<and>
     contents s' = test_data @ drop 11 (contents s)"
proof -
  note len = contents_length [OF assms(1)]
  let ?t0 = "(s, 0)" and ?w = "Write (\<lambda>_. 0) test_data 11" and ?r = "Read (\<lambda>_. 0) 11"
  have "dev_ok ?t0" using assms(1) by (simp add: dev_ok_def)
  from call_simulates [OF this _ big(2), of ?w "\<lambda>_ p _ _. (p, p)"] obtain s1 p1 where
    w: "dev_call rd wr (\<lambda>_ p _ _. (p, p)) ?w ?t0 = Inr ((11, []), s1, p1)" "dev_ok (s1, p1)"
      "abs_file (s1, p1) = \<lparr>bytes = test_data @ drop 11 (contents s), apos = 11, awritable = True\<rparr>"
    using assms(2) big(1) len
    by (auto simp: copy_ok_def abs_file_def room_def from_user_def Let_def)
  from call_simulates [OF w(2) _ big(2), of ?r "\<lambda>_ p _ _. (p, p)"] obtain s2 p2 where
    r: "dev_call rd wr (\<lambda>_ p _ _. (p, p)) ?r (s1, p1) =
          Inr ((11, take 11 (drop 11 (contents s))), s2, p2)"
      "abs_file (s2, p2) = \<lparr>bytes = test_data @ drop 11 (contents s), apos = 22, awritable = True\<rparr>"
    using big(1) len by (auto simp: w(3) copy_ok_def room_def Let_def)
  have "contents s2 = test_data @ drop 11 (contents s)"
    using r(2) by (simp add: abs_file_def)
  moreover have "dev_write rd wr test_data 11 ?t0 = Inr (11, s1, p1)"
    using w(1) by (simp add: dev_write_def del: dev_call.simps)
  moreover have "dev_read rd wr 11 (s1, p1) = Inr (11, take 11 (drop 11 (contents s)), s2, p2)"
    using r(1) by (simp add: dev_read_def del: dev_call.simps)
  moreover have "length (take 11 (drop 11 (contents s))) = 11" using big(1) len by simp
  ultimately show ?thesis
    using opn by (auto simp: chrdev_test_def write_loop_whole read_loop_whole)
qed

end

section \<open>Properties\<close>

text \<open>C24: on a freshly opened, writable device of chapter 4 the test program ends with success: it stores its
  eleven bytes at the start of the buffer, and what it then reads and prints is not what it wrote
  but the eleven bytes after it, because the file position has moved on.\<close>

theorem chrdev_test_on_chapter4:
  assumes "opened4 t" and "writable4 t" and "opn name s0 = Inr (fd, (t, 0))" and "\<not> negative fd"
  shows "\<exists>t' pos. chrdev_test opn (dev_write rd4 wr4) (dev_read rd4 wr4) cls [prog, name] s0 =
       Some (Exited 0
         [''file '' @ name @ '' opened'' @ newline,
          wrote_line 11 name, dump_text ''data written are: '' test_data,
          read_line 11 name, dump_text ''data read are: '' (take 11 (drop 11 (contents4 t)))]
         (cls (t', pos))) \<and>
     contents4 t' = test_data @ drop 11 (contents4 t)"
  using io4.test_on_device [OF assms(1,2), of opn name s0 fd cls prog] assms(3,4) by simp

theorem chrdev_test_on_chapter4_witness:
  "\<exists>out t pos. chrdev_test (\<lambda>_ s. Inr (3, s)) (dev_write rd4 wr4) (dev_read rd4 wr4) id
       [''chrdev_test'', ''/dev/a@0''] ((sample4, sample_file), 0) = Some (Exited 0 out (t, pos)) \<and>
     length out = 5 \<and> take 11 (contents4 t) = test_data"
proof -
  obtain t pos where
    "chrdev_test (\<lambda>_ s. Inr (3, s)) (dev_write rd4 wr4) (dev_read rd4 wr4) id
       [''chrdev_test'', ''/dev/a@0''] ((sample4, sample_file), 0) =
       Some (Exited 0
         [''file '' @ ''/dev/a@0'' @ '' opened'' @ newline,
          wrote_line 11 ''/dev/a@0'', dump_text ''data written are: '' test_data,
          read_line 11 ''/dev/a@0'',
          dump_text ''data read are: '' (take 11 (drop 11 (contents4 (sample4, sample_file))))]
         (id (t, pos)))"
    "contents4 t = test_data @ drop 11 (contents4 (sample4, sample_file))"
    using chrdev_test_on_chapter4 [OF sample4_opened sample4_writable, of "\<lambda>_ s. Inr (3, s)"
        "''/dev/a@0''" "((sample4, sample_file), 0)" 3 id "''chrdev_test''"] by auto
  then show ?thesis by (cases t) fastforce
qed

text \<open>On a device that accepts no byte but reports no error the test program never ends: it writes for
  ever, whatever reading and closing would do.\<close>

lemma chrdev_test_never_ends:
  assumes "\<And>s. \<exists>s1. wr test_data 11 s = Inr (0, s1)" and "opn name s0 = Inr (fd, s)" and "\<not> negative fd"
  shows "chrdev_test opn wr rd cls [prog, name] s0 = None"
  using assms(2,3) write_loop_stuck [of wr, OF assms(1)] by (simp add: chrdev_test_def)

lemma chrdev_test_never_ends_witness:
  "chrdev_test (\<lambda>_ s. Inr (3, s)) (\<lambda>_ n s. Inr (0, s)) (\<lambda>n s. Inr (0, [], s)) id [''chrdev_test'', ''x''] () = None"
  by (rule chrdev_test_never_ends [where fd = 3]) (simp_all add: negative_def)

text \<open>On the device without a buffer of chapter 3 everything written is accepted and forgotten, and
  reading finds the end of the file at once.\<close>

lemma chrdev_test_on_legacy:
  assumes "\<not> negative fd"
  shows "chrdev_test (\<lambda>_ s. Inr (fd, s)) (\<lambda>_ n pos. Inr (legacy_write n pos))
       (\<lambda>n pos. Inr (case legacy_read n pos of (r, pos') \<Rightarrow> (r, [], pos'))) id [prog, name] 0 =
     Some (Exited 0
       [''file '' @ name @ '' opened'' @ newline, wrote_line 11 name,
        dump_text ''data written are: '' test_data, ''read EOF'' @ newline] 11)"
  using assms
  by (simp add: chrdev_test_def write_loop_whole [of _ 0 11] read_loop_eof [of _ 11 "[]" 11]
      legacy_write_def legacy_read_def)

end
