(* ===== verification/User_Tools.thy ===== *)
theory User_Tools
  imports User_Test
begin

text \<open>
  The user-space programs \<^verbatim>\<open>Chapter07/chrdev_ioctl.c\<close> (print a device's label and mode and
  toggle the mode) and \<^verbatim>\<open>Chapter07/chrdev_mmap.c\<close> (map a device's buffer, print it and change its
  first byte), over the system calls they make, and both run on the chapter 7 driver.
\<close>

section \<open>chrdev_ioctl.c\<close>

text \<open>
  \<open>ioctl\<close> is given the integer its argument points to, and answers the bytes it stored through
  the argument.
\<close>

type_synonym 's sys_ioctl = "u32 \<Rightarrow> s32 option \<Rightarrow> 's \<Rightarrow> fault + (s32 \<times> byte list \<times> 's)"

definition opened_line :: "string \<Rightarrow> string" where
  "opened_line name = ''file '' @ name @ '' opened'' @ newline"

definition info_line :: "chrdev_info \<Rightarrow> string" where
  "info_line info = ''got label='' @ str_of (info_label info) @ '' and read_only='' @
     fmt_d (info_read_only info) @ newline"

definition mode_line :: "s32 \<Rightarrow> string" where
  "mode_line m = ''device has now read_only='' @ fmt_d m @ newline"

text \<open>\<open>junk\<close> is what the structure holds on the stack before the call.\<close>

definition chrdev_ioctl_prog ::
  "'s sys_open \<Rightarrow> 's sys_ioctl \<Rightarrow> ('s \<Rightarrow> 's) \<Rightarrow> byte list \<Rightarrow> string list \<Rightarrow> 's \<Rightarrow> 's outcome" where
  "chrdev_ioctl_prog opn ioctl cls junk argv s =
     (if length argv < 2 then Exited EXIT_FAILURE [] s
      else
        let name = argv ! 1 in
        case opn name s of
          Inl f \<Rightarrow> Crashed f
        | Inr (ret, s) \<Rightarrow>
            if negative ret then Exited EXIT_FAILURE [] s
            else
              let out = [opened_line name] in
              (case ioctl CHRDEV_IOC_GETINFO None s of
                 Inl f \<Rightarrow> Crashed f
               | Inr (ret, bs, s) \<Rightarrow>
                   if negative ret then Exited EXIT_FAILURE out s
                   else
                     let info = info_of_bytes (bs @ drop (length bs) junk) in
                     if \<not> is_cstr (info_label info) then Crashed OutOfBounds
                     else
                       let out = out @ [info_line info];
                           read_only = (if info_read_only info = 0 then 1 else 0)
                       in (case ioctl WDIOC_SET_RDONLY (Some read_only) s of
                             Inl f \<Rightarrow> Crashed f
                           | Inr (ret, bs, s) \<Rightarrow>
                               if negative ret then Exited EXIT_FAILURE out s
                               else Exited 0 (out @ [mode_line read_only]) (cls s))))"

text \<open>The driver's method as a system call.\<close>

definition ioctl7_call :: "(drv7 \<times> ofile) sys_ioctl" where
  "ioctl7_call cmd v = (\<lambda>(s, filp).
     bindo (chrdev_ioctl (\<lambda>_. 0) v s filp cmd) (\<lambda>(r, bs, s'). Inr (ucast r, bs, (s', filp))))"

lemma ioctl_prog_on_device:
  assumes op: "opened7 (s, filp)" and i: "private_data filp = Some i"
    and lbl: "length (str_of (label (slot s i))) < 32" and junk: "length junk = sizeof_chrdev_info"
    and opn: "\<not> negative fd"
    and m: "m = (if read_only (slot s i) = 0 then 1 else 0)"
    and t: "t = upd_slot i (\<lambda>c. c\<lparr>read_only := m\<rparr>) s"
  shows "chrdev_ioctl_prog (\<lambda>_ x. Inr (fd, x)) ioctl7_call cls junk [prog, name] (s, filp) =
     Exited 0
       [opened_line name,
        info_line \<lparr>info_label = padded_label i s, info_read_only = read_only (slot s i)\<rparr>,
        mode_line m] (cls (t, filp))"
proof -
  let ?info = "\<lparr>info_label = padded_label i s, info_read_only = read_only (slot s i)\<rparr>"
  note l = opened7_label [OF op i]
  have len: "length (info_bytes ?info) = 36" and info: "info_of_bytes (info_bytes ?info) = ?info"
    using info_bytes_length info_round_trip l(4) by simp_all
  have "32 - length (str_of (label (slot s i))) \<noteq> 0" using lbl by simp
  then have "is_cstr (padded_label i s)"
    by (cases "32 - length (str_of (label (slot s i)))") (simp_all add: is_cstr_def padded_label_def)
  then have "is_cstr (info_label ?info)" by simp
  moreover have "info_of_bytes (info_bytes ?info @ drop (length (info_bytes ?info)) junk) = ?info"
    using info by (simp add: len junk sizeof_chrdev_info_def)
  ultimately show ?thesis
    using opn ioctl7_get [OF op i, of None] ioctl7_set(1) [OF op i t, of "\<lambda>_. 0"]
    by (simp add: chrdev_ioctl_prog_def ioctl7_call_def m Let_def)
qed

section \<open>chrdev_mmap.c\<close>

text \<open>
  \<open>atol\<close>: white space, a sign, and the digits up to the first other character; a value that does
  not fit becomes the largest or smallest \<open>long\<close>, as with \<open>strtol\<close>.
\<close>

definition is_space :: "char \<Rightarrow> bool" where
  "is_space c \<longleftrightarrow> c = CHR '' '' \<or> (9 \<le> (of_char c :: nat) \<and> (of_char c :: nat) \<le> 13)"

definition is_digit :: "char \<Rightarrow> bool" where
  "is_digit c \<longleftrightarrow> 48 \<le> (of_char c :: nat) \<and> (of_char c :: nat) \<le> 57"

definition digits_value :: "string \<Rightarrow> int" where
  "digits_value ds = foldl (\<lambda>v c. 10 * v + (of_char c - 48)) 0 ds"

definition atol :: "string \<Rightarrow> s64" where
  "atol s =
     (let t = dropWhile is_space s;
          minus = (t \<noteq> [] \<and> hd t = CHR ''-'');
          u = (if t \<noteq> [] \<and> (hd t = CHR ''-'' \<or> hd t = CHR ''+'') then tl t else t);
          v = digits_value (takeWhile is_digit u)
      in word_of_int (max (- (2 ^ 63)) (min (2 ^ 63 - 1) (if minus then - v else v))))"

text \<open>\<open>%ld\<close> and \<open>%p\<close>.\<close>

definition fmt_ld :: "s64 \<Rightarrow> string" where
  "fmt_ld w = (if negative w then CHR ''-'' # fmt_nat (nat (- sint w)) else fmt_nat (nat (sint w)))"

fun fmt_hex :: "nat \<Rightarrow> string" where
  "fmt_hex n = (if n < 16 then [hex_digit n] else fmt_hex (n div 16) @ [hex_digit (n mod 16)])"

declare fmt_hex.simps [simp del]

definition fmt_p :: "u64 \<Rightarrow> string" where
  "fmt_p w = (if w = 0 then ''(nil)'' else ''0x'' @ fmt_hex (unat w))"

text \<open>\<open>mmap\<close> answers an address or \<open>MAP_FAILED\<close>; memory is read and written through the system's state.\<close>

type_synonym 's sys_mmap = "s64 \<Rightarrow> 's \<Rightarrow> fault + (u64 option \<times> 's)"
type_synonym 's mem_load = "u64 \<Rightarrow> 's \<Rightarrow> fault + byte"
type_synonym 's mem_store = "u64 \<Rightarrow> byte \<Rightarrow> 's \<Rightarrow> fault + 's"

text \<open>
  The loop that prints the mapped bytes; \<open>i\<close> is an \<open>int\<close>, \<open>len\<close> a \<open>long\<close>, and counting past the
  largest \<open>int\<close> is undefined.
\<close>

partial_function (option) print_mapped ::
  "'s mem_load \<Rightarrow> u64 \<Rightarrow> s64 \<Rightarrow> s32 \<Rightarrow> string \<Rightarrow> 's \<Rightarrow> (fault + string) option" where
  "print_mapped load ptr len i out s =
     (if sint i < sint len
      then (case load (ptr + scast i) s of
              Inl f \<Rightarrow> Some (Inl f)
            | Inr b \<Rightarrow>
                if sint i = 2 ^ 31 - 1 then Some (Inl SignedOverflow)
                else print_mapped load ptr len (i + 1) (out @ [char_of (unat b)]) s)
      else Some (Inr out))"

definition got_line :: "u64 \<Rightarrow> s64 \<Rightarrow> string" where
  "got_line addr len = ''got address='' @ fmt_p addr @ '' and len='' @ fmt_ld len @ newline"

definition changed_line :: "byte \<Rightarrow> string" where
  "changed_line b = ''---'' @ newline @ ''First character changed to '' @
     [CHR 0x27, char_of (unat b), CHR 0x27] @ newline"

text \<open>
  \<open>argv[argc]\<close> is a null pointer, which \<open>atol\<close> must not be given. The fourth argument is used
  only if there are exactly four.
\<close>

definition first_byte :: "string \<Rightarrow> byte" where
  "first_byte a = of_char (hd (cstr a))"

definition chrdev_mmap_prog ::
  "'s sys_open \<Rightarrow> 's sys_mmap \<Rightarrow> 's mem_load \<Rightarrow> 's mem_store \<Rightarrow> ('s \<Rightarrow> 's) \<Rightarrow> string list \<Rightarrow> 's \<Rightarrow>
   's outcome option" where
  "chrdev_mmap_prog opn mmp load store cls argv s =
     (if length argv < 2 then Some (Exited EXIT_FAILURE [] s)
      else if length argv = 2 then Some (Crashed BadPointer)
      else
        let name = argv ! 1; len = atol (argv ! 2) in
        case opn name s of
          Inl f \<Rightarrow> Some (Crashed f)
        | Inr (ret, s) \<Rightarrow>
            if negative ret then Some (Exited EXIT_FAILURE [] s)
            else
              let out = [opened_line name] in
              (case mmp len s of
                 Inl f \<Rightarrow> Some (Crashed f)
               | Inr (None, s) \<Rightarrow> Some (Exited EXIT_FAILURE out s)
               | Inr (Some addr, s) \<Rightarrow>
                   let out = out @ [got_line addr len, ''---'' @ newline] in
                   Option.bind (print_mapped load addr len 0 [] s) (\<lambda>printed.
                     case printed of
                       Inl f \<Rightarrow> Some (Crashed f)
                     | Inr text \<Rightarrow>
                         let out = out @ [text] in
                         if length argv = 4 then
                           (let c = first_byte (argv ! 3) in
                            case bindo (store addr c s) (\<lambda>s. map_sum id (Pair s) (load addr s)) of
                              Inl f \<Rightarrow> Some (Crashed f)
                            | Inr (s, b) \<Rightarrow> Some (Exited 0 (out @ [changed_line b]) (cls s)))
                         else Some (Exited 0 out (cls s)))))"

lemma small_int:
  assumes "k < 2 ^ 31"
  shows "sint (of_nat k :: s32) = int k" and "sint (of_nat k :: s64) = int k"
    and "scast (of_nat k :: s32) = (of_nat k :: u64)"
proof -
  show s: "sint (of_nat k :: s32) = int k" "sint (of_nat k :: s64) = int k"
    using assms by (simp_all add: signed_of_nat signed_take_bit_int_eq_self)
  have "scast (of_nat k :: s32) = (word_of_int (sint (of_nat k :: s32)) :: u64)" by simp
  also have "\<dots> = of_nat k" by (simp only: s(1) of_int_of_nat_eq)
  finally show "scast (of_nat k :: s32) = (of_nat k :: u64)" .
qed

text \<open>The loop prints the bytes the loads deliver.\<close>

lemma print_mapped_all:
  assumes "\<And>k. k < n \<Longrightarrow> load (ptr + of_nat k) s = Inr (bs ! k)" and "length bs = n" and "n < 2 ^ 31"
    and "i \<le> n"
  shows "print_mapped load ptr (of_nat n) (of_nat i) out s =
     Some (Inr (out @ map (\<lambda>b. char_of (unat b)) (drop i bs)))"
  using assms(4)
proof (induction "n - i" arbitrary: i out)
  case 0
  then show ?case
    using assms(2) small_int [OF assms(3)] by (subst print_mapped.simps) simp
next
  case (Suc m)
  then have i: "i < n" by simp
  then have small: "i < 2 ^ 31" using assms(3) by simp
  have "m = n - Suc i" "Suc i \<le> n" using Suc.hyps(2) i by simp_all
  from Suc.hyps(1) [OF this, of "out @ [char_of (unat (bs ! i))]"]
  have ih: "print_mapped load ptr (of_nat n) (of_nat i + 1) (out @ [char_of (unat (bs ! i))]) s =
      Some (Inr ((out @ [char_of (unat (bs ! i))]) @ map (\<lambda>b. char_of (unat b)) (drop (Suc i) bs)))"
    by (simp add: add.commute)
  have "drop i bs = bs ! i # drop (Suc i) bs"
    using i assms(2) by (simp add: Cons_nth_drop_Suc)
  then show ?case
    using i assms(3) small_int [OF small] small_int [OF assms(3)] assms(1) [OF i]
    by (subst print_mapped.simps) (simp add: ih)
qed

section \<open>The mapping\<close>

text \<open>
  What the kernel does between the program and the driver: a length is rounded up to whole
  pages, the driver's method is asked to map them at \<open>base\<close>, and once it has mapped the buffer's
  page, loads and stores there reach the buffer.
\<close>

definition whole_pages :: "nat \<Rightarrow> nat" where
  "whole_pages n = (n + 4095) div 4096 * 4096"

definition mmap_service ::
  "u64 \<Rightarrow> (nat option \<Rightarrow> u64) \<Rightarrow> (drv7 \<times> ofile) sys_mmap \<Rightarrow> (drv7 \<times> ofile) mem_load \<Rightarrow>
   (drv7 \<times> ofile) mem_store \<Rightarrow> bool" where
  "mmap_service base v2p mmp load store \<longleftrightarrow>
     (\<forall>n s filp. 0 < n \<longrightarrow> n < 2 ^ 31 \<longrightarrow> mmp (of_nat n) (s, filp) =
        bindo (chrdev_mmap v2p 0 s filp
                 \<lparr>vm_start = base, vm_end = base + of_nat (whole_pages n), vm_pgoff = 0\<rparr>)
          (\<lambda>(r, s'). Inr (if r = 0 then Some base else None, (s', filp)))) \<and>
     (\<forall>t k. opened7 t \<longrightarrow> k < 4096 \<longrightarrow> load (base + of_nat k) t = Inr (contents7 t ! k)) \<and>
     (\<forall>t b. opened7 t \<longrightarrow>
        (\<exists>t'. store base b t = Inr t' \<and> opened7 t' \<and> contents7 t' = b # tl (contents7 t)))"

lemma opened7_remap:
  assumes "opened7 (s, filp)"
  shows "opened7 (call (Remap_Pfn_Range j a p n r) s, filp)"
    and "contents7 (call (Remap_Pfn_Range j a p n r) s, filp) = contents7 (s, filp)"
proof -
  let ?s = "call (Remap_Pfn_Range j a p n r) s"
  from assms have inv: "registry_inv s" "heap_inv s" by (auto simp: opened7_def mem_inv_def)
  have "registry_inv ?s"
    using registry_inv_frame [OF inv(1), of ?s] registry_invD(1) [OF inv(1)] by simp
  moreover have "heap_inv ?s"
    using heap_inv_frame [OF inv(2), of ?s] by simp
  ultimately show "opened7 (?s, filp)"
    using assms by (auto simp: opened7_def mem_inv_def)
  show "contents7 (?s, filp) = contents7 (s, filp)" by (simp add: contents7_def)
qed

lemma mmap_on_device:
  assumes srv: "mmap_service base v2p mmp load store" and op: "opened7 t"
    and n: "0 < n" "n < 2 ^ 31"
  shows "n \<le> 4096 \<Longrightarrow>
      \<exists>t'. mmp (of_nat n) t = Inr (Some base, t') \<and> opened7 t' \<and> contents7 t' = contents7 t"
    and "4096 < n \<Longrightarrow> mmp (of_nat n) t = Inr (None, t)"
proof -
  obtain s filp where t: "t = (s, filp)" by (cases t)
  with op obtain i where i: "private_data filp = Some i" by (auto simp: opened7_def)
  let ?vma = "\<lparr>vm_start = base, vm_end = base + of_nat (whole_pages n), vm_pgoff = 0\<rparr>"
  have "whole_pages n < 2 ^ 64" using n(2) by (simp add: whole_pages_def)
  then have w: "unat (of_nat (whole_pages n) :: u64) = whole_pages n"
    by (simp only: unsigned_of_nat) (simp add: take_bit_nat_eq_self)
  have pos: "whole_pages n \<noteq> 0" using n(1) by (simp add: whole_pages_def)
  then have ne: "(of_nat (whole_pages n) :: u64) \<noteq> 0" using w by (metis unsigned_0)
  have "chrdev_mmap v2p 0 s filp ?vma =
     Inr (if whole_pages n = 4096
          then (0, call (Remap_Pfn_Range i base (drop_bit 12 (v2p (bufp (slot s i)))) 4096 0) s)
          else (- EINVAL, s))"
  proof -
    have "(of_nat (whole_pages n) :: u64) = 4096 \<longleftrightarrow> whole_pages n = 4096"
    proof
      assume "(of_nat (whole_pages n) :: u64) = 4096"
      then have "unat (of_nat (whole_pages n) :: u64) = unat (4096 :: u64)" by (rule arg_cong)
      then show "whole_pages n = 4096" by (simp only: w) simp
    qed simp
    then show ?thesis
      using mmap7_result [of filp i ?vma v2p 0 s] i w ne by (simp add: whole_pages_def)
  qed
  moreover have "whole_pages n = 4096 \<longleftrightarrow> n \<le> 4096"
    using n(1) by (auto simp: whole_pages_def)
  moreover have "mmp (of_nat n) t = bindo (chrdev_mmap v2p 0 s filp ?vma)
      (\<lambda>(r, s'). Inr (if r = 0 then Some base else None, (s', filp)))"
    using srv n t by (simp add: mmap_service_def)
  ultimately show "n \<le> 4096 \<Longrightarrow>
      \<exists>t'. mmp (of_nat n) t = Inr (Some base, t') \<and> opened7 t' \<and> contents7 t' = contents7 t"
    and "4096 < n \<Longrightarrow> mmp (of_nat n) t = Inr (None, t)"
    using opened7_remap op t by auto
qed

section \<open>Properties\<close>

text \<open>C21: run on an open device of chapter 7 whose label fits its array, \<^verbatim>\<open>chrdev_ioctl\<close> succeeds, prints the
  label and mode the device had, and toggles the mode: the device is writable afterwards exactly if
  it was not before, with the same contents; running it a second time brings the mode back.\<close>

theorem chrdev_ioctl_toggles:
  assumes "opened7 (s, filp)" and "private_data filp = Some i"
    and "length (str_of (label (slot s i))) < 32" and "length junk = sizeof_chrdev_info"
    and "\<not> negative fd"
  shows "\<exists>t u. (\<forall>cls. chrdev_ioctl_prog (\<lambda>_ x. Inr (fd, x)) ioctl7_call cls junk [prog, name] (s, filp) =
         Exited 0
           [opened_line name,
            info_line \<lparr>info_label = padded_label i s, info_read_only = read_only (slot s i)\<rparr>,
            mode_line (if read_only (slot s i) = 0 then 1 else 0)] (cls (t, filp))) \<and>
       opened7 (t, filp) \<and> writable7 (t, filp) = (\<not> writable7 (s, filp)) \<and>
       contents7 (t, filp) = contents7 (s, filp) \<and>
       (\<exists>out. chrdev_ioctl_prog (\<lambda>_ x. Inr (fd, x)) ioctl7_call id junk [prog, name] (t, filp) =
              Exited 0 out (u, filp)) \<and>
       writable7 (u, filp) = writable7 (s, filp)"
proof -
  define m where "m = (if read_only (slot s i) = 0 then 1 else 0 :: s32)"
  define t where "t = upd_slot i (\<lambda>c. c\<lparr>read_only := m\<rparr>) s"
  define k where "k = (if read_only (slot t i) = 0 then 1 else 0 :: s32)"
  define u where "u = upd_slot i (\<lambda>c. c\<lparr>read_only := k\<rparr>) t"
  note set1 = ioctl7_set [OF assms(1,2) t_def]
  note set2 = ioctl7_set [OF set1(2) assms(2) u_def]
  have w: "writable7 (s, filp) \<longleftrightarrow> read_only (slot s i) = 0"
    using assms(2) by (simp add: writable7_def)
  have first: "chrdev_ioctl_prog (\<lambda>_ x. Inr (fd, x)) ioctl7_call cls junk [prog, name] (s, filp) =
      Exited 0 [opened_line name,
        info_line \<lparr>info_label = padded_label i s, info_read_only = read_only (slot s i)\<rparr>, mode_line m]
        (cls (t, filp))" for cls
    by (rule ioctl_prog_on_device [OF assms(1-5) m_def t_def])
  have "length (str_of (label (slot t i))) < 32" using assms(3) set1(5) by simp
  from ioctl_prog_on_device [OF set1(2) assms(2) this assms(4,5) k_def u_def]
  have "\<exists>out. chrdev_ioctl_prog (\<lambda>_ x. Inr (fd, x)) ioctl7_call id junk [prog, name] (t, filp) =
      Exited 0 out (u, filp)" by auto
  with first set1 set2 w show ?thesis
    by (intro exI [of _ t] exI [of _ u]) (simp add: m_def k_def)
qed

theorem chrdev_ioctl_toggles_witness:
  "\<exists>t out. chrdev_ioctl_prog (\<lambda>_ x. Inr (3, x)) ioctl7_call id (replicate 36 0)
       [''chrdev_ioctl'', ''/dev/a@0''] (sample7, sample_file7) = Exited 0 out (t, sample_file7) \<and>
     \<not> writable7 (t, sample_file7)"
proof -
  have "str_of (label_array (cstr ''a'')) = ''a''"
    using label_array_short [of "cstr ''a''"] str_of_cstr [of "''a''"] by (simp add: NUL_def)
  then have "private_data sample_file7 = Some 0" "length (str_of (label (slot sample7 0))) < 32"
    "length (replicate 36 (0 :: byte)) = sizeof_chrdev_info" "\<not> negative (3 :: s32)"
    by (simp_all add: sample_file7_def sample7_slot sizeof_chrdev_info_def)
  from chrdev_ioctl_toggles [OF sample7_opened this, of "''chrdev_ioctl''" "''/dev/a@0''"] sample7_writable
  show ?thesis by fastforce
qed


text \<open>A system on which the program can run.\<close>

definition sample_mmap :: "(drv7 \<times> ofile) sys_mmap" where
  "sample_mmap len = (\<lambda>(s, filp).
     bindo (chrdev_mmap (\<lambda>_. 0x80000000) 0 s filp
              \<lparr>vm_start = 0x10000, vm_end = 0x10000 + of_nat (whole_pages (unat len)), vm_pgoff = 0\<rparr>)
       (\<lambda>(r, s'). Inr (if r = 0 then Some 0x10000 else None, (s', filp))))"

definition sample_load :: "(drv7 \<times> ofile) mem_load" where
  "sample_load a t = Inr (contents7 t ! unat (a - 0x10000))"

definition sample_store :: "(drv7 \<times> ofile) mem_store" where
  "sample_store a b = (\<lambda>(s, filp).
     Inr (s\<lparr>heap := (heap s)(the (bufp (slot s (the (private_data filp)))) \<mapsto>
               b # tl (contents7 (s, filp)))\<rparr>, filp))"

lemma sample_mmap_service:
  "mmap_service 0x10000 (\<lambda>_. 0x80000000) sample_mmap sample_load sample_store"
proof -
  have small: "unat (of_nat n :: u64) = n" if "n < 2 ^ 31" for n
    using that by (simp only: unsigned_of_nat) (simp add: take_bit_nat_eq_self)
  have "\<exists>t'. sample_store 0x10000 b t = Inr t' \<and> opened7 t' \<and> contents7 t' = b # tl (contents7 t)"
    if op: "opened7 t" for t b
  proof -
    obtain s filp where t: "t = (s, filp)" by (cases t)
    obtain i a m where i: "i < 8" "private_data filp = Some i" "busy (slot s i)" "mem_inv s"
      "bufp (slot s i) = Some a" "heap s a = Some m" "length m = 4096" "contents7 (s, filp) = m"
      using op t opened7_buf by metis
    let ?s = "s\<lparr>heap := (heap s)(a \<mapsto> b # tl m)\<rparr>"
    have "mem_inv ?s" using i by (intro mem_inv_store) simp_all
    moreover have "slot ?s i = slot s i" by (simp add: slot_def)
    ultimately have "opened7 (?s, filp)" "contents7 (?s, filp) = b # tl m"
      using i by (auto simp: opened7_def contents7_def)
    then show ?thesis using i by (simp add: sample_store_def t)
  qed
  moreover have "sample_load (0x10000 + of_nat k) t = Inr (contents7 t ! k)" if "k < 4096" for k t
    using that small [of k] by (simp add: sample_load_def)
  ultimately show ?thesis
    by (auto simp: mmap_service_def sample_mmap_def small)
qed


end
