(* ===== verification/User_Events.thy ===== *)
theory User_Events
  imports User_Tools Chrdev_Irq
begin

text \<open>
  The user-space programs that wait for the timer-fed device: \<^verbatim>\<open>Chapter07/chrdev_select.c\<close>
  (\<open>select\<close> on the terminal and the device) and \<^verbatim>\<open>Chapter07/chrdev_fasync.c\<close> (read the device
  from a signal handler). A call that may sleep for ever answers an option.
\<close>

section \<open>chrdev_select.c\<close>

text \<open>\<open>select\<close> answers a value and which of the two descriptors it left in the set.\<close>

type_synonym 's sys_select = "'s \<Rightarrow> (fault + (s32 \<times> bool \<times> bool \<times> 's)) option"

text \<open>\<open>read(fd, &c, 1)\<close>: at most one byte is stored in \<open>c\<close>.\<close>

type_synonym 's sys_read1 = "'s \<Rightarrow> (fault + (s32 \<times> byte option \<times> 's)) option"

definition got_char :: "string \<Rightarrow> byte \<Rightarrow> string" where
  "got_char src c = ''got '' @ [CHR 0x27, char_of (unat c), CHR 0x27] @ '' from '' @ src @ ''!'' @ newline"

text \<open>Reading one descriptor and printing the character; \<open>c\<close> keeps its value if nothing is stored.\<close>

definition read_print ::
  "'s sys_read1 \<Rightarrow> string \<Rightarrow> string list \<Rightarrow> 's \<times> byte \<Rightarrow> ('s \<times> byte) outcome option" where
  "read_print rd src out = (\<lambda>(s, c).
     case rd s of
       None \<Rightarrow> None
     | Some (Inl f) \<Rightarrow> Some (Crashed f)
     | Some (Inr (ret, b, s)) \<Rightarrow>
         if negative ret then Some (Exited EXIT_FAILURE out (s, c))
         else
           let c = (case b of None \<Rightarrow> c | Some b \<Rightarrow> b)
           in Some (Goes_On (out @ [got_char src c]) (s, c)))"

text \<open>One round of the loop.\<close>

definition select_round ::
  "'s sys_select \<Rightarrow> 's sys_read1 \<Rightarrow> 's sys_read1 \<Rightarrow> string list \<Rightarrow> 's \<times> byte \<Rightarrow>
   ('s \<times> byte) outcome option" where
  "select_round sel rd_stdin rd_dev out = (\<lambda>(s, c).
     case sel s of
       None \<Rightarrow> None
     | Some (Inl f) \<Rightarrow> Some (Crashed f)
     | Some (Inr (ret, stdin_set, dev_set, s)) \<Rightarrow>
         if negative ret then Some (Exited EXIT_FAILURE out (s, c))
         else and_then
           (if stdin_set then read_print rd_stdin ''stdin'' out (s, c) else Some (Goes_On out (s, c)))
           (\<lambda>out t. if dev_set then read_print rd_dev ''device'' out t else Some (Goes_On out t)))"

partial_function (option) select_loop ::
  "'s sys_select \<Rightarrow> 's sys_read1 \<Rightarrow> 's sys_read1 \<Rightarrow> string list \<Rightarrow> 's \<times> byte \<Rightarrow>
   ('s \<times> byte) outcome option" where
  "select_loop sel rd_stdin rd_dev out t =
     (case select_round sel rd_stdin rd_dev out t of
        None \<Rightarrow> None
      | Some (Goes_On out t) \<Rightarrow> select_loop sel rd_stdin rd_dev out t
      | Some (Exited r out t) \<Rightarrow> Some (Exited r out t)
      | Some (Crashed f) \<Rightarrow> Some (Crashed f))"

definition chrdev_select_prog ::
  "'s sys_open \<Rightarrow> 's sys_select \<Rightarrow> 's sys_read1 \<Rightarrow> 's sys_read1 \<Rightarrow> byte \<Rightarrow> string list \<Rightarrow> 's \<Rightarrow>
   ('s \<times> byte) outcome option" where
  "chrdev_select_prog opn sel rd_stdin rd_dev junk argv s =
     (if length argv < 2 then Some (Exited EXIT_FAILURE [] (s, junk))
      else
        case opn (argv ! 1) s of
          Inl f \<Rightarrow> Some (Crashed f)
        | Inr (ret, s) \<Rightarrow>
            if negative ret then Some (Exited EXIT_FAILURE [] (s, junk))
            else select_loop sel rd_stdin rd_dev [opened_line (argv ! 1)] (s, junk))"

section \<open>chrdev_fasync.c\<close>

definition FASYNC :: s64 where "FASYNC = 0x2000"

datatype fcntl_cmd = F_SETOWN s32 | F_GETFL | F_SETFL s64

type_synonym 's sys_fcntl = "fcntl_cmd \<Rightarrow> 's \<Rightarrow> s32 \<times> 's"

text \<open>The handler, with \<open>read\<close> on the device and \<open>write\<close> on the terminal.\<close>

definition sigio_handler ::
  "'s sys_read1 \<Rightarrow> (byte \<Rightarrow> 's \<Rightarrow> s32 \<times> 's) \<Rightarrow> byte \<Rightarrow> 's \<Rightarrow> 's outcome option" where
  "sigio_handler rd wr junk s =
     (case rd s of
        None \<Rightarrow> None
      | Some (Inl f) \<Rightarrow> Some (Crashed f)
      | Some (Inr (ret, b, s)) \<Rightarrow>
          if negative ret then Some (Exited EXIT_FAILURE [] s)
          else
            let c = (case b of None \<Rightarrow> junk | Some b \<Rightarrow> b); (ret, s) = wr c s
            in if negative ret then Some (Exited EXIT_FAILURE [] s)
               else Some (Goes_On [[char_of (unat c)]] s))"

text \<open>
  \<open>main\<close> up to its loop. After \<open>F_SETFL\<close> it is \<open>flags\<close>, known to be non-negative, that is
  tested, not the answer.
\<close>

definition fasync_setup ::
  "'s sys_open \<Rightarrow> ('s \<Rightarrow> bool \<times> 's) \<Rightarrow> 's sys_fcntl \<Rightarrow> s32 \<Rightarrow> string list \<Rightarrow> 's \<Rightarrow> 's outcome" where
  "fasync_setup opn sig fcntl pid argv s =
     (if length argv < 2 then Exited EXIT_FAILURE [] s
      else
        case opn (argv ! 1) s of
          Inl f \<Rightarrow> Crashed f
        | Inr (ret, s) \<Rightarrow>
            if negative ret then Exited EXIT_FAILURE [] s
            else
              let out = [opened_line (argv ! 1)]; (sig_err, s) = sig s
              in if sig_err then Exited EXIT_FAILURE out s
              else
                let (ret, s) = fcntl (F_SETOWN pid) s
                in if negative ret then Exited EXIT_FAILURE out s
                else
                  let (r, s) = fcntl F_GETFL s; flags = (scast r :: s64)
                  in if negative flags then Exited EXIT_FAILURE out s
                  else
                    let (ret, s) = fcntl (F_SETFL (or flags FASYNC)) s
                    in if negative flags then Exited EXIT_FAILURE out s
                       else Goes_On out s)"

text \<open>The loop reads from the descriptor \<open>STDOUT_FILENO\<close>.\<close>

partial_function (option) fasync_loop ::
  "'s sys_read1 \<Rightarrow> string list \<Rightarrow> 's \<times> byte \<Rightarrow> ('s \<times> byte) outcome option" where
  "fasync_loop rd_stdout out t =
     (case read_print rd_stdout ''stdin'' out t of
        None \<Rightarrow> None
      | Some (Goes_On out t) \<Rightarrow> fasync_loop rd_stdout out t
      | Some (Exited r out t) \<Rightarrow> Some (Exited r out t)
      | Some (Crashed f) \<Rightarrow> Some (Crashed f))"

definition chrdev_fasync_prog ::
  "'s sys_open \<Rightarrow> ('s \<Rightarrow> bool \<times> 's) \<Rightarrow> 's sys_fcntl \<Rightarrow> s32 \<Rightarrow> 's sys_read1 \<Rightarrow> byte \<Rightarrow> string list \<Rightarrow> 's \<Rightarrow>
   ('s \<times> byte) outcome option" where
  "chrdev_fasync_prog opn sig fcntl pid rd_stdout junk argv s =
     (case fasync_setup opn sig fcntl pid argv s of
        Exited r out s \<Rightarrow> Some (Exited r out (s, junk))
      | Crashed f \<Rightarrow> Some (Crashed f)
      | Goes_On out s \<Rightarrow> fasync_loop rd_stdout out (s, junk))"

section \<open>The driver's methods as system calls\<close>

text \<open>A read of one byte; a sleep that no signal ends has no answer.\<close>

definition irq_read1 :: "ofile_irq \<Rightarrow> drv_irq sys_read1" where
  "irq_read1 filp s =
     (case chrdev_read_irq (\<lambda>_. 0) False s filp 1 of
        Inl f \<Rightarrow> Some (Inl f)
      | Inr Sleeps \<Rightarrow> None
      | Inr (Returns r bs s') \<Rightarrow> Some (Inr (ucast r, (case bs of [] \<Rightarrow> None | b # _ \<Rightarrow> Some b), s')))"

definition poll_in :: "drv_irq \<Rightarrow> ofile_irq \<Rightarrow> bool" where
  "poll_in s filp \<longleftrightarrow> (\<exists>m. chrdev_poll s filp = Inr m \<and> and m EPOLLIN \<noteq> 0)"

section \<open>Lemmas\<close>

lemma poll_in_items:
  assumes "irq_inv s" and "private_data filp = Some i" and "i < 8" and "busy (slot s i)"
  shows "poll_in s filp \<longleftrightarrow> items i s \<noteq> []"
  using assms(2) empty_irq_items [OF assms(1,3,4)]
  by (simp add: poll_in_def chrdev_poll_def EPOLLIN_def EPOLLRDNORM_def)

lemma read1_items:
  assumes "irq_inv s" and "private_data filp = Some i" and "i < 8" and "busy (slot s i)"
    and "items i s \<noteq> []"
  shows "\<exists>s'. irq_read1 filp s = Some (Inr (1, Some (hd (items i s)), s')) \<and> irq_inv s' \<and>
     items i s' = tl (items i s)"
proof -
  obtain x xs where xs: "items i s = x # xs" using assms(5) by (cases "items i s") auto
  from read_irq_result [OF assms(1-5) refl, of 1 "\<lambda>_. 0" False] obtain s' where
    "chrdev_read_irq (\<lambda>_. 0) False s filp 1 = Inr (Returns 1 [x] s')" "irq_inv s'" "items i s' = xs"
    by (auto simp: copy_ok_def xs)
  then show ?thesis by (simp add: irq_read1_def xs)
qed

text \<open>A piece of program that can exit only with a failure.\<close>

definition fails_only :: "'s outcome option \<Rightarrow> bool" where
  "fails_only p \<longleftrightarrow> (\<forall>k out t. p = Some (Exited k out t) \<longrightarrow> k = EXIT_FAILURE)"

lemma fails_only_simps [simp]:
  "fails_only None" "fails_only (Some (Crashed f))" "fails_only (Some (Goes_On out t))"
  "fails_only (Some (Exited k out t)) \<longleftrightarrow> k = EXIT_FAILURE"
  by (simp_all add: fails_only_def)

lemma fails_only_and_then:
  "fails_only p \<Longrightarrow> (\<And>out t. fails_only (g out t)) \<Longrightarrow> fails_only (and_then p g)"
  by (cases "(p, g)" rule: and_then.cases) simp_all

lemma fails_only_read_print: "fails_only (read_print rd src out t)"
  by (cases t) (simp add: read_print_def Let_def split: option.split sum.split prod.split)

lemma fails_only_select_round: "fails_only (select_round sel rd_stdin rd_dev out t)"
  by (cases t)
    (simp add: select_round_def fails_only_read_print fails_only_and_then
      split: option.split sum.split prod.split)

lemma select_loop_fails_only:
  assumes "select_loop sel rd_stdin rd_dev out t = Some r"
  shows "(\<exists>out t. r = Exited EXIT_FAILURE out t) \<or> (\<exists>f. r = Crashed f)"
  using assms
proof (rule select_loop.raw_induct [rotated])
  show "(\<exists>out t. r = Exited EXIT_FAILURE out t) \<or> (\<exists>f. r = Crashed f)"
    if ih: "\<And>sel rd_stdin rd_dev out t r. loop sel rd_stdin rd_dev out t = Some r \<Longrightarrow>
        (\<exists>out t. r = Exited EXIT_FAILURE out t) \<or> (\<exists>f. r = Crashed f)"
      and run: "(case select_round sel rd_stdin rd_dev out t of
        None \<Rightarrow> None
      | Some (Goes_On out t) \<Rightarrow> loop sel rd_stdin rd_dev out t
      | Some (Exited r out t) \<Rightarrow> Some (Exited r out t)
      | Some (Crashed f) \<Rightarrow> Some (Crashed f)) = Some r" for loop sel rd_stdin rd_dev out t r
  proof (cases "select_round sel rd_stdin rd_dev out t")
    case None
    with run show ?thesis by simp
  next
    case (Some q)
    have "fails_only (Some q)"
      using fails_only_select_round [of sel rd_stdin rd_dev out t] Some by simp
    with run Some ih show ?thesis by (cases q) auto
  qed
qed

section \<open>Properties\<close>

text \<open>\<open>poll\<close> tells the truth to a single reader: if it reports the device readable, a read of one byte
  that follows returns the oldest character at once and takes it off the queue; if it does not, such
  a read in blocking mode goes to sleep. So a round of \<^verbatim>\<open>chrdev_select\<close> whose \<open>select\<close> reports the
  device only when it is readable never sleeps in \<open>read\<close> and prints that character.\<close>

lemma select_round_reads_device:
  assumes "irq_inv s" and "private_data filp = Some i" and "i < 8" and "busy (slot s i)"
    and "and (f_flags filp) O_NONBLOCK = 0" and "\<not> negative r"
  shows "if poll_in s filp
     then \<exists>s'. irq_read1 filp s = Some (Inr (1, Some (hd (items i s)), s')) \<and> irq_inv s' \<and>
            items i s' = tl (items i s) \<and>
            select_round (\<lambda>s. Some (Inr (r, False, poll_in s filp, s))) rd_stdin (irq_read1 filp) out (s, c) =
              Some (Goes_On (out @ [got_char ''device'' (hd (items i s))]) (s', hd (items i s)))
     else irq_read1 filp s = None"
proof (cases "poll_in s filp")
  case True
  then have "items i s \<noteq> []" using poll_in_items [OF assms(1-4)] by simp
  from read1_items [OF assms(1-4) this] obtain s' where
    "irq_read1 filp s = Some (Inr (1, Some (hd (items i s)), s'))" "irq_inv s'" "items i s' = tl (items i s)"
    by blast
  with True assms(6) show ?thesis
    by (simp add: select_round_def read_print_def negative_def Let_def)
next
  case False
  then have "empty_irq i s" using poll_in_items [OF assms(1-4)] empty_irq_items [OF assms(1,3,4)] by simp
  with False assms(2,5) show ?thesis by (simp add: irq_read1_def chrdev_read_irq_def)
qed

lemma select_round_reads_device_witness:
  "\<exists>s s'. chrdev_timer_handler 0 sample_irq = Inr (HRTIMER_RESTART, s) \<and>
     select_round (\<lambda>s. Some (Inr (1, False, poll_in s sample_file_irq, s))) (\<lambda>_. None) (irq_read1 sample_file_irq)
       [] (s, 0) = Some (Goes_On [got_char ''device'' 65] (s', 65))"
proof -
  from timer_handler_items [OF sample_irq_simps(1) _ sample_irq_simps(2)] obtain s where
    s: "chrdev_timer_handler 0 sample_irq = Inr (HRTIMER_RESTART, s)" "irq_inv s"
      "devices_of s = devices_of sample_irq" "items 0 s = [65]"
    by (auto simp: sample_irq_simps get_new_char_def)
  have b: "busy (slot s 0)"
    using s(3) sample_irq_simps(2) by (metis devices_of_busy zero_less_numeral)
  have f: "private_data sample_file_irq = Some 0" "and (f_flags sample_file_irq) O_NONBLOCK = 0"
    "\<not> negative (1 :: s32)"
    by (simp_all add: sample_file_irq_def O_NONBLOCK_def negative_def)
  have "poll_in s sample_file_irq" using poll_in_items [OF s(2) f(1) _ b] s(4) by simp
  with s select_round_reads_device [OF s(2) f(1) _ b f(2,3), of "\<lambda>_. None" "[]" 0] show ?thesis
    by (auto simp: zero_less_numeral)
qed

text \<open>\<^verbatim>\<open>chrdev_select\<close> has no successful end: if it ends at all, whatever the calls answer and however
  long it runs, it ends with \<open>EXIT_FAILURE\<close>; the code after its loop is never reached.\<close>

lemma select_never_succeeds:
  assumes "chrdev_select_prog opn sel rd_stdin rd_dev junk argv s = Some r" and "\<And>f. r \<noteq> Crashed f"
  shows "\<exists>out t. r = Exited EXIT_FAILURE out t"
  using assms select_loop_fails_only [of sel rd_stdin rd_dev _ _ r]
  by (auto simp: chrdev_select_prog_def split: if_splits sum.splits)

lemma select_never_succeeds_witness:
  "\<exists>out t. chrdev_select_prog (\<lambda>_ s. Inr (3, s)) (\<lambda>s. Some (Inr (- 4, False, False, s))) (\<lambda>_. None) (\<lambda>_. None) 0
       [''chrdev_select'', ''/dev/a@0''] () = Some (Exited EXIT_FAILURE out t)"
proof -
  have n: "\<not> negative (3 :: s32)" "negative (- 4 :: s32)" by (simp_all add: negative_def)
  let ?r = "Exited EXIT_FAILURE [opened_line ''/dev/a@0''] ((), 0 :: byte)"
  have "select_loop (\<lambda>s. Some (Inr (- 4, False, False, s))) (\<lambda>_. None) (\<lambda>_. None)
      [opened_line ''/dev/a@0''] ((), 0) = Some ?r"
    by (subst select_loop.simps) (simp add: select_round_def n)
  then have r: "chrdev_select_prog (\<lambda>_ s. Inr (3, s)) (\<lambda>s. Some (Inr (- 4, False, False, s))) (\<lambda>_. None)
      (\<lambda>_. None) 0 [''chrdev_select'', ''/dev/a@0''] () = Some ?r"
    by (simp add: chrdev_select_prog_def n)
  have "?r \<noteq> Crashed f" for f by simp
  from select_never_succeeds [OF r this] r show ?thesis by simp
qed

text \<open>\<^verbatim>\<open>chrdev_fasync\<close> does not notice that asking for signals failed: it goes on to its loop.\<close>

lemma fasync_misses_setfl:
  assumes "opn name s0 = Inr (fd, s1)" and "\<not> negative fd" and "sig s1 = (False, s2)"
    and "fcntl (F_SETOWN pid) s2 = (0, s3)" and "fcntl F_GETFL s3 = (flags, s4)"
    and "\<not> negative (scast flags :: s64)"
    and "fcntl (F_SETFL (or (scast flags) FASYNC)) s4 = (- 1, s5)"
  shows "fasync_setup opn sig fcntl pid [prog, name] s0 = Goes_On [opened_line name] s5"
  using assms by (simp add: fasync_setup_def)

end
