(* ===== verification/User_Fasync.thy ===== *)
theory User_Fasync
  imports User_Events
begin

text \<open>
  \<^verbatim>\<open>Chapter07/chrdev_fasync.c\<close> while it runs: its loop waits for the terminal, the timers of the
  device expire and each expiry sends \<open>SIGIO\<close>, and the handler interrupts the loop. A signal that
  is already pending is not queued a second time, and the signal is blocked while its handler
  runs; both are what \<open>signal()\<close> of the C library arranges. The loop and the handler share nothing
  but the descriptor, so a handler that interrupts the loop between a read and the line it prints
  differs from one that runs after it only in the order of the two outputs, which are kept apart
  here.
\<close>

section \<open>The running program\<close>

record sig_sys =
  device :: drv_irq
  typed :: "byte list"        \<comment> \<open>what the terminal holds for the program\<close>
  main_c :: byte
  sig_pending :: bool
  handling :: bool            \<comment> \<open>the handler was entered and has not read yet\<close>
  handled :: string           \<comment> \<open>what the handler wrote\<close>
  main_lines :: "string list" \<comment> \<open>what the loop printed\<close>
  made :: "byte list"         \<comment> \<open>the characters the device has stored\<close>

definition sig_start :: "nat \<Rightarrow> byte \<Rightarrow> drv_irq \<Rightarrow> sig_sys" where
  "sig_start i junk k = \<lparr>device = k, typed = [], main_c = junk, sig_pending = False, handling = False,
     handled = [], main_lines = [], made = items i k\<rparr>"

fun terminal_read :: "byte list sys_read1" where
  "terminal_read [] = None"
| "terminal_read (b # bs) = Some (Inr (1, Some b, bs))"

text \<open>
  \<open>fd\<close> is the descriptor under which \<open>filp\<close> was put on the device's queue of files to signal; a
  signal is sent when the timer's handler calls \<open>kill_fasync()\<close> with that queue.
\<close>

definition signals :: "nat \<Rightarrow> s32 \<Rightarrow> drv_irq \<Rightarrow> drv_irq \<Rightarrow> bool" where
  "signals i fd k k' \<longleftrightarrow>
     Kill_Fasync i \<in> set (drop (length (ktrace k)) (ktrace k')) \<and> fd \<in> set (fasync_queue (slot k' i))"

inductive sig_step :: "ofile_irq \<Rightarrow> nat \<Rightarrow> s32 \<Rightarrow> byte \<Rightarrow> sig_sys \<Rightarrow> sig_sys \<Rightarrow> bool"
  for filp i fd junk where
    expires: "j \<in> live_timers (ktrace (device s)) \<Longrightarrow> chrdev_timer_handler j (device s) = Inr (r, k) \<Longrightarrow>
      sig_step filp i fd junk s (s\<lparr>device := k,
        sig_pending := sig_pending s \<or> signals i fd (device s) k,
        made := made s @ (if j = i then drop (length (items i (device s))) (items i k) else [])\<rparr>)"
  | delivered: "sig_pending s \<Longrightarrow> \<not> handling s \<Longrightarrow>
      sig_step filp i fd junk s (s\<lparr>sig_pending := False, handling := True\<rparr>)"
  | handles: "handling s \<Longrightarrow>
      sigio_handler (irq_read1 filp) (\<lambda>c k. (1, k)) junk (device s) = Some (Goes_On out k) \<Longrightarrow>
      sig_step filp i fd junk s (s\<lparr>device := k, handling := False, handled := handled s @ concat out\<rparr>)"
  | types: "sig_step filp i fd junk s (s\<lparr>typed := typed s @ [b]\<rparr>)"
  | reads_terminal: "\<not> handling s \<Longrightarrow>
      read_print terminal_read ''stdin'' (main_lines s) (typed s, main_c s) = Some (Goes_On out (bs, c)) \<Longrightarrow>
      sig_step filp i fd junk s (s\<lparr>typed := bs, main_c := c, main_lines := out\<rparr>)"

inductive_cases sig_stepE: "sig_step filp i fd junk s s'"

section \<open>What a run of the handler and of a timer does\<close>

definition as_char :: "byte \<Rightarrow> char" where "as_char b = char_of (unat b)"

text \<open>The characters that have been paid for by a signal that is on its way.\<close>

definition owed :: "sig_sys \<Rightarrow> nat" where
  "owed s = (if sig_pending s then 1 else 0) + (if handling s then 1 else 0)"

definition unread :: "nat \<Rightarrow> sig_sys \<Rightarrow> byte list" where
  "unread i s = items i (device s)"

definition sig_inv :: "nat \<Rightarrow> sig_sys \<Rightarrow> bool" where
  "sig_inv i s \<longleftrightarrow> irq_inv (device s) \<and> i < 8 \<and> busy (slot (device s) i) \<and>
     owed s \<le> length (unread i s) \<and> map as_char (made s) = handled s @ map as_char (unread i s)"

lemma sig_inv_start: "irq_inv k \<Longrightarrow> i < 8 \<Longrightarrow> busy (slot k i) \<Longrightarrow> sig_inv i (sig_start i junk k)"
  by (simp add: sig_inv_def sig_start_def owed_def unread_def)

lemma timer_keeps_fasync_queue:
  assumes "chrdev_timer_handler j k = Inr (r, k')"
  shows "fasync_queue (slot k' i) = fasync_queue (slot k i)"
proof -
  have upd: "fasync_queue (slot (upd_slot j (\<lambda>x. x\<lparr>head := h x\<rparr>) t) i) = fasync_queue (slot t i)" for h t
    by (cases "j < length (chrdev_array t)"; cases "i = j") (simp_all add: slot_def upd_slot_def list_update_beyond)
  have gen: "slot (t\<lparr>gen_d := d\<rparr>) i = slot t i" for d t by (simp add: slot_def)
  from assms show ?thesis
    by (auto simp: chrdev_timer_handler_def timer_produce_def Let_def split_beta bindo_Inr_iff store_buf_def upd gen
        split: if_splits option.splits)
qed

lemma timer_signals:
  assumes "chrdev_timer_handler j k = Inr (r, k')"
  shows "signals i fd k k' \<longleftrightarrow> j = i \<and> fd \<in> set (fasync_queue (slot k i))"
proof -
  from assms obtain u where u: "timer_produce j k = Inr u"
    "k' = call (Timer_Forward j (sint (delay_ns u))) (call (Kill_Fasync j) (call (Wake_Up j) u))"
    by (auto simp: chrdev_timer_handler_def bindo_Inr_iff)
  have "ktrace u = ktrace k"
    using u(1) by (auto simp: timer_produce_def Let_def split_beta bindo_Inr_iff store_buf_def
        split: if_splits option.splits)
  with u(2) show ?thesis
    using timer_keeps_fasync_queue [OF assms, of i] by (auto simp: signals_def call_def)
qed

lemma read_keeps_slots:
  assumes "chrdev_read_irq f sig k filp n = Inr (Returns r bs k')"
  shows "busy (slot k' l) = busy (slot k l)" and "fasync_queue (slot k' l) = fasync_queue (slot k l)"
proof -
  have "busy (slot (read_move i m k) l) = busy (slot k l) \<and>
        fasync_queue (slot (read_move i m k) l) = fasync_queue (slot k l)" for i m
    by (cases "i < length (chrdev_array k)"; cases "i = l")
      (simp_all add: read_move_def slot_def upd_slot_def list_update_beyond)
  with assms show "busy (slot k' l) = busy (slot k l)" and "fasync_queue (slot k' l) = fasync_queue (slot k l)"
    by (auto simp: chrdev_read_irq_def Let_def split_beta bindo_Inr_iff split: if_splits option.splits)
qed

text \<open>A character that is there is written at once.\<close>

lemma sigio_handler_shows:
  assumes "irq_inv k" and "private_data filp = Some i" and "i < 8" and "busy (slot k i)" and "items i k \<noteq> []"
  shows "\<exists>k'. sigio_handler (irq_read1 filp) (\<lambda>c k. (1, k)) junk k =
     Some (Goes_On [[as_char (hd (items i k))]] k') \<and> irq_inv k' \<and> busy (slot k' i) \<and>
     items i k' = tl (items i k) \<and> (\<forall>l. fasync_queue (slot k' l) = fasync_queue (slot k l))"
proof -
  from read1_items [OF assms] obtain k' where
    k': "irq_read1 filp k = Some (Inr (1, Some (hd (items i k)), k'))" "irq_inv k'" "items i k' = tl (items i k)"
    by blast
  from k'(1) obtain r bs where "chrdev_read_irq (\<lambda>_. 0) False k filp 1 = Inr (Returns r bs k')"
    by (auto simp: irq_read1_def split: sum.splits read_result.splits)
  note same = read_keeps_slots [OF this]
  have "\<not> negative (1 :: s32)" by (simp add: negative_def)
  with k' same assms(4) show ?thesis
    by (simp add: sigio_handler_def as_char_def)
qed

text \<open>An expiry of any timer: at most one character is added, none if the buffer is full.\<close>

lemma timer_adds:
  assumes "irq_inv k" and "i < 8" and "busy (slot k i)" and "j \<in> live_timers (ktrace k)"
    and "chrdev_timer_handler j k = Inr (r, k')"
  obtains ys where "irq_inv k'" and "busy (slot k' i)" and "items i k' = items i k @ ys"
    and "j \<noteq> i \<Longrightarrow> ys = []" and "j = i \<Longrightarrow> ys = [] \<Longrightarrow> length (items i k) = 4095"
proof -
  have j: "j < 8" "busy (slot k j)"
    using assms(4) irq_invD(5) [OF assms(1)] by (auto simp: busy_ids_def)
  from timer_handler_items [OF assms(1) j] assms(5) have
    k: "irq_inv k'" "devices_of k' = devices_of k"
      "if length (items j k) = 4095 then items j k' = items j k
       else items j k' = items j k @ [snd (get_new_char (gen_d k))]"
      "\<forall>l < 8. l \<noteq> j \<longrightarrow> busy (slot k l) \<longrightarrow> items l k' = items l k"
    by (auto split: if_splits)
  have b: "busy (slot k' i)"
    using k(2) assms(2,3) by (metis devices_of_busy)
  show thesis
  proof (cases "j = i \<and> length (items i k) \<noteq> 4095")
    case True
    then show thesis
      by (intro that [OF k(1) b, of "[snd (get_new_char (gen_d k))]"]) (use k(3) in auto)
  next
    case False
    then show thesis
      by (intro that [OF k(1) b, of "[]"]) (use k(3,4) assms(2,3) in auto)
  qed
qed

section \<open>Every step keeps the account\<close>

text \<open>How many characters nobody has been told about any more.\<close>

definition behind :: "nat \<Rightarrow> sig_sys \<Rightarrow> nat" where
  "behind i s = length (unread i s) - owed s"

lemma sig_step_keeps:
  assumes filp: "private_data filp = Some i" and inv: "sig_inv i s" and step: "sig_step filp i fd junk s s'"
  shows "sig_inv i s' \<and> min (behind i s) 4093 \<le> behind i s' \<and>
     fasync_queue (slot (device s') i) = fasync_queue (slot (device s) i)"
proof -
  have k: "irq_inv (device s)" "i < 8" "busy (slot (device s) i)"
    and o: "owed s \<le> length (unread i s)" and m: "map as_char (made s) = handled s @ map as_char (unread i s)"
    using inv by (simp_all add: sig_inv_def)
  from step show ?thesis
  proof cases
    case (expires j r k')
    from timer_adds [OF k expires(2,3)] obtain ys where
      ys: "irq_inv k'" "busy (slot k' i)" "items i k' = items i (device s) @ ys"
      and other: "j \<noteq> i \<longrightarrow> ys = []" and full: "j = i \<longrightarrow> ys = [] \<longrightarrow> length (items i (device s)) = 4095"
      by metis
    note q = timer_keeps_fasync_queue [OF expires(3), of i] and sent = timer_signals [OF expires(3), of i fd]
    have "owed s' \<le> length (unread i s') \<and> min (behind i s) 4093 \<le> behind i s'"
    proof (cases "j = i")
      case True
      then show ?thesis
        using o ys(3) full expires(1) sent by (cases ys) (auto simp: owed_def unread_def behind_def split: if_splits)
    next
      case False
      then show ?thesis
        using o ys(3) other expires(1) sent by (simp add: owed_def unread_def behind_def)
    qed
    moreover have "map as_char (made s') = handled s' @ map as_char (unread i s')"
      using m ys(3) other expires(1) by (simp add: unread_def)
    ultimately show ?thesis
      using ys(1,2) k(2) q expires(1) by (simp add: sig_inv_def)
  next
    case delivered
    then show ?thesis
      using inv by (simp add: sig_inv_def owed_def unread_def behind_def)
  next
    case (handles out k')
    then have ne: "items i (device s) \<noteq> []"
      using o by (auto simp: owed_def unread_def)
    from sigio_handler_shows [OF k(1) filp k(2,3) ne, of junk] handles(3) have
      out: "out = [[as_char (hd (items i (device s)))]]" "irq_inv k'" "busy (slot k' i)"
        "items i k' = tl (items i (device s))" "fasync_queue (slot k' i) = fasync_queue (slot (device s) i)"
      by auto
    have "length (tl (items i (device s))) = length (items i (device s)) - 1" by simp
    then have "owed s' \<le> length (unread i s') \<and> behind i s' = behind i s"
      using o ne handles(1,2) out(4) by (auto simp: owed_def unread_def behind_def)
    moreover have "map as_char (made s') = handled s' @ map as_char (unread i s')"
      using m ne handles(1) out(1,4) by (cases "items i (device s)") (simp_all add: unread_def)
    ultimately show ?thesis
      using out(2,3,5) k(2) handles(1) by (simp add: sig_inv_def)
  next
    case (types b)
    then show ?thesis
      using inv by (simp add: sig_inv_def owed_def unread_def behind_def)
  next
    case (reads_terminal out bs c)
    then show ?thesis
      using inv by (simp add: sig_inv_def owed_def unread_def behind_def)
  qed
qed

lemma sig_reach_keeps:
  assumes "private_data filp = Some i" and "(sig_step filp i fd junk)\<^sup>*\<^sup>* s s'" and "sig_inv i s"
  shows "sig_inv i s' \<and> min (behind i s) 4093 \<le> behind i s' \<and>
     fasync_queue (slot (device s') i) = fasync_queue (slot (device s) i)"
  using assms(2,3)
proof (induction rule: rtranclp_induct)
  case base
  then show ?case by simp
next
  case (step y z)
  then have y: "sig_inv i y" "min (behind i s) 4093 \<le> behind i y"
    "fasync_queue (slot (device y) i) = fasync_queue (slot (device s) i)" by blast+
  from sig_step_keeps [OF assms(1) y(1) step(2)] y(2,3) show ?case by auto
qed

text \<open>Asking for signals changes the queue of files to signal and nothing else.\<close>

lemma chrdev_fasync_keeps:
  assumes inv: "irq_inv k" and "chrdev_fasync helper fd filp on k = Inr (r, k')" and "private_data filp = Some i"
    and "i < 8"
  shows "irq_inv k'" and "busy (slot k' l) = busy (slot k l)" and "items l k' = items l k"
    and "fasync_queue (slot k' i) = snd (helper fd filp on (fasync_queue (slot k i)))"
proof -
  let ?q = "snd (helper fd filp on (fasync_queue (slot k i)))"
  note len = irq_invD(4) [OF inv]
  have k': "k' = upd_slot i (\<lambda>c. c\<lparr>fasync_queue := ?q\<rparr>) k"
    using assms(2,3) by (auto simp: chrdev_fasync_def split_beta)
  have same: "slot k' j = (if j = i then (slot k i)\<lparr>fasync_queue := ?q\<rparr> else slot k j)" for j
    using len assms(4) by (simp add: k' slot_def upd_slot_def)
  have rest: "ktrace k' = ktrace k" "heap k' = heap k" "length (chrdev_array k') = 8" "chrdev_devt k' = chrdev_devt k"
    using len by (simp_all add: k' upd_slot_def)
  have "mem_inv k'"
    by (rule mem_inv_frame(1) [OF irq_invD(1) [OF inv] rest(3,4,2)]) (simp_all add: same rest(1))
  moreover have "busy_ids k' = busy_ids k" by (auto simp: busy_ids_def same split: if_splits)
  ultimately show "irq_inv k'"
    using inv by (auto simp: irq_inv_def same rest(1))
  show "busy (slot k' l) = busy (slot k l)" and "items l k' = items l k" and "fasync_queue (slot k' i) = ?q"
    by (simp_all add: same items_def ring_of_def rest(2))
qed

section \<open>Runs\<close>

abbreviation sig_reach :: "ofile_irq \<Rightarrow> nat \<Rightarrow> s32 \<Rightarrow> byte \<Rightarrow> sig_sys \<Rightarrow> sig_sys \<Rightarrow> bool" where
  "sig_reach filp i fd junk \<equiv> (sig_step filp i fd junk)\<^sup>*\<^sup>*"

text \<open>A handler that was entered writes the oldest character and returns.\<close>

lemma handler_returns:
  assumes "private_data filp = Some i" and "sig_inv i s" and "handling s"
  shows "\<exists>k'. sigio_handler (irq_read1 filp) (\<lambda>c k. (1, k)) junk (device s) =
       Some (Goes_On [[as_char (hd (unread i s))]] k') \<and> items i k' = tl (unread i s) \<and>
     sig_step filp i fd junk s
       (s\<lparr>device := k', handling := False, handled := handled s @ [as_char (hd (unread i s))]\<rparr>)"
proof -
  have k: "irq_inv (device s)" "i < 8" "busy (slot (device s) i)" and ne: "items i (device s) \<noteq> []"
    using assms(2,3) by (auto simp: sig_inv_def owed_def unread_def)
  from sigio_handler_shows [OF k(1) assms(1) k(2,3) ne] obtain k' where
    k': "sigio_handler (irq_read1 filp) (\<lambda>c k. (1, k)) junk (device s) =
       Some (Goes_On [[as_char (hd (unread i s))]] k')" "items i k' = tl (unread i s)"
    unfolding unread_def by blast
  from handles [OF assms(3) k'(1)] k' show ?thesis by auto
qed

lemma signal_handled:
  assumes "private_data filp = Some i" and "sig_inv i s" and "sig_pending s" and "\<not> handling s"
  shows "\<exists>s'. sig_reach filp i fd junk s s' \<and> handled s' = handled s @ [as_char (hd (unread i s))] \<and>
     unread i s' = tl (unread i s) \<and> \<not> sig_pending s' \<and> \<not> handling s'"
proof -
  let ?t = "s\<lparr>sig_pending := False, handling := True\<rparr>"
  from delivered [OF assms(3,4)] have t: "sig_step filp i fd junk s ?t" .
  from sig_step_keeps [OF assms(1,2) t] have "sig_inv i ?t" by blast
  from handler_returns [OF assms(1) this, of junk fd] obtain k' where
    k': "items i k' = tl (unread i s)" "sig_step filp i fd junk ?t
       (?t\<lparr>device := k', handling := False, handled := handled s @ [as_char (hd (unread i s))]\<rparr>)"
    by (auto simp: unread_def)
  let ?u = "?t\<lparr>device := k', handling := False, handled := handled s @ [as_char (hd (unread i s))]\<rparr>"
  have "sig_reach filp i fd junk s ?u"
    using t k'(2) by (meson converse_rtranclp_into_rtranclp r_into_rtranclp)
  moreover have "handled ?u = handled s @ [as_char (hd (unread i s))] \<and> unread i ?u = tl (unread i s) \<and>
      \<not> sig_pending ?u \<and> \<not> handling ?u"
    using k'(1) by (simp add: unread_def)
  ultimately show ?thesis by blast
qed

text \<open>The timer of the device can always expire, and then a signal is pending.\<close>

lemma timer_can_expire:
  assumes "sig_inv i s" and fd: "fd \<in> set (fasync_queue (slot (device s) i))"
  shows "\<exists>s'. sig_step filp i fd junk s s' \<and> sig_pending s' \<and> handling s' = handling s \<and> handled s' = handled s \<and>
     (length (unread i s) \<noteq> 4095 \<longrightarrow> length (unread i s') = Suc (length (unread i s)))"
proof -
  have k: "irq_inv (device s)" "i < 8" "busy (slot (device s) i)"
    using assms(1) by (simp_all add: sig_inv_def)
  have live: "i \<in> live_timers (ktrace (device s))"
    using k irq_invD(5) [OF k(1)] by (simp add: busy_ids_def)
  from timer_handler_items [OF k] obtain k' where
    k': "chrdev_timer_handler i (device s) = Inr (HRTIMER_RESTART, k')"
      "length (items i (device s)) \<noteq> 4095 \<longrightarrow> length (items i k') = Suc (length (items i (device s)))"
    by (auto split: if_splits)
  have "signals i fd (device s) k'"
    using fd timer_signals [OF k'(1)] by simp
  then show ?thesis
    using expires [OF live k'(1), of filp i fd junk] k'(2)
    by (intro exI [of _ "s\<lparr>device := k', sig_pending := sig_pending s \<or> signals i fd (device s) k',
      made := made s @ (if i = i then drop (length (items i (device s))) (items i k') else [])\<rparr>"])
      (simp add: unread_def)
qed

lemma expiries_pile_up:
  assumes filp: "private_data filp = Some i" and "sig_inv i s" and "fd \<in> set (fasync_queue (slot (device s) i))"
    and "unread i s = []" and "m < 4095"
  shows "\<exists>s'. sig_reach filp i fd junk s s' \<and> length (unread i s') = Suc m \<and> sig_pending s' \<and> handling s' = handling s"
  using assms(5)
proof (induction m)
  case 0
  from timer_can_expire [OF assms(2,3), of filp junk] assms(4) obtain u where
    "sig_step filp i fd junk s u" "sig_pending u" "handling u = handling s" "length (unread i u) = Suc 0" by auto
  then show ?case by blast
next
  case (Suc m)
  then obtain t where t: "sig_reach filp i fd junk s t" "length (unread i t) = Suc m" "handling t = handling s"
    by auto
  from sig_reach_keeps [OF filp t(1) assms(2)] assms(3) have
    inv: "sig_inv i t" "fd \<in> set (fasync_queue (slot (device t) i))" by simp_all
  from timer_can_expire [OF inv, of filp junk] t(2) Suc.prems obtain u where
    "sig_step filp i fd junk t u" "sig_pending u" "handling u = handling t" "length (unread i u) = Suc (Suc m)"
    by auto
  with t show ?case by (metis rtranclp.rtrancl_into_rtrancl)
qed

text \<open>The next character is shown, whatever state the program is in.\<close>

lemma next_is_shown:
  assumes filp: "private_data filp = Some i" and inv: "sig_inv i s"
    and fd: "fd \<in> set (fasync_queue (slot (device s) i))"
  shows "\<exists>s' c. sig_reach filp i fd junk s s' \<and> handled s' = handled s @ [c]"
proof (cases "handling s")
  case True
  let ?c = "as_char (hd (unread i s))"
  from handler_returns [OF filp inv True, of junk fd] obtain k' where
    "sig_step filp i fd junk s (s\<lparr>device := k', handling := False, handled := handled s @ [?c]\<rparr>)" by blast
  then have "sig_reach filp i fd junk s (s\<lparr>device := k', handling := False, handled := handled s @ [?c]\<rparr>)" by blast
  moreover have "handled (s\<lparr>device := k', handling := False, handled := handled s @ [?c]\<rparr>) = handled s @ [?c]"
    by simp
  ultimately show ?thesis by blast
next
  case False
  from timer_can_expire [OF inv fd, of filp junk] False obtain t where
    t: "sig_step filp i fd junk s t" "sig_pending t" "\<not> handling t" "handled t = handled s" by auto
  from sig_step_keeps [OF filp inv t(1)] have "sig_inv i t" by blast
  from signal_handled [OF filp this t(2,3), of fd junk] t(1,4) show ?thesis
    by (metis converse_rtranclp_into_rtranclp)
qed

section \<open>Properties\<close>

lemma fasync_start:
  assumes "irq_inv k0" and "private_data filp = Some i" and "i < 8" and "busy (slot k0 i)"
    and "chrdev_fasync helper fd filp 1 k0 = Inr (r, k)"
    and "fd \<in> set (snd (helper fd filp 1 (fasync_queue (slot k0 i))))"
  shows "sig_inv i (sig_start i junk k)" and "fd \<in> set (fasync_queue (slot (device (sig_start i junk k)) i))"
    and "items i k = items i k0"
proof -
  note keeps = chrdev_fasync_keeps [OF assms(1,5,2,3)]
  show "sig_inv i (sig_start i junk k)"
    by (rule sig_inv_start) (use keeps assms(3,4) in simp_all)
  show "fd \<in> set (fasync_queue (slot (device (sig_start i junk k)) i))" and "items i k = items i k0"
    using keeps(3,4) assms(6) by (simp_all add: sig_start_def)
qed

text \<open>C23: \<^verbatim>\<open>chrdev_fasync\<close>, the only reader of its device, shows what the device produces: once it has
  asked for signals, at every moment of every run what its handler has written, followed by what the
  device still holds, is what the device has produced, in order; a handler that was entered never
  sleeps in its read, and writes the oldest character; and from every state one more character can
  still be shown.\<close>

theorem fasync_shows_in_order:
  assumes "irq_inv k0" and "private_data filp = Some i" and "i < 8" and "busy (slot k0 i)"
    and "chrdev_fasync helper fd filp 1 k0 = Inr (r, k)"
    and "fd \<in> set (snd (helper fd filp 1 (fasync_queue (slot k0 i))))"
    and "sig_reach filp i fd junk (sig_start i junk k) s"
  shows "map as_char (made s) = handled s @ map as_char (items i (device s)) \<and>
     (handling s \<longrightarrow>
        (\<exists>k'. sigio_handler (irq_read1 filp) (\<lambda>c k. (1, k)) junk (device s) =
           Some (Goes_On [[as_char (hd (items i (device s)))]] k'))) \<and>
     (\<exists>s' c. sig_reach filp i fd junk s s' \<and> handled s' = handled s @ [c])"
proof -
  note start = fasync_start(1,2) [OF assms(1-6), where junk = junk] fasync_start(3) [OF assms(1-6)]
  from sig_reach_keeps [OF assms(2,7) start(1)] start(2) have
    inv: "sig_inv i s" and fd: "fd \<in> set (fasync_queue (slot (device s) i))" by simp_all
  from handler_returns [OF assms(2) inv, of junk fd] next_is_shown [OF assms(2) inv fd, of junk] inv show ?thesis
    by (auto simp: sig_inv_def unread_def)
qed

text \<open>C35: \<^verbatim>\<open>chrdev_fasync\<close> falls behind and never catches up: its handler reads one character for each signal,
  but signals that arrive while one is pending are merged. For every number of characters up to 4093, three
  less than the size of the buffer, there is a run after which all signals have been handled and at least that many
  characters are left unread, and stay unread in every run that follows.\<close>

theorem fasync_falls_behind:
  assumes "irq_inv k0" and "private_data filp = Some i" and "i < 8" and "busy (slot k0 i)"
    and "chrdev_fasync helper fd filp 1 k0 = Inr (r, k)"
    and "fd \<in> set (snd (helper fd filp 1 (fasync_queue (slot k0 i))))"
    and "items i k0 = []" and "n \<le> 4093"
  shows "\<exists>s. sig_reach filp i fd junk (sig_start i junk k) s \<and> \<not> sig_pending s \<and> \<not> handling s \<and>
     (\<forall>s'. sig_reach filp i fd junk s s' \<longrightarrow> n \<le> length (items i (device s')))"
proof -
  let ?s0 = "sig_start i junk k"
  note start = fasync_start(1,2) [OF assms(1-6), where junk = junk] fasync_start(3) [OF assms(1-6)]
  have "unread i ?s0 = []" "n < 4095" "\<not> handling ?s0"
    using start(3) assms(7,8) by (simp_all add: unread_def sig_start_def)
  from expiries_pile_up [OF assms(2) start(1,2) this(1,2), of junk] this(3) obtain t where
    t: "sig_reach filp i fd junk ?s0 t" "length (unread i t) = Suc n" "sig_pending t" "\<not> handling t" by auto
  from sig_reach_keeps [OF assms(2) t(1) start(1)] have "sig_inv i t" by blast
  from signal_handled [OF assms(2) this t(3,4), of fd junk] t(2) obtain s where
    s: "sig_reach filp i fd junk t s" "length (unread i s) = n" "\<not> sig_pending s" "\<not> handling s" by auto
  have reach: "sig_reach filp i fd junk ?s0 s" using t(1) s(1) by (rule rtranclp_trans)
  from sig_reach_keeps [OF assms(2) reach start(1)] have inv: "sig_inv i s" by blast
  have "n \<le> length (items i (device s'))" if "sig_reach filp i fd junk s s'" for s'
  proof -
    from sig_reach_keeps [OF assms(2) that inv] have "min (behind i s) 4093 \<le> behind i s'" by blast
    moreover have "behind i s = n" using s(2-4) by (simp add: behind_def owed_def)
    ultimately show ?thesis using assms(8) by (simp add: behind_def unread_def)
  qed
  with reach s(3,4) show ?thesis by blast
qed

text \<open>A \<open>fasync_helper()\<close> that does what the kernel's does, and the sample device with signals asked for.\<close>

definition sample_helper :: "s32 \<Rightarrow> ofile_irq \<Rightarrow> s32 \<Rightarrow> s32 list \<Rightarrow> s32 \<times> s32 list" where
  "sample_helper fd filp on q =
     (if on = 0 then (if fd \<in> set q then 1 else 0, removeAll fd q)
      else if fd \<in> set q then (0, q) else (1, fd # q))"

lemma sample_fasync:
  "\<exists>r k. chrdev_fasync sample_helper 3 sample_file_irq 1 sample_irq = Inr (r, k)"
  "3 \<in> set (snd (sample_helper 3 sample_file_irq 1 (fasync_queue (slot sample_irq 0))))"
  "private_data sample_file_irq = Some 0"
  by (simp_all add: chrdev_fasync_def sample_file_irq_def sample_helper_def split_beta)

theorem fasync_shows_in_order_witness:
  "\<exists>r k s c. chrdev_fasync sample_helper 3 sample_file_irq 1 sample_irq = Inr (r, k) \<and>
     sig_reach sample_file_irq 0 3 0 (sig_start 0 0 k) s \<and> handled s = [c]"
proof -
  obtain r k where k: "chrdev_fasync sample_helper 3 sample_file_irq 1 sample_irq = Inr (r, k)"
    using sample_fasync(1) by blast
  from fasync_shows_in_order [OF sample_irq_simps(1) sample_fasync(3) _ sample_irq_simps(2) k sample_fasync(2), of 0]
    k show ?thesis by (fastforce simp: sig_start_def)
qed

theorem fasync_falls_behind_witness:
  "\<exists>r k s. chrdev_fasync sample_helper 3 sample_file_irq 1 sample_irq = Inr (r, k) \<and>
     \<not> sig_pending s \<and> (\<forall>s'. sig_reach sample_file_irq 0 3 0 s s' \<longrightarrow> 5 \<le> length (items 0 (device s')))"
proof -
  obtain r k where k: "chrdev_fasync sample_helper 3 sample_file_irq 1 sample_irq = Inr (r, k)"
    using sample_fasync(1) by blast
  from fasync_falls_behind [OF sample_irq_simps(1) sample_fasync(3) _ sample_irq_simps(2) k sample_fasync(2)
      sample_irq_simps(3), of 5 0] k show ?thesis by auto
qed

end
