(* ===== verification/Demos.thy ===== *)
theory Demos
  imports User_Tools
begin

text \<open>
  The modules and programs that only show something and then refuse to stay loaded:
  \<^verbatim>\<open>Chapter04/get_dt_data/get_dt_data.c\<close>, \<^verbatim>\<open>Chapter06/data_types/data_types.c\<close>,
  \<^verbatim>\<open>Chapter06/mem_alloc/mem_alloc.c\<close>, \<^verbatim>\<open>Chapter06/time/time.c\<close>,
  \<^verbatim>\<open>Chapter02/module_par/module_par.c\<close>, \<^verbatim>\<open>Chapter02/module/dummy-code.c\<close> and
  \<^verbatim>\<open>Chapter01/helloworld.c\<close>. Here what is printed is the result.
\<close>

section \<open>get_dt_data.c\<close>

text \<open>
  The kernel's view of the device tree. The two readers answer a value and store through
  their last argument if it is zero; the two iterations visit properties and children in
  order.
\<close>

record 'n dt_api =
  of_find_node_by_path :: "string \<Rightarrow> 'n option"
  full_name :: "'n \<Rightarrow> string"
  of_property_read_u32 :: "'n \<Rightarrow> string \<Rightarrow> s32 \<times> u32"
  of_property_read_string :: "'n \<Rightarrow> string \<Rightarrow> s32 \<times> string"
  properties_of :: "'n \<Rightarrow> string list"
  children_of :: "'n \<Rightarrow> 'n list"

text \<open>The value is printed with \<open>%d\<close>, as a signed number.\<close>

definition print_property_u32 :: "'n dt_api \<Rightarrow> 'n \<Rightarrow> string \<Rightarrow> string list" where
  "print_property_u32 api node name =
     (let (r, val) = of_property_read_u32 api node name
      in if r = 0 then ['' '' @ name @ '' = '' @ fmt_d val @ newline] else [])"

definition print_property_string :: "'n dt_api \<Rightarrow> 'n \<Rightarrow> string \<Rightarrow> string list" where
  "print_property_string api node name =
     (let (r, str) = of_property_read_string api node name
      in if r = 0 then ['' '' @ name @ '' = '' @ str @ newline] else [])"

definition node_line :: "'n dt_api \<Rightarrow> 'n \<Rightarrow> string" where
  "node_line api node = ''+ node = '' @ full_name api node @ newline"

definition print_main_prop :: "'n dt_api \<Rightarrow> 'n \<Rightarrow> string list" where
  "print_main_prop api node =
     [node_line api node] @
     print_property_u32 api node ''#address-cells'' @
     print_property_u32 api node ''#size-cells'' @
     print_property_u32 api node ''reg'' @
     print_property_string api node ''name'' @
     print_property_string api node ''compatible'' @
     print_property_string api node ''status''"

definition get_dt_data_init :: "'n dt_api \<Rightarrow> string \<Rightarrow> s32 \<times> string list" where
  "get_dt_data_init api path =
     (let out = [''path = '' @ [CHR 0x22] @ path @ [CHR 0x22] @ newline]
      in case of_find_node_by_path api path of
           None \<Rightarrow> (- ENODEV, out @ [''failed to find device-tree node '' @ [CHR 0x22] @ path @ [CHR 0x22] @ newline])
         | Some node \<Rightarrow>
             (- EINVAL,
              out @ [''device-tree node found!'' @ newline, ''now getting main properties...'' @ newline] @
              print_main_prop api node @
              [''now move through all properties...'' @ newline] @
              map (\<lambda>p. ''-> '' @ p @ newline) (properties_of api node) @
              [''Now move through children...'' @ newline] @
              concat (map (print_main_prop api) (children_of api node))))"

text \<open>The path that is scanned unless the module's parameter says otherwise: the root. Unloading does nothing.\<close>

definition PATH_DEFAULT :: string where "PATH_DEFAULT = ''/''"

definition get_dt_data_exit :: "string list" where
  "get_dt_data_exit = []"

lemma get_dt_data_never_stays: "negative (fst (get_dt_data_init api path))"
  by (simp add: get_dt_data_init_def negative_def Let_def split: option.split)

lemma print_main_prop_absent:
  assumes "\<And>name. fst (of_property_read_u32 api node name) \<noteq> 0"
    and "\<And>name. fst (of_property_read_string api node name) \<noteq> 0"
  shows "print_main_prop api node = [node_line api node]"
  using assms
  by (simp add: print_main_prop_def print_property_u32_def print_property_string_def split_beta)

section \<open>data_types.c\<close>

text \<open>A member: its name, the size of an element, and how many elements it has.\<close>

record member =
  mname :: string
  msize :: nat
  mcount :: nat

definition dtypes_s :: "member list" where
  "dtypes_s =
     [\<lparr>mname = ''reg0'', msize = 4, mcount = 1\<rparr>, \<lparr>mname = ''pad0'', msize = 1, mcount = 2\<rparr>,
      \<lparr>mname = ''reg1'', msize = 2, mcount = 1\<rparr>, \<lparr>mname = ''pad1'', msize = 4, mcount = 2\<rparr>,
      \<lparr>mname = ''reg2'', msize = 1, mcount = 1\<rparr>, \<lparr>mname = ''reg3'', msize = 1, mcount = 1\<rparr>,
      \<lparr>mname = ''reg4'', msize = 2, mcount = 1\<rparr>, \<lparr>mname = ''reg5'', msize = 4, mcount = 1\<rparr>]"

text \<open>
  The offsets of a structure's members: \<open>packed\<close>, one after the other, and by the rule of the
  ABI, each at a multiple of the size of its element.
\<close>

fun packed_layout :: "nat \<Rightarrow> member list \<Rightarrow> (string \<times> nat) list" where
  "packed_layout off [] = []"
| "packed_layout off (m # ms) = (mname m, off) # packed_layout (off + msize m * mcount m) ms"

definition align_up :: "nat \<Rightarrow> nat \<Rightarrow> nat" where
  "align_up a off = (off + a - 1) div a * a"

fun natural_layout :: "nat \<Rightarrow> member list \<Rightarrow> (string \<times> nat) list" where
  "natural_layout off [] = []"
| "natural_layout off (m # ms) =
     (let off = align_up (msize m) off
      in (mname m, off) # natural_layout (off + msize m * mcount m) ms)"

definition offset_of :: "string \<Rightarrow> nat" where
  "offset_of m = the (map_of (packed_layout 0 dtypes_s) m)"

text \<open>The address of a member, which is all the module does with the structure.\<close>

definition member_addr :: "s64 \<Rightarrow> string \<Rightarrow> u64" where
  "member_addr base_addr m = base_addr + of_nat (offset_of m)"

text \<open>\<open>%px\<close>: sixteen hexadecimal digits. The prefix \<open>pr_fmt\<close> puts before every line is left out.\<close>

definition tab :: string where "tab = [CHR 0x09]"

definition fmt_px :: "u64 \<Rightarrow> string" where
  "fmt_px w = (let h = fmt_hex (unat w) in replicate (16 - length h) (CHR ''0'') @ h)"

definition member_line :: "s64 \<Rightarrow> string \<Rightarrow> string" where
  "member_line base_addr m = m @ tab @ fmt_px (member_addr base_addr m) @ newline"

definition data_types_init :: "s64 \<Rightarrow> s32 \<times> string list" where
  "data_types_init base_addr =
     (- EINVAL,
      [tab @ ''u8'' @ tab @ ''u16'' @ tab @ ''u32'' @ tab @ ''u64'' @ newline,
       ''size'' @ tab @ fmt_nat (LENGTH(8) div 8) @ tab @ fmt_nat (LENGTH(16) div 8) @ tab @
         fmt_nat (LENGTH(32) div 8) @ tab @ fmt_nat (LENGTH(64) div 8) @ newline,
       ''name'' @ tab @ ''ptr'' @ newline] @
      map (member_line base_addr) [''reg0'', ''reg1'', ''reg2'', ''reg3'', ''reg4'', ''reg5''])"

definition data_types_base_addr :: s64 where "data_types_base_addr = 0x80000000"

definition data_types_exit :: "string list" where
  "data_types_exit = [''unloaded'' @ newline]"

section \<open>mem_alloc.c\<close>

datatype allocator = Kmalloc | Vmalloc | Kvmalloc

datatype gfp = GFP_KERNEL | GFP_ATOMIC | Default_Flags

text \<open>An allocation with its size and answer, a line printed, and a release.\<close>

datatype mem_event = Alloc allocator u64 gfp "nat option" | Print string | Free allocator "nat option"

definition ptr_line :: "string \<Rightarrow> nat option \<Rightarrow> string" where
  "ptr_line what p = what @ fmt_px (case p of None \<Rightarrow> 0 | Some a \<Rightarrow> of_nat a) @ newline"

text \<open>One block of the start function; \<open>size << 10\<close> is computed in a \<open>long\<close>.\<close>

definition alloc_block :: "s64 \<Rightarrow> allocator \<Rightarrow> gfp \<Rightarrow> string \<Rightarrow> nat option \<Rightarrow> mem_event list" where
  "alloc_block size_kb a g what p =
     [Alloc a (push_bit 10 size_kb) g p, Print (ptr_line what p), Free a p]"

definition mem_alloc_init :: "s64 \<Rightarrow> (nat \<Rightarrow> nat option) \<Rightarrow> s32 \<times> mem_event list" where
  "mem_alloc_init size_kb answer =
     (- EINVAL,
      [Print (''size='' @ fmt_ld size_kb @ ''kbytes'' @ newline)] @
      alloc_block size_kb Kmalloc GFP_KERNEL ''kmalloc(..., GFP_KERNEL) ='' (answer 0) @
      alloc_block size_kb Kmalloc GFP_ATOMIC ''kmalloc(..., GFP_ATOMIC) ='' (answer 1) @
      alloc_block size_kb Vmalloc Default_Flags ''vmalloc(...)             ='' (answer 2) @
      alloc_block size_kb Kvmalloc GFP_KERNEL ''kvmalloc(..., GFP_KERNEL)='' (answer 3) @
      alloc_block size_kb Kvmalloc GFP_ATOMIC ''kvmalloc(..., GFP_ATOMIC)='' (answer 4))"

definition mem_alloc_size :: s64 where "mem_alloc_size = 4"

definition mem_alloc_exit :: "string list" where
  "mem_alloc_exit = [''unloaded'' @ newline]"

text \<open>
  A monitor: what is allocated after an event, or \<open>None\<close> if a release does not match an
  allocation. Releasing the null pointer does nothing.
\<close>

fun mem_monitor :: "mem_event \<Rightarrow> (allocator \<times> nat) set \<Rightarrow> (allocator \<times> nat) set option" where
  "mem_monitor (Alloc a n g None) live = Some live"
| "mem_monitor (Alloc a n g (Some p)) live = Some (insert (a, p) live)"
| "mem_monitor (Print line) live = Some live"
| "mem_monitor (Free a None) live = Some live"
| "mem_monitor (Free a (Some p)) live = (if (a, p) \<in> live then Some (live - {(a, p)}) else None)"

fun mem_run :: "mem_event list \<Rightarrow> (allocator \<times> nat) set \<Rightarrow> (allocator \<times> nat) set option" where
  "mem_run [] live = Some live"
| "mem_run (e # es) live = Option.bind (mem_monitor e live) (mem_run es)"

lemma mem_run_append: "mem_run (xs @ ys) live = Option.bind (mem_run xs live) (mem_run ys)"
proof (induction xs arbitrary: live)
  case (Cons e es)
  then show ?case by (cases "mem_monitor e live") simp_all
qed simp

lemma alloc_block_balanced:
  "(\<And>p. r = Some p \<Longrightarrow> (a, p) \<notin> live) \<Longrightarrow> mem_run (alloc_block n a g what r) live = Some live"
  by (cases r) (simp_all add: alloc_block_def)

section \<open>time.c\<close>

text \<open>What is timed, and the time each asks for, in nanoseconds.\<close>

datatype timed = Ndelay nat | Udelay nat | Mdelay nat | Usleep_Range nat nat | Msleep nat
  | Msleep_Interruptible nat | Ssleep nat

fun asked_ns :: "timed \<Rightarrow> nat" where
  "asked_ns (Ndelay n) = n"
| "asked_ns (Udelay n) = n * 1000"
| "asked_ns (Mdelay n) = n * 1000000"
| "asked_ns (Usleep_Range a b) = a * 1000"
| "asked_ns (Msleep n) = n * 1000000"
| "asked_ns (Msleep_Interruptible n) = n * 1000000"
| "asked_ns (Ssleep n) = n * 1000000000"

text \<open>
  \<open>print_time\<close>: the clock is read before and after; the difference is an unsigned 64-bit
  number. \<open>clock\<close> gives the reading after each of the timed calls made so far.
\<close>

definition print_time :: "string \<Rightarrow> u64 \<Rightarrow> u64 \<Rightarrow> string" where
  "print_time str t0 t1 = str @ '' -> '' @ fmt_nat (unat (t1 - t0)) @ ''ns'' @ newline"

definition timed_calls :: "(string \<times> timed) list" where
  "timed_calls =
     [(''10ns'', Ndelay 10), (''10000ns'', Udelay 10), (''10000000ns'', Mdelay 10),
      (''10000ns'', Usleep_Range 10 10), (''10000000ns'', Msleep 10),
      (''10000000ns'', Msleep_Interruptible 10), (''10000000000ns'', Ssleep 10)]"

definition time_init :: "(nat \<Rightarrow> u64 \<times> u64) \<Rightarrow> s32 \<times> string list" where
  "time_init clock =
     (let lines = map (\<lambda>(i, (str, _)). print_time str (fst (clock i)) (snd (clock i)))
                    (zip [0..<length timed_calls] timed_calls)
      in (- EINVAL, [''*delay() functions:'' @ newline] @ take 3 lines @
                    [''*sleep() functions:'' @ newline] @ drop 3 lines))"

definition time_exit :: "string list" where
  "time_exit = [''unloaded'' @ newline]"

text \<open>Each label says what its call asks for.\<close>

lemma time_labels: "\<forall>(str, c) \<in> set timed_calls. digits_value (takeWhile is_digit str) = int (asked_ns c)"
  by (simp add: timed_calls_def digits_value_def is_digit_def)

section \<open>module_par.c\<close>

definition ARR_SIZE :: nat where "ARR_SIZE = 8"

record module_params =
  var :: s32
  str :: string
  arr :: "s32 list"

definition default_params :: module_params where
  "default_params = \<lparr>var = 0x3f, str = ''default string'', arr = replicate ARR_SIZE 0\<rparr>"

text \<open>\<open>0x%02x\<close>: at least two digits.\<close>

definition fmt_x2 :: "u32 \<Rightarrow> string" where
  "fmt_x2 w = (let h = fmt_hex (unat w) in if length h < 2 then ''0'' @ h else h)"

definition module_par_init :: "module_params \<Rightarrow> fault + (s32 \<times> string list)" where
  "module_par_init p =
     bindo (mem_read (arr p) 0 ARR_SIZE) (\<lambda>a.
       Inr (0, [''loaded'' @ newline, ''var = 0x'' @ fmt_x2 (var p) @ newline,
                ''str = '' @ [CHR 0x22] @ str p @ [CHR 0x22] @ newline,
                ''arr = '' @ concat (map (\<lambda>x. fmt_d x @ '' '') a) @ newline]))"

definition module_par_exit :: "string list" where
  "module_par_exit = [''unloaded'' @ newline]"

section \<open>dummy-code.c and helloworld.c\<close>

definition dummy_code_init :: "s32 \<times> string list" where
  "dummy_code_init = (0, [''dummy-code loaded'' @ newline])"

definition dummy_code_exit :: "string list" where
  "dummy_code_exit = [''dummy-code unloaded'' @ newline]"

definition hello_main :: "s32 \<times> string list" where
  "hello_main = (0, [''Hello World!'' @ newline])"

section \<open>Properties\<close>

text \<open>The structure of \<^verbatim>\<open>data_types.c\<close> is laid out the same way packed and by the alignment rule of the
  ABI, so the attribute changes nothing: its registers lie at offsets 0, 6, 16, 17, 18 and 20, whatever
  the base address.\<close>

lemma data_types_layout:
  "packed_layout 0 dtypes_s = natural_layout 0 dtypes_s \<and>
   map (member_addr base) [''reg0'', ''reg1'', ''reg2'', ''reg3'', ''reg4'', ''reg5''] =
     [base, base + 6, base + 16, base + 17, base + 18, base + 20]"
  by (simp add: member_addr_def offset_of_def dtypes_s_def align_up_def Let_def)

text \<open>\<^verbatim>\<open>mem_alloc.c\<close> leaks nothing and releases nothing twice: whichever of its five allocations succeed,
  every block is released by the function that belongs to its allocator before the next one is asked
  for, the null pointer is passed on harmlessly, and all ask for the same number of bytes, the
  parameter times 1024 as long as that fits.\<close>

lemma mem_alloc_balanced:
  assumes "0 \<le> sint size_kb" and "sint size_kb < 2 ^ 53"
  shows "mem_run (snd (mem_alloc_init size_kb answer)) {} = Some {} \<and>
     (\<forall>a n g p. Alloc a n g p \<in> set (snd (mem_alloc_init size_kb answer)) \<longrightarrow> uint n = sint size_kb * 1024)"
proof -
  have "mem_run (snd (mem_alloc_init size_kb answer)) {} = Some {}"
    by (simp add: mem_alloc_init_def mem_run_append alloc_block_balanced)
  moreover have "uint (push_bit 10 size_kb) = sint size_kb * 1024"
  proof -
    have "uint size_kb = take_bit 64 (sint size_kb)" by (simp add: uint_sint)
    then have u: "uint size_kb = sint size_kb"
      using assms by (simp add: take_bit_int_eq_self)
    have "uint (push_bit 10 size_kb) = take_bit 64 (push_bit 10 (uint size_kb))"
      by (simp add: unsigned_push_bit_eq)
    also have "\<dots> = sint size_kb * 1024"
      using assms unfolding u by (simp add: push_bit_eq_mult take_bit_int_eq_self)
    finally show ?thesis .
  qed
  ultimately show ?thesis
    by (auto simp: mem_alloc_init_def alloc_block_def)
qed

lemma mem_alloc_balanced_witness:
  "mem_run (snd (mem_alloc_init 4 (\<lambda>k. if k = 2 then None else Some 64))) {} = Some {}"
  using mem_alloc_balanced [of 4 "\<lambda>k. if k = 2 then None else Some 64"] by simp

text \<open>With the parameters as they are by default: four pages of a kilobyte are one page of memory, and the
  registers are 64-bit addresses above \<open>0x80000000\<close>, which is not negative in a \<open>long\<close>.\<close>

lemma default_parameters:
  "Alloc a n g p \<in> set (snd (mem_alloc_init mem_alloc_size answer)) \<Longrightarrow> n = 4096"
  "\<not> negative data_types_base_addr" "uint (member_addr data_types_base_addr ''reg5'') = 0x80000014"
  by (auto simp: mem_alloc_init_def alloc_block_def mem_alloc_size_def negative_def data_types_base_addr_def
      member_addr_def offset_of_def dtypes_s_def push_bit_eq_mult)

end
