(* ===== verification/Spec2Isabelle.thy ===== *)
theory Spec2Isabelle
  imports Chrdev_Fw Module_Safe Chrdev4_System Chrdev7_System Reg_Race Io_Race Irq_Queue Irq_Rereg Irq_Life Irq_Window Mmap_Reuse Klist Khash Timers Locks Modules User_Fasync Demos
begin

text \<open>
  A model of the Linux drivers of the Linux Device Driver Development Cookbook, and what makes
  them correct.

  \<^bold>\<open>The program.\<close> The repository holds kernel modules, one directory per chapter. Its largest part is
  a pair of character drivers. \<^verbatim>\<open>Chapter04/chrdev/chrdev.c\<close> keeps a table of eight
  devices with a 300-byte buffer each, exports \<^verbatim>\<open>chrdev_device_register()\<close> and
  \<^verbatim>\<open>chrdev_device_unregister()\<close>, and serves \<open>open\<close>, \<open>read\<close>, \<open>write\<close> and \<open>release\<close> on them.
  \<^verbatim>\<open>Chapter07/chrdev/chrdev.c\<close> allocates a page per device and adds \<open>llseek\<close>, \<open>ioctl\<close> and
  \<open>mmap\<close>; \<^verbatim>\<open>Chapter07/chrdev/chrdev_irq.c\<close> fills a circular buffer from a timer and lets readers
  sleep, poll and be signalled. \<^verbatim>\<open>chrdev-req.c\<close> registers one device for each child node of the
  device tree, \<^verbatim>\<open>chrdev-fw.c\<close> loads firmware. The other modules each show one kernel service:
  timers, notifiers, locks, wait queues, lists, hash tables.

  \<^bold>\<open>Theories.\<close>
  \<^item> \<^verbatim>\<open>Prelude\<close>: machine types, error numbers, faults (undefined behaviour as a value), bounded memory,
    C strings, the end-of-buffer check.
  \<^item> \<^verbatim>\<open>Kernel_Iface\<close>: what the drivers exchange with the kernel. Answers of the kernel are inputs; the
    calls made are recorded in a trace, from which \<open>live_cdevs\<close>, \<open>live_memory\<close> and the like read off
    what a driver still holds.
  \<^item> \<^verbatim>\<open>Device_Table\<close>: the table of devices of \<^verbatim>\<open>chrdev.c\<close> and its invariant.
  \<^item> \<^verbatim>\<open>Chrdev_Req\<close>: \<^verbatim>\<open>chrdev-req.c\<close>, over the locale \<open>chrdev_registry\<close> (what registering and
    unregistering promise).
  \<^item> \<^verbatim>\<open>Buffer_IO\<close>: the locale \<open>buffer_device\<close>, the contract of reading and writing at a position.
  \<^item> \<^verbatim>\<open>Chrdev4\<close>: the driver of chapter 4; it provides both contracts.
  \<^item> \<^verbatim>\<open>Registry_Mem\<close>, \<^verbatim>\<open>Chrdev7\<close>: registrations with a heap, and the driver of chapter 7; it provides both
    contracts.
  \<^item> \<^verbatim>\<open>Cbuf\<close>, \<^verbatim>\<open>Chrdev_Irq\<close>, \<^verbatim>\<open>Irq_Concurrent\<close>: the circular buffer as a queue, the timer-fed driver, and the
    interleaving of its timer with any number of readers.
  \<^item> \<^verbatim>\<open>File_Spec\<close>: what a character device with a buffer promises, as an abstract file (contents,
    position, whether it can be written) with reads, writes and seeks; that any provider of the
    contract \<open>buffer_device\<close>, or of its extension \<open>seekable_buffer\<close>, simulates it call by call.
  \<^item> \<^verbatim>\<open>File_Refine\<close>: both drivers refine the abstract file, and are equivalent on their common bytes.
  \<^item> \<^verbatim>\<open>Chrdev4_System\<close>: the driver of chapter 4 with the table of open files; no sequence of operations
    makes it fault, with the one exception stated there.
  \<^item> \<^verbatim>\<open>Chrdev7_System\<close>: the same for chapter 7, with \<open>lseek\<close>, \<open>ioctl\<close> and \<open>mmap\<close>: a run goes well or comes
    to an operation whose inputs are out of order, of which unregistering an open device is one.
  \<^item> \<^verbatim>\<open>Step_System\<close>: runs of operations over any state, and the locale \<open>step_system\<close> with what follows for
    runs from one step; the two drivers and the machine of \<^verbatim>\<open>Module_Safe\<close> are its instances.
  \<^item> \<^verbatim>\<open>Platform\<close>: the match tables and driver structures of \<^verbatim>\<open>chrdev-req.c\<close>, the bus that probes and removes,
    and that the registry holds what the bound devices asked for.
  \<^item> \<^verbatim>\<open>Fops\<close>: the tables \<^verbatim>\<open>chrdev_fops\<close> of the four character drivers, as the kernel calls through them.
  \<^item> \<^verbatim>\<open>Module_Life\<close>, \<^verbatim>\<open>Module_Safe\<close>: a machine on which \<^verbatim>\<open>chrdev.ko\<close> and \<^verbatim>\<open>chrdev-req.ko\<close> of chapter 7 are loaded
    and unloaded, platform devices bound and unbound and the devices used, in any order, with the
    kernel's references to modules.
  \<^item> \<^verbatim>\<open>Reg_Race\<close>: the registration of chapter 7 cut into the parts between which other threads run; the
    parts in sequence are the function, two registrations at once break its invariant.
  \<^item> \<^verbatim>\<open>Io_Race\<close>: reads, writes and the change of the access mode of chapter 7 cut into parts, down to the bytes
    of their copies, and run side by side.
  \<^item> \<^verbatim>\<open>Irq_Queue\<close>: the interleaving refines an abstract bounded queue.
  \<^item> \<^verbatim>\<open>Irq_Progress\<close>: from every state of the interleaving, when reads ask for one character at most, each
    call can still end; and who has to wait for a
    reader that sleeps, and what becomes of it when the device is unregistered.
  \<^item> \<^verbatim>\<open>Irq_Rereg\<close>: the interleaving with the device unregistered and registered again under its readers.
  \<^item> \<^verbatim>\<open>Irq_Life\<close>: the driver from module start on, its devices coming and going: with one rule for
    unregistering, nothing touches freed memory, every life of a device is a queue of its own and its calls can end; and
    why the rule is needed.
  \<^item> \<^verbatim>\<open>Irq_Window\<close>: the registration of the timer-fed driver in two parts, and a reader that comes in between.
  \<^item> \<^verbatim>\<open>Mmap_Reuse\<close>: a mapping made by \<open>mmap\<close> on chapter 7 when its device is unregistered.
  \<^item> \<^verbatim>\<open>Chrdev_Fw\<close>: \<^verbatim>\<open>chrdev-fw.c\<close>.
  \<^item> \<^verbatim>\<open>Klist\<close>, \<^verbatim>\<open>Khash\<close>: the list and hash table modules over the kernel's structures, whose documented
    behaviour is a locale, with an instance built on memory.
  \<^item> \<^verbatim>\<open>Timers\<close>: the timer modules. \<^verbatim>\<open>Locks\<close>: spin lock, mutex, wait queue and completion, as step
    relations. \<^verbatim>\<open>Modules\<close>: notifier, legacy device, string helpers.
  \<^item> \<^verbatim>\<open>User_Test\<close>, \<^verbatim>\<open>User_Tools\<close>, \<^verbatim>\<open>User_Events\<close>: the programs that run in user space
    (\<^verbatim>\<open>chrdev_test.c\<close>; \<^verbatim>\<open>chrdev_ioctl.c\<close> and \<^verbatim>\<open>chrdev_mmap.c\<close>; \<^verbatim>\<open>chrdev_select.c\<close> and
    \<^verbatim>\<open>chrdev_fasync.c\<close>), over the system calls they make, which are arguments. The properties run
    them on the models of the drivers, so that both sides of a call are code of the repository.
  \<^item> \<^verbatim>\<open>User_Fasync\<close>: \<^verbatim>\<open>chrdev_fasync.c\<close> with its signal handler interrupting its loop while the timers of the
    device expire.
  \<^item> \<^verbatim>\<open>Demos\<close>: the device-tree scan, structure layout, allocation, time, parameter and hello modules.

  \<^bold>\<open>What the theorems show.\<close>
  \<^item> Refinement: reads, writes and seeks on the drivers of chapters 4 and 7 answer what the abstract
    file answers; the timer-fed driver, in every interleaving, is a first-in first-out queue.
  \<^item> Safety and types: no fault while the stated conditions on the environment hold; registrations
    are all or nothing, leak no memory and leave no timer running. The timer-fed driver is safe in every
    run in which a device is unregistered only while no thread is inside a call on it.
  \<^item> Composition: through the tables and the bus, the references to modules keep every open device of chapter
    7 registered; unbinding a platform device is the one operation that does not respect them. The
    firmware driver registers nothing without firmware. The signal-driven program shows every
    character in order, but falls behind.
  \<^item> The faults there are, each from a concrete state: writing past the end, use of a freed buffer,
    a reference dropped on the wrong object, a read that overruns its array, a lock taken twice, a
    registration that takes another one's device apart, two writes that tear each other, a mapping that
    shows the buffer of another device, a device that is read before its queue is reset.
  \<^item> Progress: no call on the timer-fed device is stuck for good, the mutex module never deadlocks, the
    spin lock module can.
  \<^item> The modules and programs: ordered insertion, hash table round trip, timers, wait queues, and what
    each program prints when run on a device.

  \<^bold>\<open>What is assumed of the kernel.\<close> It clips a transfer to \<open>MAX_RW_COUNT\<close> bytes before it calls a driver
  (\<open>call_ok\<close>), copies to and from user space report the number of bytes not copied (\<open>copy_ok\<close>), opens a
  slot only while its \<open>cdev\<close> is added, calls through the table of methods, takes a reference on the
  owners of the \<open>cdev\<close> and of the table for each open file, refuses to unload a module that is
  referred to, probes the devices that match a driver's table, delivers a pending signal once, and
  keeps a mapping made by \<open>mmap\<close> to the pages the driver named. Allocation answers an address not in
  use. Each stands as a hypothesis of the theorems that need it, or is a step of the machine of
  \<^verbatim>\<open>Module_Life\<close> or \<^verbatim>\<open>User_Fasync\<close>.

  \<^bold>\<open>Conventions.\<close> Integers have the width they have on the 64-bit ARM target. A step that can leave the
  language (an access outside an array, freed memory, an error pointer, \<open>BUG()\<close>) has a result in
  \<open>fault + 'a\<close>. Loops whose end depends on the environment are partial functions into \<open>option\<close>, so
  that never returning is the value \<open>None\<close>; there is no fuel. Sleeping and interrupts are program points
  of a step relation.

  \<^bold>\<open>Not modelled.\<close> Log messages, except where printing dereferences a pointer or is what the module is for;
  the messages the programs send to standard error; build files, device-tree sources and the kernel patches,
  which are not C files.
\<close>

end
